(* ===== verification/Pintos_Prelude.thy ===== *)
theory Pintos_Prelude
  imports Main "HOL-Library.Monad_Syntax" "HOL-Library.Word" "HOL-Library.Multiset"
begin

text \<open>
  Shared vocabulary of the development: the machine integers of the 32-bit
  build, the option monad in which kernel code is written (\<open>None\<close> is a kernel
  that does not get past this point: a failed \<^verbatim>\<open>ASSERT\<close>, a \<^verbatim>\<open>PANIC\<close>, a
  dereference of the null pointer, or a loop that does not end), and the list
  facts several components use.
\<close>

subsection \<open>Machine integers and pointers\<close>

type_synonym u8 = "8 word"
type_synonym u16 = "16 word"
type_synonym u32 = "32 word"
type_synonym u64 = "64 word"

text \<open>A pointer is an address; \<open>NULL\<close> is address 0.\<close>

type_synonym ptr = nat

abbreviation (input) NULL :: ptr where
  "NULL \<equiv> 0"

subsection \<open>Assertions\<close>

definition ASSERT :: "bool \<Rightarrow> unit option" where
  "ASSERT b = (if b then Some () else None)"

lemma ASSERT_simps [simp]:
  "ASSERT True = Some ()"
  "ASSERT False = None"
  "(ASSERT b = Some u) = b"
  "(ASSERT b = None) = (\<not> b)"
  by (simp_all add: ASSERT_def)

lemma ASSERT_bind_eq_Some [simp]:
  "(do { ASSERT b; m }) = Some x \<longleftrightarrow> b \<and> m = Some x"
  by (cases b) simp_all

lemma ASSERT_bind_True [simp]: "b \<Longrightarrow> (do { ASSERT b; m }) = m"
  by simp

subsection \<open>Named collections\<close>

named_theorems links \<open>facts on linked segments of list elements\<close>
named_theorems bitmap_simps \<open>how bitmap operations act on single bits\<close>
named_theorems inv_intros \<open>preservation of component invariants\<close>

subsection \<open>Lists\<close>

lemma last_notin_butlast: "distinct xs \<Longrightarrow> xs \<noteq> [] \<Longrightarrow> last xs \<notin> set (butlast xs)"
  by (metis append_butlast_last_id distinct_butlast not_distinct_conv_prefix)

lemma hd_notin_tl: "distinct xs \<Longrightarrow> xs \<noteq> [] \<Longrightarrow> hd xs \<notin> set (tl xs)"
  by (cases xs) auto

lemma in_set_tlD: "x \<in> set (tl xs) \<Longrightarrow> x \<in> set xs"
  by (cases xs) auto

lemma in_tl_or_hd: "x \<in> set xs \<Longrightarrow> x = hd xs \<or> x \<in> set (tl xs)"
  by (cases xs) auto

lemma hd_tl_append [simp]: "xs \<noteq> [] \<Longrightarrow> hd xs # tl xs @ ys = xs @ ys"
  by (cases xs) auto

lemma butlast_last_append [simp]: "xs \<noteq> [] \<Longrightarrow> butlast xs @ last xs # ys = xs @ ys"
  by (metis append.assoc append_Cons append_Nil append_butlast_last_id)

subsection \<open>Ordered insertion\<close>

text \<open>
  What ordered insertion does to the sequence of elements: the new element goes
  in front of the first element it is \<open>lessf\<close> than. With a strict comparison an
  element therefore goes behind its equals, with a reflexive one in front of them.
\<close>

definition insert_ordered :: "('a \<Rightarrow> 'a \<Rightarrow> bool) \<Rightarrow> 'a \<Rightarrow> 'a list \<Rightarrow> 'a list" where
  "insert_ordered lessf x xs =
     takeWhile (\<lambda>e. \<not> lessf x e) xs @ x # dropWhile (\<lambda>e. \<not> lessf x e) xs"

lemma insert_ordered_simps [simp]:
  "insert_ordered lessf x [] = [x]"
  "insert_ordered lessf x (y # ys) =
     (if lessf x y then x # y # ys else y # insert_ordered lessf x ys)"
  by (simp_all add: insert_ordered_def)

lemma set_insert_ordered [simp]: "set (insert_ordered lessf x xs) = insert x (set xs)"
  by (induction xs) auto

lemma mset_insert_ordered [simp]: "mset (insert_ordered lessf x xs) = add_mset x (mset xs)"
  by (induction xs) auto

lemma length_insert_ordered [simp]: "length (insert_ordered lessf x xs) = Suc (length xs)"
  by (induction xs) auto

lemma insert_ordered_neq_Nil [simp]: "insert_ordered lessf x xs \<noteq> []"
  by (simp add: insert_ordered_def)

lemma distinct_insert_ordered [simp]:
  "distinct (insert_ordered lessf x xs) \<longleftrightarrow> x \<notin> set xs \<and> distinct xs"
  by (induction xs) auto

lemma insert_ordered_split: "\<exists>as bs. xs = as @ bs \<and> insert_ordered lessf x xs = as @ x # bs"
  by (metis insert_ordered_def takeWhile_dropWhile_id)

lemma insert_ordered_cong:
  "(\<And>e. e \<in> set xs \<Longrightarrow> f x e = g x e) \<Longrightarrow> insert_ordered f x xs = insert_ordered g x xs"
  by (induction xs) auto

text \<open>
  A sequence in descending order of a key stays so, whether equal keys are put
  in front or behind.
\<close>

definition desc_by :: "('a \<Rightarrow> 'k::linorder) \<Rightarrow> 'a list \<Rightarrow> bool" where
  "desc_by k xs \<longleftrightarrow> sorted_wrt (\<lambda>a b. k a \<ge> k b) xs"

lemma desc_by_simps [simp]:
  "desc_by k []"
  "desc_by k (x # xs) \<longleftrightarrow> (\<forall>y \<in> set xs. k y \<le> k x) \<and> desc_by k xs"
  by (auto simp: desc_by_def)

lemma desc_by_append:
  "desc_by k (xs @ ys) \<longleftrightarrow> desc_by k xs \<and> desc_by k ys \<and> (\<forall>x \<in> set xs. \<forall>y \<in> set ys. k y \<le> k x)"
  by (auto simp: desc_by_def sorted_wrt_append)

lemma desc_by_insert_strict:
  "desc_by k xs \<Longrightarrow> desc_by k (insert_ordered (\<lambda>a b. k a > k b) x xs)"
  by (induction xs) (auto simp: not_less)

lemma desc_by_insert_refl:
  "desc_by k xs \<Longrightarrow> desc_by k (insert_ordered (\<lambda>a b. k a \<ge> k b) x xs)"
  by (induction xs) (auto simp: not_le)

lemma desc_by_remove1: "desc_by k xs \<Longrightarrow> desc_by k (remove1 x xs)"
  by (induction xs) (auto dest: notin_set_remove1)

lemma desc_by_cong:
  "(\<And>x. x \<in> set xs \<Longrightarrow> k x = k' x) \<Longrightarrow> desc_by k xs = desc_by k' xs"
  by (induction xs) auto

text \<open>Elements of equal key keep the order in which they were inserted.\<close>

lemma insert_ordered_stable:
  "desc_by k xs \<Longrightarrow>
   filter (\<lambda>e. k e = c) (insert_ordered (\<lambda>a b. k a > k b) x xs) =
   filter (\<lambda>e. k e = c) xs @ (if k x = c then [x] else [])"
proof (induction xs)
  case (Cons y ys)
  have "filter (\<lambda>e. k e = k x) ys = []" if "k x > k y"
    using Cons.prems that by (force simp: filter_empty_conv)
  with Cons show ?case
    by (auto simp: not_less)
qed simp

subsection \<open>32-bit words\<close>

unbundle bit_operations_syntax

lemma bit_top: "2 ^ n \<le> unat (x :: u32) \<Longrightarrow> unat x < 2 ^ Suc n \<Longrightarrow> bit x n"
proof -
  assume "2 ^ n \<le> unat x" "unat x < 2 ^ Suc n"
  then have "unat x div 2 ^ n = 1" by (intro div_nat_eqI) simp_all
  then have "bit (unat x) n" by (simp add: bit_iff_odd)
  then show "bit x n" by (simp add: bit_unsigned_iff)
qed

lemma unat_less_32: "unat (x :: u32) < 2 ^ 32"
  by (rule order_less_le_trans [OF unsigned_less]) simp

lemma unat_exp: "n < 32 \<Longrightarrow> unat (2 ^ n :: u32) = 2 ^ n"
proof -
  assume "n < 32"
  have "(2 ^ n :: u32) = of_nat (2 ^ n)" by simp
  moreover have "unat (of_nat (2 ^ n) :: u32) = 2 ^ n"
    using \<open>n < 32\<close> unfolding unsigned_of_nat by (simp add: take_bit_nat_eq_self)
  ultimately show ?thesis by metis
qed

lemma and_exp_minus_1: "(x :: u32) AND (2 ^ n - 1) = take_bit n x"
  by (simp add: take_bit_eq_mask mask_eq_exp_minus_1)

lemma unat_plus_1: "unat (x :: u32) + 1 < 2 ^ 32 \<Longrightarrow> unat (x + 1) = unat x + 1"
  by (simp add: unat_word_ariths)

subsection \<open>Sequences of keyed elements, and arrays of lists\<close>

lemma map_of_keys: "map_of (map (\<lambda>e. (key e, e)) es) k = List.find (\<lambda>e. key e = k) es"
  by (induction es) auto

lemma find_append: "List.find P (xs @ ys) = (case List.find P xs of None \<Rightarrow> List.find P ys | Some x \<Rightarrow> Some x)"
  by (induction xs) auto

lemma find_concat_bucket:
  assumes "i < length bs" and "\<And>j e. j < length bs \<Longrightarrow> e \<in> set (bs ! j) \<Longrightarrow> P e \<Longrightarrow> j = i"
  shows "List.find P (concat bs) = List.find P (bs ! i)"
  using assms
proof (induction bs arbitrary: i)
  case (Cons b bs)
  show ?case
  proof (cases i)
    case 0
    have "List.find P (concat bs) = None"
      using Cons.prems(2) [of "Suc _"] 0 by (force simp: find_None_iff in_set_conv_nth)
    with 0 show ?thesis by (simp add: find_append split: option.splits)
  next
    case (Suc i')
    have "List.find P b = None" using Cons.prems(2) [of 0] Suc by (force simp: find_None_iff)
    moreover have "List.find P (concat bs) = List.find P (bs ! i')"
    proof (rule Cons.IH)
      show "i' < length bs" using Cons.prems(1) Suc by simp
      show "j = i'" if "j < length bs" "e \<in> set (bs ! j)" "P e" for j e
        using Cons.prems(2) [of "Suc j" e] Suc that by simp
    qed
    ultimately show ?thesis using Suc by (simp add: find_append)
  qed
qed simp

lemma mset_concat_update:
  "i < length bs \<Longrightarrow> mset (concat (bs[i := b])) + mset (bs ! i) = mset (concat bs) + mset b"
proof (induction bs arbitrary: i)
  case (Cons c bs)
  then show ?case by (cases i) (simp_all add: ac_simps)
qed simp

lemma mset_concat_push:
  assumes "i < length bs"
  shows "mset (concat (bs[i := e # bs ! i])) = add_mset e (mset (concat bs))"
  using mset_concat_update [OF assms, of "e # bs ! i"] by simp

lemma concat_map_remove1: "distinct (concat bs) \<Longrightarrow> concat (map (remove1 e) bs) = remove1 e (concat bs)"
proof (induction bs)
  case (Cons b bs)
  have "e \<notin> set (concat bs)" if "e \<in> set b" using Cons.prems that by auto
  with Cons show ?case by (auto simp: remove1_append remove1_idem)
qed simp

lemma map_of_remove1:
  "distinct (map key xs) \<Longrightarrow> e \<in> set xs \<Longrightarrow>
   map_of (map (\<lambda>e. (key e, e)) (remove1 e xs)) = (map_of (map (\<lambda>e. (key e, e)) xs))(key e := None)"
proof (induction xs)
  case (Cons x xs)
  show ?case
  proof (cases "x = e")
    case True
    have "map_of (map (\<lambda>e. (key e, e)) xs) (key e) = None"
      using Cons.prems True by (auto simp: map_of_eq_None_iff)
    with True show ?thesis by (auto simp: fun_eq_iff)
  next
    case False
    then have "key x \<noteq> key e" using Cons.prems by (force simp: image_iff)
    with False Cons show ?thesis by (auto simp: fun_upd_twist)
  qed
qed simp

lemma distinct_map_remove1: "distinct (map f xs) \<Longrightarrow> distinct (map f (remove1 x xs))"
  using set_remove1_subset by (induction xs) fastforce+

end
