(* ===== verification/Bitmap.thy ===== *)
theory Bitmap
  imports Pintos_Prelude
begin

text \<open>
  The bitmaps of \<^verbatim>\<open>lib/kernel/bitmap.c\<close>. A bitmap is an array of 32-bit elements
  (\<^verbatim>\<open>elem_type\<close> is \<^verbatim>\<open>unsigned long\<close> on IA-32) simulating an array of bits. \<^verbatim>\<open>size_t\<close>
  values are natural numbers whose sums and products are reduced modulo
  \<open>2 ^ 32\<close> where the code computes them. An access outside the element array
  has no value (\<^const>\<open>None\<close>).
\<close>

unbundle bit_operations_syntax

section \<open>The code\<close>

abbreviation (input) ELEM_BITS :: nat where "ELEM_BITS \<equiv> 32"

definition size_add :: "nat \<Rightarrow> nat \<Rightarrow> nat" where
  "size_add a b = (a + b) mod 2 ^ 32"

definition BITMAP_ERROR :: nat where "BITMAP_ERROR = 2 ^ 32 - 1"

record bitmap =
  bit_cnt :: nat
  bits :: "u32 list"

definition elem_idx :: "nat \<Rightarrow> nat" where
  "elem_idx bit_idx = bit_idx div ELEM_BITS"

definition bit_mask :: "nat \<Rightarrow> u32" where
  "bit_mask bit_idx = push_bit (bit_idx mod ELEM_BITS) 1"

definition elem_cnt :: "nat \<Rightarrow> nat" where
  "elem_cnt n = size_add n (ELEM_BITS - 1) div ELEM_BITS"

definition byte_cnt :: "nat \<Rightarrow> nat" where
  "byte_cnt n = (4 * elem_cnt n) mod 2 ^ 32"

definition last_mask :: "bitmap \<Rightarrow> u32" where
  "last_mask b = (let last_bits = bit_cnt b mod ELEM_BITS in
     if last_bits \<noteq> 0 then push_bit last_bits 1 - 1 else - 1)"

definition update_elem :: "nat \<Rightarrow> (u32 \<Rightarrow> u32) \<Rightarrow> bitmap \<Rightarrow> bitmap option" where
  "update_elem i f b = do {
     ASSERT (i < length (bits b));
     Some (b\<lparr>bits := (bits b)[i := f (bits b ! i)]\<rparr>)
   }"

definition bitmap_mark :: "bitmap \<Rightarrow> nat \<Rightarrow> bitmap option" where
  "bitmap_mark b bit_idx = update_elem (elem_idx bit_idx) (\<lambda>w. w OR bit_mask bit_idx) b"

definition bitmap_reset :: "bitmap \<Rightarrow> nat \<Rightarrow> bitmap option" where
  "bitmap_reset b bit_idx = update_elem (elem_idx bit_idx) (\<lambda>w. w AND NOT (bit_mask bit_idx)) b"

definition bitmap_flip :: "bitmap \<Rightarrow> nat \<Rightarrow> bitmap option" where
  "bitmap_flip b bit_idx = update_elem (elem_idx bit_idx) (\<lambda>w. w XOR bit_mask bit_idx) b"

definition bitmap_set :: "bitmap \<Rightarrow> nat \<Rightarrow> bool \<Rightarrow> bitmap option" where
  "bitmap_set b idx v = do {
     ASSERT (idx < bit_cnt b);
     if v then bitmap_mark b idx else bitmap_reset b idx
   }"

definition bitmap_test :: "bitmap \<Rightarrow> nat \<Rightarrow> bool option" where
  "bitmap_test b idx = do {
     ASSERT (idx < bit_cnt b);
     ASSERT (elem_idx idx < length (bits b));
     Some (bits b ! elem_idx idx AND bit_mask idx \<noteq> 0)
   }"

definition bitmap_size :: "bitmap \<Rightarrow> nat" where
  "bitmap_size b = bit_cnt b"

partial_function (option) set_multiple_loop :: "bitmap \<Rightarrow> nat \<Rightarrow> nat \<Rightarrow> nat \<Rightarrow> bool \<Rightarrow> bitmap option" where
  "set_multiple_loop b start i cnt v =
     (if i < cnt then do {
        b \<leftarrow> bitmap_set b (size_add start i) v;
        set_multiple_loop b start (i + 1) cnt v
      } else Some b)"

definition bitmap_set_multiple :: "bitmap \<Rightarrow> nat \<Rightarrow> nat \<Rightarrow> bool \<Rightarrow> bitmap option" where
  "bitmap_set_multiple b start cnt v = do {
     ASSERT (start \<le> bit_cnt b);
     ASSERT (size_add start cnt \<le> bit_cnt b);
     set_multiple_loop b start 0 cnt v
   }"

definition bitmap_set_all :: "bitmap \<Rightarrow> bool \<Rightarrow> bitmap option" where
  "bitmap_set_all b v = bitmap_set_multiple b 0 (bitmap_size b) v"

partial_function (option) count_loop :: "bitmap \<Rightarrow> nat \<Rightarrow> nat \<Rightarrow> nat \<Rightarrow> bool \<Rightarrow> nat \<Rightarrow> nat option" where
  "count_loop b start i cnt v value_cnt =
     (if i < cnt then do {
        t \<leftarrow> bitmap_test b (size_add start i);
        count_loop b start (i + 1) cnt v (if t = v then value_cnt + 1 else value_cnt)
      } else Some value_cnt)"

definition bitmap_count :: "bitmap \<Rightarrow> nat \<Rightarrow> nat \<Rightarrow> bool \<Rightarrow> nat option" where
  "bitmap_count b start cnt v = do {
     ASSERT (start \<le> bit_cnt b);
     ASSERT (size_add start cnt \<le> bit_cnt b);
     count_loop b start 0 cnt v 0
   }"

partial_function (option) contains_loop :: "bitmap \<Rightarrow> nat \<Rightarrow> nat \<Rightarrow> nat \<Rightarrow> bool \<Rightarrow> bool option" where
  "contains_loop b start i cnt v =
     (if i < cnt then do {
        t \<leftarrow> bitmap_test b (size_add start i);
        if t = v then Some True else contains_loop b start (i + 1) cnt v
      } else Some False)"

definition bitmap_contains :: "bitmap \<Rightarrow> nat \<Rightarrow> nat \<Rightarrow> bool \<Rightarrow> bool option" where
  "bitmap_contains b start cnt v = do {
     ASSERT (start \<le> bit_cnt b);
     ASSERT (size_add start cnt \<le> bit_cnt b);
     contains_loop b start 0 cnt v
   }"

definition bitmap_any :: "bitmap \<Rightarrow> nat \<Rightarrow> nat \<Rightarrow> bool option" where
  "bitmap_any b start cnt = bitmap_contains b start cnt True"

definition bitmap_none :: "bitmap \<Rightarrow> nat \<Rightarrow> nat \<Rightarrow> bool option" where
  "bitmap_none b start cnt = map_option Not (bitmap_contains b start cnt True)"

definition bitmap_all :: "bitmap \<Rightarrow> nat \<Rightarrow> nat \<Rightarrow> bool option" where
  "bitmap_all b start cnt = map_option Not (bitmap_contains b start cnt False)"

partial_function (option) scan_loop :: "bitmap \<Rightarrow> nat \<Rightarrow> nat \<Rightarrow> nat \<Rightarrow> bool \<Rightarrow> nat option" where
  "scan_loop b i lst cnt v =
     (if i \<le> lst then do {
        c \<leftarrow> bitmap_contains b i cnt (\<not> v);
        if \<not> c then Some i else scan_loop b (size_add i 1) lst cnt v
      } else Some BITMAP_ERROR)"

definition bitmap_scan :: "bitmap \<Rightarrow> nat \<Rightarrow> nat \<Rightarrow> bool \<Rightarrow> nat option" where
  "bitmap_scan b start cnt v = do {
     ASSERT (start \<le> bit_cnt b);
     if cnt \<le> bit_cnt b then scan_loop b start (bit_cnt b - cnt) cnt v
     else Some BITMAP_ERROR
   }"

definition bitmap_scan_and_flip :: "bitmap \<Rightarrow> nat \<Rightarrow> nat \<Rightarrow> bool \<Rightarrow> (nat \<times> bitmap) option" where
  "bitmap_scan_and_flip b start cnt v = do {
     idx \<leftarrow> bitmap_scan b start cnt v;
     b \<leftarrow> (if idx \<noteq> BITMAP_ERROR then bitmap_set_multiple b idx cnt (\<not> v) else Some b);
     Some (idx, b)
   }"

text \<open>
  Creation. What \<^verbatim>\<open>malloc\<close> returns is an argument: whether the structure was
  allocated, and the uninitialised elements, if any. The inner option is the
  pointer that \<^verbatim>\<open>bitmap_create\<close> returns.
\<close>

definition bitmap_create :: "bool \<Rightarrow> u32 list option \<Rightarrow> nat \<Rightarrow> bitmap option option" where
  "bitmap_create got_struct storage n =
     (if got_struct then
        (if storage \<noteq> None \<or> n = 0 then
           map_option Some (bitmap_set_all
             \<lparr>bit_cnt = n, bits = (case storage of Some ws \<Rightarrow> ws | None \<Rightarrow> [])\<rparr> False)
         else Some None)
      else Some None)"

definition bitmap_buf_size :: "nat \<Rightarrow> nat" where
  "bitmap_buf_size n = size_add 8 (byte_cnt n)"

definition bitmap_create_in_buf :: "nat \<Rightarrow> u32 list \<Rightarrow> nat \<Rightarrow> bitmap option" where
  "bitmap_create_in_buf n block block_size = do {
     ASSERT (block_size \<ge> bitmap_buf_size n);
     bitmap_set_all \<lparr>bit_cnt = n, bits = block\<rparr> False
   }"

definition bitmap_file_size :: "bitmap \<Rightarrow> nat" where
  "bitmap_file_size b = byte_cnt (bit_cnt b)"

text \<open>
  \<^verbatim>\<open>bitmap_read\<close> gets what \<^verbatim>\<open>file_read_at\<close> did: the number of bytes read and the elements
  as they are in memory afterwards. \<^verbatim>\<open>bitmap_write\<close> gets the number of bytes written.
\<close>

definition bitmap_read :: "bitmap \<Rightarrow> nat \<Rightarrow> u32 list \<Rightarrow> (bool \<times> bitmap) option" where
  "bitmap_read b bytes_read ws =
     (if bit_cnt b > 0 then do {
        let size = byte_cnt (bit_cnt b);
        let success = (bytes_read = size);
        b' \<leftarrow> update_elem (elem_cnt (bit_cnt b) - 1) (\<lambda>w. w AND last_mask b) (b\<lparr>bits := ws\<rparr>);
        Some (success, b')
      } else Some (True, b))"

definition bitmap_write :: "bitmap \<Rightarrow> nat \<Rightarrow> bool" where
  "bitmap_write b bytes_written \<longleftrightarrow> bytes_written = byte_cnt (bit_cnt b)"

section \<open>The array of bits\<close>

definition bits_of :: "bitmap \<Rightarrow> bool list" where
  "bits_of b = map (\<lambda>i. bit (bits b ! (i div 32)) (i mod 32)) [0..<bit_cnt b]"

text \<open>
  A bitmap is well-formed when its elements are exactly as many as its bits
  need; the bound on the number of bits keeps the rounding from wrapping.
\<close>

definition bitmap_wf :: "bitmap \<Rightarrow> bool" where
  "bitmap_wf b \<longleftrightarrow> bit_cnt b < 2 ^ 32 - 32 \<and> length (bits b) = elem_cnt (bit_cnt b)"

lemma length_bits_of [simp]: "length (bits_of b) = bit_cnt b"
  by (simp add: bits_of_def)

lemma nth_bits_of [simp]: "i < bit_cnt b \<Longrightarrow> bits_of b ! i = bit (bits b ! (i div 32)) (i mod 32)"
  by (simp add: bits_of_def)

lemma size_add_small [simp]: "a + b < 2 ^ 32 \<Longrightarrow> size_add a b = a + b"
  by (simp add: size_add_def)

lemma bitmap_wf_elem [simp]: "bitmap_wf b \<Longrightarrow> i < bit_cnt b \<Longrightarrow> i div 32 < length (bits b)"
  by (simp add: bitmap_wf_def elem_cnt_def size_add_def)

lemma bit_bit_mask [simp]: "bit (bit_mask i) n \<longleftrightarrow> n = i mod 32"
  by (auto simp: bit_mask_def bit_exp_iff possible_bit_def)

lemma and_bit_mask [simp]: "w AND bit_mask i = 0 \<longleftrightarrow> \<not> bit w (i mod 32)"
proof -
  have "w AND bit_mask i = (if bit w (i mod 32) then bit_mask i else 0)"
    by (rule bit_word_eqI) (auto simp: bit_and_iff)
  moreover have "bit_mask i \<noteq> 0"
    using bit_bit_mask [of i "i mod 32"] by (metis bit_0_eq bot_apply bot_bool_def)
  ultimately show ?thesis by simp
qed

text \<open>Changing one bit of one element changes one bit of the array.\<close>

lemma update_elem_bit:
  assumes "bitmap_wf b" and "i < bit_cnt b"
    and f: "\<And>w n. n < 32 \<Longrightarrow> bit (f w) n = (if n = i mod 32 then v w else bit w n)"
  shows "\<exists>b'. update_elem (elem_idx i) f b = Some b' \<and> bitmap_wf b' \<and> bit_cnt b' = bit_cnt b \<and>
    bits_of b' = (bits_of b)[i := v (bits b ! (i div 32))]"
proof -
  let ?b = "b\<lparr>bits := (bits b)[i div 32 := f (bits b ! (i div 32))]\<rparr>"
  have "bits_of ?b = (bits_of b)[i := v (bits b ! (i div 32))]"
  proof (rule nth_equalityI)
    fix j assume j: "j < length (bits_of ?b)"
    then have "j div 32 < length (bits b)" using assms by simp
    moreover have "j = i" if "j div 32 = i div 32" "j mod 32 = i mod 32"
      using that by (metis div_mult_mod_eq)
    ultimately show "bits_of ?b ! j = (bits_of b)[i := v (bits b ! (i div 32))] ! j"
      using j f [of "j mod 32"] assms by (auto simp: nth_list_update)
  qed simp
  moreover have "i div 32 < length (bits b)" using assms by simp
  ultimately show ?thesis
    using assms(1) by (simp add: update_elem_def elem_idx_def bitmap_wf_def)
qed

lemma bitmap_set_spec:
  assumes "bitmap_wf b" and "i < bit_cnt b"
  shows "\<exists>b'. bitmap_set b i v = Some b' \<and> bitmap_wf b' \<and> bit_cnt b' = bit_cnt b \<and>
    bits_of b' = (bits_of b)[i := v]"
  using assms update_elem_bit [OF assms, of "\<lambda>w. w OR bit_mask i" "\<lambda>_. True"]
    update_elem_bit [OF assms, of "\<lambda>w. w AND NOT (bit_mask i)" "\<lambda>_. False"]
  by (auto simp: bitmap_set_def bitmap_mark_def bitmap_reset_def bit_or_iff bit_and_iff bit_not_iff)

lemma bitmap_flip_spec:
  assumes "bitmap_wf b" and "i < bit_cnt b"
  shows "\<exists>b'. bitmap_flip b i = Some b' \<and> bitmap_wf b' \<and> bit_cnt b' = bit_cnt b \<and>
    bits_of b' = (bits_of b)[i := \<not> bits_of b ! i]"
  using update_elem_bit [OF assms, of "\<lambda>w. w XOR bit_mask i" "\<lambda>w. \<not> bit w (i mod 32)"] assms
  by (auto simp: bitmap_flip_def bit_xor_iff)

lemma bitmap_test_spec [simp]:
  "bitmap_wf b \<Longrightarrow> i < bit_cnt b \<Longrightarrow> bitmap_test b i = Some (bits_of b ! i)"
  by (simp add: bitmap_test_def elem_idx_def)

subsection \<open>Ranges\<close>

definition set_range :: "'a list \<Rightarrow> nat \<Rightarrow> nat \<Rightarrow> 'a \<Rightarrow> 'a list" where
  "set_range xs start cnt v = map (\<lambda>i. if start \<le> i \<and> i < start + cnt then v else xs ! i) [0..<length xs]"

lemma length_set_range [simp]: "length (set_range xs start cnt v) = length xs"
  by (simp add: set_range_def)

lemma nth_set_range [simp]:
  "i < length xs \<Longrightarrow> set_range xs start cnt v ! i = (if start \<le> i \<and> i < start + cnt then v else xs ! i)"
  by (simp add: set_range_def)

lemma set_range_0 [simp]: "set_range xs start 0 v = xs"
  by (rule nth_equalityI) auto

lemma set_range_Suc: "set_range (xs[start := v]) (Suc start) cnt v = set_range xs start (Suc cnt) v"
  by (rule nth_equalityI) (auto simp: nth_list_update Suc_le_eq)

definition all_in_range :: "bool list \<Rightarrow> nat \<Rightarrow> nat \<Rightarrow> bool \<Rightarrow> bool" where
  "all_in_range xs start cnt v \<longleftrightarrow> (\<forall>i < cnt. xs ! (start + i) = v)"

lemma set_multiple_loop_spec:
  assumes "bitmap_wf b" and "start + cnt \<le> bit_cnt b" and "i \<le> cnt"
  shows "\<exists>b'. set_multiple_loop b start i cnt v = Some b' \<and> bitmap_wf b' \<and> bit_cnt b' = bit_cnt b \<and>
    bits_of b' = set_range (bits_of b) (start + i) (cnt - i) v"
  using assms
proof (induction "cnt - i" arbitrary: b i)
  case 0
  then show ?case by (subst set_multiple_loop.simps) simp
next
  case (Suc k)
  have i: "start + i < bit_cnt b" "start + i < 2 ^ 32" "Suc i \<le> cnt" "i < cnt"
    using Suc.prems Suc.hyps(2) by (auto simp: bitmap_wf_def)
  obtain b1 where b1: "bitmap_set b (start + i) v = Some b1" "bitmap_wf b1" "bit_cnt b1 = bit_cnt b"
    "bits_of b1 = (bits_of b)[start + i := v]"
    using bitmap_set_spec [OF Suc.prems(1) i(1)] by blast
  have "k = cnt - Suc i" using Suc.hyps(2) by simp
  from Suc.hyps(1) [OF this, of b1] b1 i Suc.prems(2) obtain b2 where
    "set_multiple_loop b1 start (Suc i) cnt v = Some b2" "bitmap_wf b2" "bit_cnt b2 = bit_cnt b"
    "bits_of b2 = set_range ((bits_of b)[start + i := v]) (Suc (start + i)) (cnt - Suc i) v"
    by auto
  moreover have "Suc (cnt - Suc i) = cnt - i" using i by simp
  ultimately show ?case
    using b1(1) i by (subst set_multiple_loop.simps) (simp add: set_range_Suc)
qed

lemma bitmap_set_multiple_spec:
  assumes "bitmap_wf b" and "start + cnt \<le> bit_cnt b"
  shows "\<exists>b'. bitmap_set_multiple b start cnt v = Some b' \<and> bitmap_wf b' \<and> bit_cnt b' = bit_cnt b \<and>
    bits_of b' = set_range (bits_of b) start cnt v"
proof -
  have "start + cnt < 2 ^ 32" using assms by (simp add: bitmap_wf_def)
  then show ?thesis
    using set_multiple_loop_spec [OF assms, of 0 v] assms by (simp add: bitmap_set_multiple_def)
qed

lemma contains_loop_spec:
  assumes "bitmap_wf b" and "start + cnt \<le> bit_cnt b"
  shows "contains_loop b start i cnt v = Some (\<exists>j. i \<le> j \<and> j < cnt \<and> bits_of b ! (start + j) = v)"
  using assms
proof (induction "cnt - i" arbitrary: i)
  case 0
  then show ?case by (subst contains_loop.simps) simp
next
  case (Suc k)
  then have i: "start + i < bit_cnt b" "start + i < 2 ^ 32" "i < cnt" "k = cnt - Suc i"
    by (auto simp: bitmap_wf_def)
  have "(\<exists>j. i \<le> j \<and> j < cnt \<and> bits_of b ! (start + j) = v) \<longleftrightarrow>
    bits_of b ! (start + i) = v \<or> (\<exists>j. Suc i \<le> j \<and> j < cnt \<and> bits_of b ! (start + j) = v)"
    using i(3) by (metis Suc_leD Suc_leI le_neq_implies_less le_refl)
  then show ?case
    using Suc.hyps(1) [OF i(4) Suc.prems] i Suc.prems
    by (subst contains_loop.simps) (simp del: nth_bits_of)
qed

lemma bitmap_contains_spec:
  assumes "bitmap_wf b" and "start + cnt \<le> bit_cnt b"
  shows "bitmap_contains b start cnt v = Some (\<not> all_in_range (bits_of b) start cnt (\<not> v))"
proof -
  have "start + cnt < 2 ^ 32" using assms by (simp add: bitmap_wf_def)
  then show ?thesis
    using assms by (auto simp: bitmap_contains_def contains_loop_spec all_in_range_def)
qed

lemma count_loop_spec:
  assumes "bitmap_wf b" and "start + cnt \<le> bit_cnt b"
  shows "count_loop b start i cnt v n =
    Some (n + length (filter (\<lambda>j. bits_of b ! (start + j) = v) [i..<cnt]))"
  using assms
proof (induction "cnt - i" arbitrary: i n)
  case 0
  then show ?case by (subst count_loop.simps) simp
next
  case (Suc k)
  then have i: "start + i < bit_cnt b" "start + i < 2 ^ 32" "i < cnt" "k = cnt - Suc i"
    by (auto simp: bitmap_wf_def)
  then show ?case
    using Suc.hyps(1) [OF i(4) Suc.prems] Suc.prems upt_conv_Cons [OF i(3)]
    by (subst count_loop.simps) (auto simp del: nth_bits_of)
qed

subsection \<open>Scanning\<close>

lemma scan_loop_spec:
  assumes "bitmap_wf b" and "lst + cnt = bit_cnt b"
  shows "scan_loop b i lst cnt v = Some (case find (\<lambda>k. all_in_range (bits_of b) k cnt v) [i..<Suc lst] of
      None \<Rightarrow> BITMAP_ERROR | Some k \<Rightarrow> k)"
  using assms
proof (induction "Suc lst - i" arbitrary: i)
  case 0
  then show ?case by (subst scan_loop.simps) simp
next
  case (Suc n)
  then have i: "i \<le> lst" "i + cnt \<le> bit_cnt b" "n = Suc lst - Suc i" "i + 1 < 2 ^ 32" "i < Suc lst"
    by (auto simp: bitmap_wf_def)
  show ?case
    using Suc.hyps(1) [OF i(3) Suc.prems] bitmap_contains_spec [OF Suc.prems(1) i(2), of "\<not> v"] i
    by (subst scan_loop.simps, subst upt_conv_Cons [OF i(5)]) simp
qed

text \<open>The first position at or after \<open>start\<close> of \<open>cnt\<close> bits that all have value \<open>v\<close>.\<close>

definition first_run :: "bool list \<Rightarrow> nat \<Rightarrow> nat \<Rightarrow> bool \<Rightarrow> nat \<Rightarrow> bool" where
  "first_run xs start cnt v i \<longleftrightarrow> start \<le> i \<and> i + cnt \<le> length xs \<and> all_in_range xs i cnt v \<and>
     (\<forall>k. start \<le> k \<and> k < i \<longrightarrow> \<not> all_in_range xs k cnt v)"

definition no_run :: "bool list \<Rightarrow> nat \<Rightarrow> nat \<Rightarrow> bool \<Rightarrow> bool" where
  "no_run xs start cnt v \<longleftrightarrow> (\<forall>i. start \<le> i \<and> i + cnt \<le> length xs \<longrightarrow> \<not> all_in_range xs i cnt v)"

lemma first_run_not_no_run: "first_run xs start cnt v i \<Longrightarrow> \<not> no_run xs start cnt v"
  by (auto simp: first_run_def no_run_def)

lemma find_upt_first:
  assumes "find P [i..<n] = Some k"
  shows "i \<le> k" and "k < n" and "P k" and "\<forall>j. i \<le> j \<and> j < k \<longrightarrow> \<not> P j"
proof -
  obtain m where m: "m < n - i" "P (i + m)" "k = i + m" "\<forall>j<m. \<not> P (i + j)"
    using assms by (auto simp: find_Some_iff)
  then show "i \<le> k" "k < n" "P k" by auto
  show "\<forall>j. i \<le> j \<and> j < k \<longrightarrow> \<not> P j"
    using m(3,4) by (metis le_add_diff_inverse nat_add_left_cancel_less)
qed

lemma bitmap_scan_spec:
  assumes "bitmap_wf b" and "start \<le> bit_cnt b"
  shows "\<exists>r. bitmap_scan b start cnt v = Some r \<and>
    (if r = BITMAP_ERROR then no_run (bits_of b) start cnt v
     else first_run (bits_of b) start cnt v r)"
proof (cases "cnt \<le> bit_cnt b")
  case True
  then have l: "bit_cnt b - cnt + cnt = bit_cnt b" by simp
  have err: "r \<noteq> BITMAP_ERROR" if "r \<le> bit_cnt b - cnt" for r
    using that assms by (auto simp: bitmap_wf_def BITMAP_ERROR_def)
  let ?P = "\<lambda>k. all_in_range (bits_of b) k cnt v" and ?is = "[start..<Suc (bit_cnt b - cnt)]"
  show ?thesis
  proof (cases "find ?P ?is")
    case None
    then have "no_run (bits_of b) start cnt v"
      using True by (auto simp: no_run_def find_None_iff simp del: upt_Suc)
    with None scan_loop_spec [OF assms(1) l, of start v] True assms show ?thesis
      by (simp add: bitmap_scan_def del: upt_Suc)
  next
    case (Some r)
    then have r: "start \<le> r" "r + cnt \<le> bit_cnt b" "?P r" "\<forall>k. start \<le> k \<and> k < r \<longrightarrow> \<not> ?P k"
      using find_upt_first [OF Some] True by auto
    with err scan_loop_spec [OF assms(1) l, of start v] True assms Some show ?thesis
      by (simp add: bitmap_scan_def first_run_def del: upt_Suc)
  qed
next
  case False
  with assms show ?thesis by (auto simp: bitmap_scan_def no_run_def)
qed

lemma bitmap_scan_and_flip_spec:
  assumes "bitmap_wf b" and "start \<le> bit_cnt b"
  shows "\<exists>r b'. bitmap_scan_and_flip b start cnt v = Some (r, b') \<and> bitmap_wf b' \<and> bit_cnt b' = bit_cnt b \<and>
    (if r = BITMAP_ERROR then no_run (bits_of b) start cnt v \<and> b' = b
     else first_run (bits_of b) start cnt v r \<and> bits_of b' = set_range (bits_of b) r cnt (\<not> v))"
proof -
  obtain r where r: "bitmap_scan b start cnt v = Some r"
    "if r = BITMAP_ERROR then no_run (bits_of b) start cnt v else first_run (bits_of b) start cnt v r"
    using bitmap_scan_spec [OF assms] by blast
  show ?thesis
  proof (cases "r = BITMAP_ERROR")
    case True
    with r assms show ?thesis by (simp add: bitmap_scan_and_flip_def)
  next
    case False
    with r(2) have "r + cnt \<le> bit_cnt b" by (simp add: first_run_def)
    from bitmap_set_multiple_spec [OF assms(1) this, of "\<not> v"] r False show ?thesis
      by (auto simp: bitmap_scan_and_flip_def)
  qed
qed

subsection \<open>Creation\<close>

lemma bitmap_set_all_spec:
  assumes "bitmap_wf b"
  shows "\<exists>b'. bitmap_set_all b v = Some b' \<and> bitmap_wf b' \<and> bit_cnt b' = bit_cnt b \<and>
    bits_of b' = replicate (bit_cnt b) v"
proof -
  have "set_range (bits_of b) 0 (bit_cnt b) v = replicate (bit_cnt b) v"
    by (rule nth_equalityI) auto
  with bitmap_set_multiple_spec [OF assms, of 0 "bit_cnt b" v] show ?thesis
    by (simp add: bitmap_set_all_def bitmap_size_def)
qed

lemma bitmap_create_in_buf_spec:
  assumes "n < 2 ^ 32 - 32" and "length block = elem_cnt n" and "bitmap_buf_size n \<le> block_size"
  shows "\<exists>b. bitmap_create_in_buf n block block_size = Some b \<and> bitmap_wf b \<and> bits_of b = replicate n False"
  using bitmap_set_all_spec [of "\<lparr>bit_cnt = n, bits = block\<rparr>" False] assms
  by (auto simp: bitmap_create_in_buf_def bitmap_wf_def)

section \<open>Bitmaps as allocators of ranges\<close>

definition used_bits :: "bool list \<Rightarrow> nat set" where
  "used_bits xs = {i. i < length xs \<and> xs ! i}"

lemma used_bits_set_range:
  "start + cnt \<le> length xs \<Longrightarrow> used_bits (set_range xs start cnt True) = used_bits xs \<union> {start..<start + cnt}"
  "start + cnt \<le> length xs \<Longrightarrow> used_bits (set_range xs start cnt False) = used_bits xs - {start..<start + cnt}"
  by (auto simp: used_bits_def split: if_splits)

lemma all_in_range_used:
  assumes "start + cnt \<le> length xs"
  shows "all_in_range xs start cnt True \<longleftrightarrow> {start..<start + cnt} \<subseteq> used_bits xs"
    and "all_in_range xs start cnt False \<longleftrightarrow> {start..<start + cnt} \<inter> used_bits xs = {}"
proof -
  have *: "(\<forall>i<cnt. P (start + i)) \<longleftrightarrow> (\<forall>j\<in>{start..<start + cnt}. P j)" for P
  proof
    assume P: "\<forall>i<cnt. P (start + i)"
    have "P j" if "j \<in> {start..<start + cnt}" for j
      using P [rule_format, of "j - start"] that by auto
    then show "\<forall>j\<in>{start..<start + cnt}. P j" by blast
  qed simp
  have "all_in_range xs start cnt True \<longleftrightarrow> (\<forall>j\<in>{start..<start + cnt}. xs ! j)"
    and "all_in_range xs start cnt False \<longleftrightarrow> (\<forall>j\<in>{start..<start + cnt}. \<not> xs ! j)"
    using * [of "\<lambda>j. xs ! j"] * [of "\<lambda>j. \<not> xs ! j"] by (simp_all only: all_in_range_def simp_thms)
  then show "all_in_range xs start cnt True \<longleftrightarrow> {start..<start + cnt} \<subseteq> used_bits xs"
    and "all_in_range xs start cnt False \<longleftrightarrow> {start..<start + cnt} \<inter> used_bits xs = {}"
    using assms by (fastforce simp: used_bits_def)+
qed

lemma used_bits_replicate [simp]: "used_bits (replicate n False) = {}"
  by (auto simp: used_bits_def)

text \<open>
  What the page allocator, the free map of the file system and the stack slots
  of a process rely on: an array of bits that can be searched for a free range,
  tested and cleared.
\<close>

locale bit_array =
  fixes wf :: "'b \<Rightarrow> bool" and arr :: "'b \<Rightarrow> bool list"
    and scan_and_flip :: "'b \<Rightarrow> nat \<Rightarrow> nat \<Rightarrow> bool \<Rightarrow> (nat \<times> 'b) option"
    and set_multiple :: "'b \<Rightarrow> nat \<Rightarrow> nat \<Rightarrow> bool \<Rightarrow> 'b option"
    and all_true :: "'b \<Rightarrow> nat \<Rightarrow> nat \<Rightarrow> bool option" and error :: nat
  assumes scan_and_flip_law: "wf b \<Longrightarrow> start \<le> length (arr b) \<Longrightarrow>
      \<exists>r b'. scan_and_flip b start cnt v = Some (r, b') \<and> wf b' \<and> length (arr b') = length (arr b) \<and>
        (if r = error then no_run (arr b) start cnt v \<and> b' = b
         else first_run (arr b) start cnt v r \<and> arr b' = set_range (arr b) r cnt (\<not> v))"
    and set_multiple_law: "wf b \<Longrightarrow> start + cnt \<le> length (arr b) \<Longrightarrow>
      \<exists>b'. set_multiple b start cnt v = Some b' \<and> wf b' \<and> arr b' = set_range (arr b) start cnt v"
    and all_true_law: "wf b \<Longrightarrow> start + cnt \<le> length (arr b) \<Longrightarrow>
      all_true b start cnt = Some (all_in_range (arr b) start cnt True)"
begin

lemma allocate:
  assumes "wf b"
  shows "\<exists>r b'. scan_and_flip b 0 cnt False = Some (r, b') \<and> wf b' \<and> length (arr b') = length (arr b) \<and>
    (if r = error then no_run (arr b) 0 cnt False \<and> b' = b
     else r + cnt \<le> length (arr b) \<and> {r..<r + cnt} \<inter> used_bits (arr b) = {} \<and>
       used_bits (arr b') = used_bits (arr b) \<union> {r..<r + cnt})"
proof -
  obtain r b' where r: "scan_and_flip b 0 cnt False = Some (r, b')" "wf b'" "length (arr b') = length (arr b)"
    "if r = error then no_run (arr b) 0 cnt False \<and> b' = b
     else first_run (arr b) 0 cnt False r \<and> arr b' = set_range (arr b) r cnt True"
    using scan_and_flip_law [OF assms, of 0 cnt False] by auto
  then show ?thesis
    using all_in_range_used(2) [of r cnt "arr b"] used_bits_set_range(1) [of r cnt "arr b"]
    by (auto simp: first_run_def split: if_splits)
qed

lemma release:
  assumes "wf b" and "{r..<r + cnt} \<subseteq> used_bits (arr b)" and "r + cnt \<le> length (arr b)"
  shows "\<exists>b'. all_true b r cnt = Some True \<and> set_multiple b r cnt False = Some b' \<and> wf b' \<and>
    length (arr b') = length (arr b) \<and> used_bits (arr b') = used_bits (arr b) - {r..<r + cnt}"
  using set_multiple_law [OF assms(1,3), of False] all_true_law [OF assms(1,3)] assms
    all_in_range_used(1) [OF assms(3)] used_bits_set_range(2) [OF assms(3)]
  by auto

lemma double_release_detected:
  assumes "wf b" and "\<not> {r..<r + cnt} \<subseteq> used_bits (arr b)" and "r + cnt \<le> length (arr b)"
  shows "all_true b r cnt = Some False"
  using all_true_law [OF assms(1,3)] all_in_range_used(1) [OF assms(3)] assms(2) by simp

text \<open>Allocation succeeds whenever some range of the asked length is free.\<close>

lemma allocate_succeeds:
  assumes "wf b" and "i + cnt \<le> length (arr b)" and "{i..<i + cnt} \<inter> used_bits (arr b) = {}"
  shows "\<exists>r b'. scan_and_flip b 0 cnt False = Some (r, b') \<and> r \<noteq> error"
  using allocate [OF assms(1), of cnt] assms(2,3) all_in_range_used(2) [OF assms(2)]
  unfolding no_run_def by (metis zero_le)

end

interpretation bm: bit_array bitmap_wf bits_of bitmap_scan_and_flip bitmap_set_multiple bitmap_all BITMAP_ERROR
proof
  fix b start cnt v assume "bitmap_wf b" "start \<le> length (bits_of b)"
  then show "\<exists>r b'. bitmap_scan_and_flip b start cnt v = Some (r, b') \<and> bitmap_wf b' \<and>
      length (bits_of b') = length (bits_of b) \<and>
      (if r = BITMAP_ERROR then no_run (bits_of b) start cnt v \<and> b' = b
       else first_run (bits_of b) start cnt v r \<and> bits_of b' = set_range (bits_of b) r cnt (\<not> v))"
    using bitmap_scan_and_flip_spec by simp
next
  fix b start cnt v assume "bitmap_wf b" "start + cnt \<le> length (bits_of b)"
  then show "\<exists>b'. bitmap_set_multiple b start cnt v = Some b' \<and> bitmap_wf b' \<and>
      bits_of b' = set_range (bits_of b) start cnt v"
    using bitmap_set_multiple_spec [of b start cnt v] by auto
next
  fix b start cnt assume "bitmap_wf b" "start + cnt \<le> length (bits_of b)"
  then show "bitmap_all b start cnt = Some (all_in_range (bits_of b) start cnt True)"
    using bitmap_contains_spec [of b start cnt False] by (simp add: bitmap_all_def)
qed

section \<open>Properties\<close>

text \<open>
  C7. \<^verbatim>\<open>bitmap_scan_and_flip\<close> on a well-formed bitmap, asked for at least one bit, returns, and finds the first
  group: if it returns an index, the \<open>cnt\<close> bits there had value \<open>v\<close>, no earlier
  position at or after \<open>start\<close> has such a group, exactly those bits are flipped
  and every other bit is kept; it returns \<^verbatim>\<open>BITMAP_ERROR\<close> only when there is no
  such group, and then changes nothing. (Asked for no bits at all, the code returns
  \<open>start\<close>, and its comment says 0.)
\<close>

theorem bitmap_scan_and_flip_correct:
  assumes "bitmap_wf b" and "start \<le> bit_cnt b" and "0 < cnt"
  shows "\<exists>r b'. bitmap_scan_and_flip b start cnt v = Some (r, b') \<and> bitmap_wf b' \<and>
    (if r = BITMAP_ERROR
     then b' = b \<and> (\<forall>i. start \<le> i \<and> i + cnt \<le> bit_cnt b \<longrightarrow> (\<exists>j<cnt. bits_of b ! (i + j) \<noteq> v))
     else start \<le> r \<and> r + cnt \<le> bit_cnt b \<and> (\<forall>j<cnt. bits_of b ! (r + j) = v) \<and>
       (\<forall>k. start \<le> k \<and> k < r \<longrightarrow> (\<exists>j<cnt. bits_of b ! (k + j) \<noteq> v)) \<and>
       (\<forall>i<bit_cnt b. bits_of b' ! i = (if r \<le> i \<and> i < r + cnt then \<not> v else bits_of b ! i)))"
proof -
  obtain r b' where r: "bitmap_scan_and_flip b start cnt v = Some (r, b')" "bitmap_wf b'"
    "if r = BITMAP_ERROR then no_run (bits_of b) start cnt v \<and> b' = b
     else first_run (bits_of b) start cnt v r \<and> bits_of b' = set_range (bits_of b) r cnt (\<not> v)"
    using bitmap_scan_and_flip_spec [OF assms(1,2)] by blast
  have "(if r = BITMAP_ERROR
     then b' = b \<and> (\<forall>i. start \<le> i \<and> i + cnt \<le> bit_cnt b \<longrightarrow> (\<exists>j<cnt. bits_of b ! (i + j) \<noteq> v))
     else start \<le> r \<and> r + cnt \<le> bit_cnt b \<and> (\<forall>j<cnt. bits_of b ! (r + j) = v) \<and>
       (\<forall>k. start \<le> k \<and> k < r \<longrightarrow> (\<exists>j<cnt. bits_of b ! (k + j) \<noteq> v)) \<and>
       (\<forall>i<bit_cnt b. bits_of b' ! i = (if r \<le> i \<and> i < r + cnt then \<not> v else bits_of b ! i)))"
    using r(3) by (simp add: no_run_def first_run_def all_in_range_def del: nth_bits_of split: if_splits)
  with r(1,2) show ?thesis by blast
qed

theorem bitmap_scan_and_flip_correct_witness:
  "\<exists>r b'. bitmap_scan_and_flip \<lparr>bit_cnt = 6, bits = [5]\<rparr> 0 2 False = Some (r, b') \<and> bitmap_wf b'"
  using bitmap_scan_and_flip_correct [of "\<lparr>bit_cnt = 6, bits = [5]\<rparr>" 0 2 False]
  by (auto simp: bitmap_wf_def elem_cnt_def)

text \<open>
  C8. Setting bit \<open>i\<close> of a well-formed bitmap returns a well-formed bitmap in which
  testing bit \<open>i\<close> gives the value set and testing any other bit gives what it
  gave before; setting or testing a bit beyond the end is an assertion failure.
\<close>

theorem bitmap_test_set:
  assumes "bitmap_wf b"
  shows "if i < bit_cnt b
    then \<exists>b'. bitmap_set b i v = Some b' \<and> bitmap_wf b' \<and> bit_cnt b' = bit_cnt b \<and>
      (\<forall>j<bit_cnt b. bitmap_test b' j = (if j = i then Some v else bitmap_test b j))
    else bitmap_set b i v = None \<and> bitmap_test b i = None"
proof (cases "i < bit_cnt b")
  case True
  from bitmap_set_spec [OF assms this, of v] assms True show ?thesis
    by (auto simp: nth_list_update simp del: nth_bits_of)
qed (simp add: bitmap_set_def bitmap_test_def)

theorem bitmap_test_set_witness:
  "\<exists>b'. bitmap_set \<lparr>bit_cnt = 40, bits = [5, 0]\<rparr> 33 True = Some b' \<and> bitmap_test b' 33 = Some True"
proof -
  have "bitmap_wf \<lparr>bit_cnt = 40, bits = [5, 0]\<rparr>"
    by (simp add: bitmap_wf_def elem_cnt_def)
  from bitmap_test_set [OF this, of 33 True] obtain b' where
    "bitmap_set \<lparr>bit_cnt = 40, bits = [5, 0]\<rparr> 33 True = Some b'"
    "\<forall>j<40. bitmap_test b' j = (if j = 33 then Some True else bitmap_test \<lparr>bit_cnt = 40, bits = [5, 0]\<rparr> j)"
    by auto
  then show ?thesis by simp
qed

text \<open>The comment of \<^verbatim>\<open>bitmap_scan_and_flip\<close> promises 0 for an empty group; it returns \<open>start\<close>.\<close>

lemma bitmap_scan_and_flip_empty:
  assumes "bitmap_wf b" and "start \<le> bit_cnt b"
  shows "\<exists>b'. bitmap_scan_and_flip b start 0 v = Some (start, b')"
proof -
  have "bitmap_contains b start 0 (\<not> v) = Some False"
    using bitmap_contains_spec [of b start 0 "\<not> v"] assms by (simp add: all_in_range_def)
  then have "bitmap_scan b start 0 v = Some start"
    using assms by (simp add: bitmap_scan_def scan_loop.simps [of b start])
  then show ?thesis
    using bitmap_set_multiple_spec [of b start 0 "\<not> v"] assms
    by (auto simp: bitmap_scan_and_flip_def)
qed

end
