(* ===== verification/Threads.thy ===== *)
theory Threads
  imports Pintos_Prelude
begin

text \<open>
  Threads and the scheduler of \<^verbatim>\<open>threads/thread.c\<close>, with the timer interrupt of
  \<^verbatim>\<open>devices/timer.c\<close> and the part of \<^verbatim>\<open>threads/interrupt.c\<close> that preempts.

  A thread is known by the address of its page, as in the code, where
  \<^verbatim>\<open>struct thread *\<close> is that address. The kernel lists that link threads through
  \<^verbatim>\<open>elem\<close> (the ready list, the waiters of semaphores and of condition variables,
  the sleepers) are the sequences \<open>queues k q\<close>, which the operations of
  \<^verbatim>\<open>lib/kernel/list.c\<close> are shown to implement in the theories on lists. The member
  \<open>elem_in\<close> records into which list \<^verbatim>\<open>elem\<close> is linked at the moment: linking an
  element that is in a list, or unlinking one that is in none, destroys the list
  structure, so those have no value (\<^const>\<open>None\<close>), like an assertion failure.
\<close>

section \<open>Data\<close>

datatype thread_status = THREAD_RUNNING | THREAD_READY | THREAD_BLOCKED | THREAD_DYING | THREAD_ZOMBIE

datatype sched_policy = SCHED_FIFO | SCHED_PRIO | SCHED_FAIR | SCHED_MLFQS

datatype sema_id = Sema nat | LockSema nat

datatype queue_id = ReadyQ | SemaQ sema_id | CondQ nat | SleepQ

record thread =
  tid :: int
  status :: thread_status
  wake_up :: int
  donated_for :: "nat option"
  lock_queue :: "nat list"
  b_pri :: int
  e_pri :: int
  queue :: "queue_id option"
  elem_in :: "queue_id option"
  pcb :: "nat option"
  magic :: bool

record lock =
  holder :: "ptr option"
  lock_state :: int
  lock_pri :: int

record kernel =
  threads :: "ptr \<Rightarrow> thread"
  locks :: "nat \<Rightarrow> lock"
  sema_value :: "sema_id \<Rightarrow> nat"
  queues :: "queue_id \<Rightarrow> ptr list"
  all_list :: "ptr list"
  running :: ptr
  idle_thread :: "ptr option"
  initial_thread :: ptr
  thread_ticks :: nat
  idle_ticks :: nat
  kernel_ticks :: nat
  user_ticks :: nat
  ticks :: int
  next_tid :: int
  active_sched_policy :: sched_policy
  in_external_intr :: bool
  yield_on_return :: bool

text \<open>Conversion to \<^verbatim>\<open>int8_t\<close>.\<close>

definition int8 :: "int \<Rightarrow> int" where
  "int8 x = (x + 128) mod 256 - 128"

abbreviation (input) "PRI_MIN \<equiv> 0 :: int"
abbreviation (input) "PRI_DEFAULT \<equiv> 31 :: int"
abbreviation (input) "PRI_MAX \<equiv> 63 :: int"
abbreviation (input) "TIME_SLICE \<equiv> 4 :: nat"

definition upd_thread :: "ptr \<Rightarrow> (thread \<Rightarrow> thread) \<Rightarrow> kernel \<Rightarrow> kernel" where
  "upd_thread t f k = k\<lparr>threads := (threads k)(t := f (threads k t))\<rparr>"

definition upd_queue :: "queue_id \<Rightarrow> ptr list \<Rightarrow> kernel \<Rightarrow> kernel" where
  "upd_queue q xs k = k\<lparr>queues := (queues k)(q := xs)\<rparr>"

section \<open>The lists of threads\<close>

definition grater_thread_pri :: "kernel \<Rightarrow> ptr \<Rightarrow> ptr \<Rightarrow> bool" where
  "grater_thread_pri k a b \<longleftrightarrow> e_pri (threads k a) > e_pri (threads k b)"

definition thread_before :: "(ptr \<Rightarrow> ptr \<Rightarrow> bool) \<Rightarrow> ptr \<Rightarrow> ptr \<Rightarrow> bool" where
  "thread_before aux a b \<longleftrightarrow> aux a b"

definition less_sleep :: "kernel \<Rightarrow> ptr \<Rightarrow> ptr \<Rightarrow> bool" where
  "less_sleep k a b \<longleftrightarrow> wake_up (threads k a) \<le> wake_up (threads k b)"

definition wake_up_before :: "(ptr \<Rightarrow> ptr \<Rightarrow> bool) \<Rightarrow> ptr \<Rightarrow> ptr \<Rightarrow> bool" where
  "wake_up_before aux a b \<longleftrightarrow> aux a b"

text \<open>
  The lists of threads are sequences here, and a sequence has no state for a list whose links are destroyed. The member
  \<open>elem_in\<close>, which the code does not have, records the list that the one \<^verbatim>\<open>elem\<close> of a thread is linked into, and linking
  it a second time is \<^const>\<open>None\<close>: there a run of the model ends, while the code goes on with broken
  lists. That the second insertion does destroy the first list is proved on the linked lists themselves.
\<close>

definition link_elem :: "queue_id \<Rightarrow> ptr list \<Rightarrow> ptr \<Rightarrow> kernel \<Rightarrow> kernel option" where
  "link_elem q xs t k = do {
     ASSERT (elem_in (threads k t) = None);
     Some (upd_queue q xs (upd_thread t (elem_in_update (\<lambda>_. Some q)) k))
   }"

definition elem_push_back :: "queue_id \<Rightarrow> ptr \<Rightarrow> kernel \<Rightarrow> kernel option" where
  "elem_push_back q t k = link_elem q (queues k q @ [t]) t k"

definition elem_insert_ordered :: "queue_id \<Rightarrow> (ptr \<Rightarrow> ptr \<Rightarrow> bool) \<Rightarrow> ptr \<Rightarrow> kernel \<Rightarrow> kernel option" where
  "elem_insert_ordered q lessf t k = link_elem q (insert_ordered lessf t (queues k q)) t k"

definition elem_remove :: "ptr \<Rightarrow> kernel \<Rightarrow> kernel option" where
  "elem_remove t k = do {
     q \<leftarrow> elem_in (threads k t);
     Some (upd_queue q (remove1 t (queues k q)) (upd_thread t (elem_in_update (\<lambda>_. None)) k))
   }"

definition elem_pop_front :: "queue_id \<Rightarrow> kernel \<Rightarrow> (ptr \<times> kernel) option" where
  "elem_pop_front q k = (case queues k q of
      [] \<Rightarrow> None
    | t # ts \<Rightarrow> Some (t, upd_queue q ts (upd_thread t (elem_in_update (\<lambda>_. None)) k)))"

section \<open>The scheduler\<close>

definition is_thread :: "ptr \<Rightarrow> kernel \<Rightarrow> bool" where
  "is_thread t k \<longleftrightarrow> t \<noteq> NULL \<and> magic (threads k t)"

definition running_thread :: "kernel \<Rightarrow> ptr" where
  "running_thread k = running k"

definition thread_current :: "kernel \<Rightarrow> ptr option" where
  "thread_current k = do {
     let t = running_thread k;
     ASSERT (is_thread t k);
     ASSERT (status (threads k t) = THREAD_RUNNING);
     Some t
   }"

definition thread_enqueue :: "ptr \<Rightarrow> kernel \<Rightarrow> kernel option" where
  "thread_enqueue t k = do {
     ASSERT (is_thread t k);
     let k = upd_thread t (queue_update (\<lambda>_. Some ReadyQ)) k;
     case active_sched_policy k of
       SCHED_FIFO \<Rightarrow> elem_push_back ReadyQ t k
     | SCHED_PRIO \<Rightarrow> elem_insert_ordered ReadyQ (thread_before (grater_thread_pri k)) t k
     | _ \<Rightarrow> None
   }"

definition thread_schedule_fifo :: "kernel \<Rightarrow> (ptr option \<times> kernel) option" where
  "thread_schedule_fifo k =
     (if queues k ReadyQ \<noteq> [] then map_option (\<lambda>(t, k). (Some t, k)) (elem_pop_front ReadyQ k)
      else Some (idle_thread k, k))"

definition thread_schedule_prio :: "kernel \<Rightarrow> (ptr option \<times> kernel) option" where
  "thread_schedule_prio k =
     (if queues k ReadyQ \<noteq> [] then map_option (\<lambda>(t, k). (Some t, k)) (elem_pop_front ReadyQ k)
      else Some (idle_thread k, k))"

text \<open>The other entries of \<^verbatim>\<open>scheduler_jump_table\<close> panic.\<close>

definition next_thread_to_run :: "kernel \<Rightarrow> (ptr option \<times> kernel) option" where
  "next_thread_to_run k = (case active_sched_policy k of
      SCHED_FIFO \<Rightarrow> thread_schedule_fifo k
    | SCHED_PRIO \<Rightarrow> thread_schedule_prio k
    | _ \<Rightarrow> None)"

text \<open>A freed page is filled with \<^verbatim>\<open>0xcc\<close> bytes; \<^verbatim>\<open>magic\<close> is gone and the priorities read -52.\<close>

definition free_thread_page :: "thread \<Rightarrow> thread" where
  "free_thread_page th = th\<lparr>magic := False, b_pri := int8 0xcc, e_pri := int8 0xcc\<rparr>"

definition thread_switch_tail :: "ptr option \<Rightarrow> kernel \<Rightarrow> kernel option" where
  "thread_switch_tail prev k = do {
     let cur = running_thread k;
     let k = upd_thread cur (status_update (\<lambda>_. THREAD_RUNNING)) k;
     let k = k\<lparr>thread_ticks := 0\<rparr>;
     case prev of
       None \<Rightarrow> Some k
     | Some p \<Rightarrow>
         if status (threads k p) = THREAD_DYING \<and> p \<noteq> initial_thread k then do {
           ASSERT (p \<noteq> cur);
           Some (upd_thread p free_thread_page k)
         } else Some k
   }"

definition schedule :: "kernel \<Rightarrow> kernel option" where
  "schedule k = do {
     let cur = running_thread k;
     (nxt, k) \<leftarrow> next_thread_to_run k;
     ASSERT (status (threads k cur) \<noteq> THREAD_RUNNING);
     n \<leftarrow> nxt;
     ASSERT (is_thread n k);
     thread_switch_tail (if cur \<noteq> n then Some cur else None) (k\<lparr>running := n\<rparr>)
   }"

definition thread_block :: "kernel \<Rightarrow> kernel option" where
  "thread_block k = do {
     ASSERT (\<not> in_external_intr k);
     t \<leftarrow> thread_current k;
     schedule (upd_thread t (status_update (\<lambda>_. THREAD_BLOCKED)) k)
   }"

definition thread_unblock :: "ptr \<Rightarrow> kernel \<Rightarrow> kernel option" where
  "thread_unblock t k = do {
     ASSERT (is_thread t k);
     ASSERT (status (threads k t) = THREAD_BLOCKED);
     k \<leftarrow> thread_enqueue t k;
     Some (upd_thread t (status_update (\<lambda>_. THREAD_READY)) k)
   }"

definition thread_yield :: "kernel \<Rightarrow> kernel option" where
  "thread_yield k = do {
     cur \<leftarrow> thread_current k;
     ASSERT (\<not> in_external_intr k);
     k \<leftarrow> (if idle_thread k \<noteq> Some cur then thread_enqueue cur k else Some k);
     schedule (upd_thread cur (status_update (\<lambda>_. THREAD_READY)) k)
   }"

definition all_list_remove :: "ptr \<Rightarrow> kernel \<Rightarrow> kernel option" where
  "all_list_remove t k = do {
     ASSERT (t \<in> set (all_list k));
     Some (k\<lparr>all_list := remove1 t (all_list k)\<rparr>)
   }"

definition thread_exit :: "kernel \<Rightarrow> kernel option" where
  "thread_exit k = do {
     ASSERT (\<not> in_external_intr k);
     t \<leftarrow> thread_current k;
     k \<leftarrow> all_list_remove t k;
     schedule (upd_thread t (status_update (\<lambda>_. THREAD_DYING)) k)
   }"

definition thread_zombie :: "ptr \<Rightarrow> kernel \<Rightarrow> kernel option" where
  "thread_zombie t k = do {
     ASSERT (\<not> in_external_intr k);
     k \<leftarrow> all_list_remove t k;
     schedule (upd_thread t (status_update (\<lambda>_. THREAD_ZOMBIE)) k)
   }"

definition thread_get_priority :: "kernel \<Rightarrow> int option" where
  "thread_get_priority k = map_option (\<lambda>t. e_pri (threads k t)) (thread_current k)"

text \<open>The result says whether \<^verbatim>\<open>thread_yield\<close> follows.\<close>

definition thread_set_priority :: "int \<Rightarrow> kernel \<Rightarrow> (kernel \<times> bool) option" where
  "thread_set_priority new_priority k = do {
     t \<leftarrow> thread_current k;
     if new_priority = b_pri (threads k t) then Some (k, False)
     else do {
       let raise = new_priority > e_pri (threads k t);
       let flag = (\<not> raise \<and> lock_queue (threads k t) = []);
       let k = (if raise \<or> flag then upd_thread t (e_pri_update (\<lambda>_. int8 new_priority)) k else k);
       Some (upd_thread t (b_pri_update (\<lambda>_. int8 new_priority)) k, flag)
     }
   }"

definition init_thread :: "ptr \<Rightarrow> int \<Rightarrow> kernel \<Rightarrow> kernel option" where
  "init_thread t priority k = do {
     ASSERT (t \<noteq> NULL);
     ASSERT (PRI_MIN \<le> priority \<and> priority \<le> PRI_MAX);
     let th = \<lparr>tid = 0, status = THREAD_BLOCKED, wake_up = 0, donated_for = None, lock_queue = [],
       b_pri = int8 priority, e_pri = int8 priority, queue = None, elem_in = None, pcb = None, magic = True\<rparr>;
     let k = upd_thread t (\<lambda>_. th) k;
     Some (k\<lparr>all_list := all_list k @ [t]\<rparr>)
   }"

section \<open>The timer\<close>

definition thread_tick :: "kernel \<Rightarrow> kernel option" where
  "thread_tick k = do {
     t \<leftarrow> thread_current k;
     let k = (if idle_thread k = Some t then k\<lparr>idle_ticks := idle_ticks k + 1\<rparr>
              else if pcb (threads k t) \<noteq> None then k\<lparr>user_ticks := user_ticks k + 1\<rparr>
              else k\<lparr>kernel_ticks := kernel_ticks k + 1\<rparr>);
     let k = k\<lparr>thread_ticks := thread_ticks k + 1\<rparr>;
     Some (if thread_ticks k \<ge> TIME_SLICE then k\<lparr>yield_on_return := True\<rparr> else k)
   }"

partial_function (option) wake_sleepers :: "kernel \<Rightarrow> kernel option" where
  "wake_sleepers k =
     (if queues k SleepQ \<noteq> [] then
        if wake_up (threads k (hd (queues k SleepQ))) \<le> ticks k then do {
          (t, k) \<leftarrow> elem_pop_front SleepQ k;
          k \<leftarrow> thread_unblock t k;
          wake_sleepers k
        } else Some k
      else Some k)"

definition timer_interrupt :: "kernel \<Rightarrow> kernel option" where
  "timer_interrupt k = do {
     k \<leftarrow> wake_sleepers (k\<lparr>ticks := ticks k + 1\<rparr>);
     thread_tick k
   }"

text \<open>\<^verbatim>\<open>intr_handler\<close> for an external interrupt with the given handler.\<close>

definition intr_handler_external :: "(kernel \<Rightarrow> kernel option) \<Rightarrow> kernel \<Rightarrow> kernel option" where
  "intr_handler_external handler k = do {
     ASSERT (\<not> in_external_intr k);
     k \<leftarrow> handler (k\<lparr>in_external_intr := True, yield_on_return := False\<rparr>);
     ASSERT (in_external_intr k);
     let k = k\<lparr>in_external_intr := False\<rparr>;
     if yield_on_return k then thread_yield k else Some k
   }"

definition timer_sleep :: "int \<Rightarrow> kernel \<Rightarrow> kernel option" where
  "timer_sleep n k = do {
     t \<leftarrow> thread_current k;
     let k = upd_thread t (wake_up_update (\<lambda>_. ticks k + n)) k;
     k \<leftarrow> elem_insert_ordered SleepQ (wake_up_before (less_sleep k)) t k;
     let k = upd_thread t (queue_update (\<lambda>_. Some SleepQ)) k;
     thread_block k
   }"

end
