(* ===== verification/Synch.thy ===== *)
theory Synch
  imports Threads
begin

text \<open>
  Semaphores, locks with priority donation, condition variables and
  readers-writers locks of \<^verbatim>\<open>threads/synch.c\<close>.

  Each definition is one stretch of code that runs with interrupts off, or that
  no other thread can observe, except that \<open>cond_wait_enter\<close>, \<open>cond_signal\<close> and \<open>cond_broadcast_round\<close> also take a
  stretch in which the code has interrupts on as one; where a function blocks or enables interrupts in
  the middle it is cut there, and the rest is a \<open>frame\<close> left for the thread to
  run when it is scheduled again.
\<close>

section \<open>Semaphores\<close>

definition sema_init :: "sema_id \<Rightarrow> nat \<Rightarrow> kernel \<Rightarrow> kernel" where
  "sema_init s n k = upd_queue (SemaQ s) [] (k\<lparr>sema_value := (sema_value k)(s := n)\<rparr>)"

text \<open>
  One round of the loop of \<^verbatim>\<open>sema_down\<close>: either the value was positive and has been
  decremented (the result is \<open>True\<close>), or the thread has been put among the
  waiters and blocked, to try again when it runs next.
\<close>

definition sema_down_round :: "sema_id \<Rightarrow> kernel \<Rightarrow> (kernel \<times> bool) option" where
  "sema_down_round s k = do {
     ASSERT (\<not> in_external_intr k);
     if sema_value k s = 0 then do {
       t \<leftarrow> thread_current k;
       k \<leftarrow> elem_insert_ordered (SemaQ s) (thread_before (grater_thread_pri k)) t k;
       let k = upd_thread t (queue_update (\<lambda>_. Some (SemaQ s))) k;
       k \<leftarrow> thread_block k;
       Some (k, False)
     } else Some (k\<lparr>sema_value := (sema_value k)(s := sema_value k s - 1)\<rparr>, True)
   }"

definition sema_try_down :: "sema_id \<Rightarrow> kernel \<Rightarrow> kernel \<times> bool" where
  "sema_try_down s k =
     (if sema_value k s > 0 then (k\<lparr>sema_value := (sema_value k)(s := sema_value k s - 1)\<rparr>, True)
      else (k, False))"

text \<open>The part of \<^verbatim>\<open>sema_up\<close> with interrupts off; the result is the thread woken up, if any.\<close>

definition sema_up_wake :: "sema_id \<Rightarrow> kernel \<Rightarrow> (kernel \<times> ptr option) option" where
  "sema_up_wake s k = do {
     (k, t) \<leftarrow> (if queues k (SemaQ s) \<noteq> [] then do {
         (t, k) \<leftarrow> elem_pop_front (SemaQ s) k;
         k \<leftarrow> thread_unblock t k;
         Some (k, Some t)
       } else Some (k, None));
     Some (k\<lparr>sema_value := (sema_value k)(s := (sema_value k s + 1) mod 2 ^ 32)\<rparr>, t)
   }"

text \<open>The test at the end of \<^verbatim>\<open>sema_up\<close> and \<^verbatim>\<open>cond_signal\<close>.\<close>

definition yield_if_outranked :: "ptr \<Rightarrow> kernel \<Rightarrow> kernel option" where
  "yield_if_outranked t k =
     (if \<not> in_external_intr k then do {
        p \<leftarrow> thread_get_priority k;
        if e_pri (threads k t) > p then thread_yield k else Some k
      } else Some k)"

section \<open>Locks\<close>

definition upd_lock :: "nat \<Rightarrow> (lock \<Rightarrow> lock) \<Rightarrow> kernel \<Rightarrow> kernel" where
  "upd_lock l f k = k\<lparr>locks := (locks k)(l := f (locks k l))\<rparr>"

definition lock_init :: "nat \<Rightarrow> kernel \<Rightarrow> kernel" where
  "lock_init l k = sema_init (LockSema l) 1
     (upd_lock l (\<lambda>_. \<lparr>holder = None, lock_state = 1, lock_pri = 0\<rparr>) k)"

definition lock_held_by_current_thread :: "nat \<Rightarrow> kernel \<Rightarrow> bool option" where
  "lock_held_by_current_thread l k = map_option (\<lambda>t. holder (locks k l) = Some t) (thread_current k)"

definition lock_before :: "kernel \<Rightarrow> nat \<Rightarrow> nat \<Rightarrow> bool" where
  "lock_before k a b \<longleftrightarrow> lock_pri (locks k a) \<ge> lock_pri (locks k b)"

definition lock_queue_insert :: "nat \<Rightarrow> ptr \<Rightarrow> kernel \<Rightarrow> kernel" where
  "lock_queue_insert l t k = upd_thread t (lock_queue_update (insert_ordered (lock_before k) l)) k"

definition lock_queue_remove :: "nat \<Rightarrow> ptr \<Rightarrow> kernel \<Rightarrow> kernel option" where
  "lock_queue_remove l t k = do {
     ASSERT (l \<in> set (lock_queue (threads k t)));
     Some (upd_thread t (lock_queue_update (remove1 l)) k)
   }"

text \<open>
  The steps of the loop of \<^verbatim>\<open>donate_pri_acquire\<close>: raise the priority of the lock
  and move it in the queue of its holder, into which it is linked; raise the
  priority of the holder and move it in the list it waits in.
\<close>

definition donate_to_lock :: "nat \<Rightarrow> ptr \<Rightarrow> int \<Rightarrow> kernel \<Rightarrow> kernel option" where
  "donate_to_lock l d p k = do {
     let k = upd_lock l (lock_pri_update (\<lambda>_. p)) k;
     k \<leftarrow> lock_queue_remove l d k;
     Some (lock_queue_insert l d k)
   }"

definition donate_to_thread :: "ptr \<Rightarrow> int \<Rightarrow> kernel \<Rightarrow> kernel option" where
  "donate_to_thread d p k = do {
     let k = upd_thread d (e_pri_update (\<lambda>_. p)) k;
     case queue (threads k d) of
       None \<Rightarrow> Some k
     | Some q \<Rightarrow> do {
         k \<leftarrow> elem_remove d k;
         elem_insert_ordered q (thread_before (grater_thread_pri k)) d k
       }
   }"

partial_function (option) donate_loop :: "nat option \<Rightarrow> ptr option \<Rightarrow> ptr \<Rightarrow> kernel \<Rightarrow> kernel option" where
  "donate_loop lck donee donor k = (case lck of
      None \<Rightarrow> Some k
    | Some l \<Rightarrow> do {
        d \<leftarrow> donee;
        if lock_pri (locks k l) \<ge> e_pri (threads k donor) then Some k
        else do {
          k \<leftarrow> donate_to_lock l d (e_pri (threads k donor)) k;
          if e_pri (threads k donor) \<le> e_pri (threads k d) then Some k
          else do {
            k \<leftarrow> donate_to_thread d (e_pri (threads k donor)) k;
            (case donated_for (threads k d) of
               None \<Rightarrow> Some k
             | Some l' \<Rightarrow> donate_loop (Some l') (holder (locks k l')) d k)
          }
        }
      })"

definition donate_pri_acquire :: "ptr \<Rightarrow> nat \<Rightarrow> kernel \<Rightarrow> kernel option" where
  "donate_pri_acquire self l k = donate_loop (Some l) (holder (locks k l)) self k"

text \<open>\<^verbatim>\<open>lock_acquire\<close> up to its call of \<^verbatim>\<open>sema_down\<close>.\<close>

definition lock_acquire_enter :: "nat \<Rightarrow> kernel \<Rightarrow> kernel option" where
  "lock_acquire_enter l k = do {
     ASSERT (\<not> in_external_intr k);
     h \<leftarrow> lock_held_by_current_thread l k;
     ASSERT (\<not> h);
     t \<leftarrow> thread_current k;
     let k = upd_lock l (lock_state_update (\<lambda>s. int8 (s - 1))) k;
     let k = upd_thread t (donated_for_update (\<lambda>_. Some l)) k;
     if lock_state (locks k l) < 0 \<and> holder (locks k l) \<noteq> None
     then donate_pri_acquire t l k else Some k
   }"

text \<open>What \<^verbatim>\<open>lock_acquire\<close> and \<^verbatim>\<open>lock_try_acquire\<close> do once the semaphore is theirs.\<close>

definition lock_take :: "nat \<Rightarrow> ptr \<Rightarrow> kernel \<Rightarrow> kernel" where
  "lock_take l t k = lock_queue_insert l t
     (upd_lock l (\<lambda>lk. lk\<lparr>lock_pri := e_pri (threads k t), holder := Some t\<rparr>) k)"

definition lock_acquire_round :: "nat \<Rightarrow> kernel \<Rightarrow> (kernel \<times> bool) option" where
  "lock_acquire_round l k = do {
     let t = running_thread k;
     (k, got) \<leftarrow> sema_down_round (LockSema l) k;
     if got then Some (lock_take l t (upd_thread t (donated_for_update (\<lambda>_. None)) k), True)
     else Some (k, False)
   }"

definition lock_try_acquire :: "nat \<Rightarrow> kernel \<Rightarrow> (kernel \<times> bool) option" where
  "lock_try_acquire l k = do {
     h \<leftarrow> lock_held_by_current_thread l k;
     ASSERT (\<not> h);
     t \<leftarrow> thread_current k;
     let (k, success) = sema_try_down (LockSema l) k;
     Some (if success then lock_take l t (upd_lock l (lock_state_update (\<lambda>s. int8 (s - 1))) k) else k, success)
   }"

text \<open>\<^verbatim>\<open>lock_release\<close> up to its call of \<^verbatim>\<open>sema_up\<close>.\<close>

definition lock_release_leave :: "nat \<Rightarrow> kernel \<Rightarrow> kernel option" where
  "lock_release_leave l k = do {
     h \<leftarrow> lock_held_by_current_thread l k;
     ASSERT h;
     t \<leftarrow> thread_current k;
     let k = upd_lock l (\<lambda>lk. lk\<lparr>holder := None, lock_pri := 0\<rparr>) k;
     k \<leftarrow> lock_queue_remove l t k;
     let pri = (case lock_queue (threads k t) of
         [] \<Rightarrow> b_pri (threads k t) | l' # _ \<Rightarrow> lock_pri (locks k l'));
     let k = upd_thread t (e_pri_update (\<lambda>_. pri)) k;
     Some (upd_lock l (lock_state_update (\<lambda>s. int8 (s + 1))) k)
   }"

section \<open>Condition variables\<close>

definition cond_init :: "nat \<Rightarrow> kernel \<Rightarrow> kernel" where
  "cond_init c k = upd_queue (CondQ c) [] k"

text \<open>\<^verbatim>\<open>cond_wait\<close> up to its call of \<^verbatim>\<open>lock_release\<close>, and its part between the lock calls.\<close>

definition cond_wait_enter :: "nat \<Rightarrow> nat \<Rightarrow> kernel \<Rightarrow> kernel option" where
  "cond_wait_enter c l k = do {
     ASSERT (\<not> in_external_intr k);
     h \<leftarrow> lock_held_by_current_thread l k;
     ASSERT h;
     t \<leftarrow> thread_current k;
     elem_insert_ordered (CondQ c) (thread_before (grater_thread_pri k)) t k
   }"

definition cond_wait_block :: "nat \<Rightarrow> kernel \<Rightarrow> kernel option" where
  "cond_wait_block c k = do {
     t \<leftarrow> thread_current k;
     thread_block (upd_thread t (queue_update (\<lambda>_. Some (CondQ c))) k)
   }"

definition sort_waiters :: "nat \<Rightarrow> kernel \<Rightarrow> kernel" where
  "sort_waiters c k = upd_queue (CondQ c) (sort_key (\<lambda>t. - e_pri (threads k t)) (queues k (CondQ c))) k"

definition cond_pop :: "nat \<Rightarrow> kernel \<Rightarrow> (ptr \<times> kernel) option" where
  "cond_pop c k = do {
     (t, k) \<leftarrow> elem_pop_front (CondQ c) k;
     k \<leftarrow> thread_unblock t (upd_thread t (queue_update (\<lambda>_. None)) k);
     Some (t, k)
   }"

definition cond_signal :: "nat \<Rightarrow> nat \<Rightarrow> kernel \<Rightarrow> (kernel \<times> ptr option) option" where
  "cond_signal c l k = do {
     ASSERT (\<not> in_external_intr k);
     h \<leftarrow> lock_held_by_current_thread l k;
     ASSERT h;
     if queues k (CondQ c) \<noteq> [] then do {
       (t, k) \<leftarrow> cond_pop c (sort_waiters c k);
       Some (k, Some t)
     } else Some (k, None)
   }"

text \<open>One round of \<^verbatim>\<open>cond_broadcast\<close>: \<open>None\<close> when no thread is waiting, else the new flag.\<close>

definition cond_broadcast_round :: "nat \<Rightarrow> bool \<Rightarrow> kernel \<Rightarrow> (kernel \<times> bool option) option" where
  "cond_broadcast_round c flag k =
     (if queues k (CondQ c) \<noteq> [] then do {
        (t, k) \<leftarrow> cond_pop c k;
        p \<leftarrow> thread_get_priority k;
        Some (k, Some (if e_pri (threads k t) > p then True else flag))
      } else Some (k, None))"

end
