(* ===== verification/Kernel_Steps.thy ===== *)
theory Kernel_Steps
  imports Synch
begin

text \<open>
  The kernel as a transition system. A thread is running code of its own, or is
  inside kernel functions whose remaining parts are its \<open>frames\<close>, topmost first.
  A step runs the topmost frame of the running thread, starts a kernel function
  on behalf of a thread that is in none, or handles a timer interrupt. The
  interrupt can come between any two frames, except before one that the code
  enters with interrupts off.
\<close>

section \<open>Frames\<close>

datatype frame =
    SemaDownF nat
  | SemaUpF sema_id
  | YieldIfF ptr
  | YieldF
  | LockAcquireF nat
  | LockRoundF nat
  | LockReleaseF nat
  | CondWaitF nat nat
  | CondBlockF nat
  | CondSignalF nat nat
  | CondBroadcastF nat bool
  | AllocTidF ptr
  | UnblockF ptr
  | CreateYieldF int
  | RwEnterF nat bool
  | RwWokenF nat bool
  | RwLeaveF nat bool
  | IdleStartF nat
  | IdleF

fun intr_on :: "frame \<Rightarrow> bool" where
  "intr_on (SemaDownF s) = False"
| "intr_on (LockRoundF l) = False"
| "intr_on f = True"

definition tid_lock :: nat where "tid_lock = 0"

fun woken_frames :: "ptr option \<Rightarrow> frame list" where
  "woken_frames None = []"
| "woken_frames (Some t) = [YieldIfF t]"

text \<open>The body of \<^verbatim>\<open>allocate_tid\<close> between its lock calls, for the thread \<open>t\<close> that gets the identifier.\<close>

definition allocate_tid :: "ptr \<Rightarrow> kernel \<Rightarrow> kernel" where [simp]:
  "allocate_tid t k = upd_thread t (tid_update (\<lambda>_. next_tid k)) k\<lparr>next_tid := next_tid k + 1\<rparr>"

text \<open>The start of \<^verbatim>\<open>idle\<close>, and one round of its loop.\<close>

definition idle_start :: "kernel \<Rightarrow> kernel option" where [simp]:
  "idle_start k = do { t \<leftarrow> thread_current k; Some (k\<lparr>idle_thread := Some t\<rparr>) }"

definition idle_round :: "kernel \<Rightarrow> kernel option" where [simp]:
  "idle_round k = thread_block k"

text \<open>Running the topmost frame: the new state and the frames that replace it.\<close>

fun exec_frame :: "frame \<Rightarrow> kernel \<Rightarrow> (kernel \<times> frame list) option" where
  "exec_frame (SemaDownF s) k = do {
     (k, got) \<leftarrow> sema_down_round (Sema s) k;
     Some (k, if got then [] else [SemaDownF s])
   }"
| "exec_frame (SemaUpF s) k = do {
     (k, t) \<leftarrow> sema_up_wake s k;
     Some (k, woken_frames t)
   }"
| "exec_frame (YieldIfF t) k = do { k \<leftarrow> yield_if_outranked t k; Some (k, []) }"
| "exec_frame YieldF k = do { k \<leftarrow> thread_yield k; Some (k, []) }"
| "exec_frame (LockAcquireF l) k = do { k \<leftarrow> lock_acquire_enter l k; Some (k, [LockRoundF l]) }"
| "exec_frame (LockRoundF l) k = do {
     (k, got) \<leftarrow> lock_acquire_round l k;
     Some (k, if got then [] else [LockRoundF l])
   }"
| "exec_frame (LockReleaseF l) k = do { k \<leftarrow> lock_release_leave l k; Some (k, [SemaUpF (LockSema l)]) }"
| "exec_frame (CondWaitF c l) k = do {
     k \<leftarrow> cond_wait_enter c l k;
     Some (k, [LockReleaseF l, CondBlockF c, LockAcquireF l])
   }"
| "exec_frame (CondBlockF c) k = do { k \<leftarrow> cond_wait_block c k; Some (k, []) }"
| "exec_frame (CondSignalF c l) k = do {
     (k, t) \<leftarrow> cond_signal c l k;
     Some (k, woken_frames t)
   }"
| "exec_frame (CondBroadcastF c flag) k = do {
     (k, r) \<leftarrow> cond_broadcast_round c flag k;
     Some (k, case r of Some flag' \<Rightarrow> [CondBroadcastF c flag'] | None \<Rightarrow> if flag then [YieldF] else [])
   }"
| "exec_frame (AllocTidF t) k =
     Some (allocate_tid t k, [])"
| "exec_frame (UnblockF t) k = do { k \<leftarrow> thread_unblock t k; Some (k, []) }"
| "exec_frame (CreateYieldF p) k = do {
     q \<leftarrow> thread_get_priority k;
     k \<leftarrow> (if q < p then thread_yield k else Some k);
     Some (k, [])
   }"
| "exec_frame (IdleStartF s) k = do { k \<leftarrow> idle_start k; Some (k, [SemaUpF (Sema s), IdleF]) }"
| "exec_frame IdleF k = do { k \<leftarrow> idle_round k; Some (k, [IdleF]) }"
| "exec_frame (RwEnterF r b) k = None"
| "exec_frame (RwWokenF r b) k = None"
| "exec_frame (RwLeaveF r b) k = None"

section \<open>Readers-writers locks\<close>

record rw_lock =
  rw_guard :: nat
  rw_read :: nat
  rw_write :: nat
  AR :: int
  WR :: int
  AW :: int
  WW :: int

definition rw_lock_init :: "nat \<Rightarrow> nat \<Rightarrow> nat \<Rightarrow> rw_lock" where
  "rw_lock_init g r w = \<lparr>rw_guard = g, rw_read = r, rw_write = w, AR = 0, WR = 0, AW = 0, WW = 0\<rparr>"

definition rw_lock_acquire :: "(nat \<Rightarrow> rw_lock) \<Rightarrow> nat \<Rightarrow> bool \<Rightarrow> frame list" where
  "rw_lock_acquire rws r reader =
     [LockAcquireF (rw_guard (rws r)), RwEnterF r reader, LockReleaseF (rw_guard (rws r))]"

definition rw_lock_release :: "(nat \<Rightarrow> rw_lock) \<Rightarrow> nat \<Rightarrow> bool \<Rightarrow> frame list" where
  "rw_lock_release rws r reader =
     [LockAcquireF (rw_guard (rws r)), RwLeaveF r reader, LockReleaseF (rw_guard (rws r))]"

text \<open>
  The code between the two lock operations. It runs with the guard lock held;
  one round of the waiting loop is \<open>RwEnterF\<close>, the statement after \<^verbatim>\<open>cond_wait\<close> is
  \<open>RwWokenF\<close>.
\<close>

fun exec_rw :: "frame \<Rightarrow> (nat \<Rightarrow> rw_lock) \<Rightarrow> ((nat \<Rightarrow> rw_lock) \<times> frame list) option" where
  "exec_rw (RwEnterF r True) rws = (let w = rws r in
     if AW w + WW w > 0 then
       Some (rws(r := w\<lparr>WR := WR w + 1\<rparr>),
         [CondWaitF (rw_read w) (rw_guard w), RwWokenF r True, RwEnterF r True])
     else Some (rws(r := w\<lparr>AR := AR w + 1\<rparr>), []))"
| "exec_rw (RwEnterF r False) rws = (let w = rws r in
     if AR w + AW w > 0 then
       Some (rws(r := w\<lparr>WW := WW w + 1\<rparr>),
         [CondWaitF (rw_write w) (rw_guard w), RwWokenF r False, RwEnterF r False])
     else Some (rws(r := w\<lparr>AW := AW w + 1\<rparr>), []))"
| "exec_rw (RwWokenF r True) rws = Some (rws(r := (rws r)\<lparr>WR := WR (rws r) - 1\<rparr>), [])"
| "exec_rw (RwWokenF r False) rws = Some (rws(r := (rws r)\<lparr>WW := WW (rws r) - 1\<rparr>), [])"
| "exec_rw (RwLeaveF r True) rws = (let w = (rws r)\<lparr>AR := AR (rws r) - 1\<rparr> in
     Some (rws(r := w), if AR w = 0 \<and> WW w > 0 then [CondSignalF (rw_write w) (rw_guard w)] else []))"
| "exec_rw (RwLeaveF r False) rws = (let w = (rws r)\<lparr>AW := AW (rws r) - 1\<rparr> in
     Some (rws(r := w), if WW w > 0 then [CondSignalF (rw_write w) (rw_guard w)]
       else if WR w > 0 then [CondBroadcastF (rw_read w) False] else []))"
| "exec_rw f rws = None"

section \<open>Steps\<close>

record config =
  kern :: kernel
  frames :: "ptr \<Rightarrow> frame list"
  rws :: "nat \<Rightarrow> rw_lock"

datatype api =
    SemaDown nat | SemaUp nat
  | LockAcquire nat | LockRelease nat
  | CondWait nat nat | CondSignal nat nat | CondBroadcast nat nat
  | RwAcquire nat bool | RwRelease nat bool
  | Yield

fun api_frames :: "config \<Rightarrow> api \<Rightarrow> frame list" where
  "api_frames c (SemaDown s) = [SemaDownF s]"
| "api_frames c (SemaUp s) = [SemaUpF (Sema s)]"
| "api_frames c (LockAcquire l) = [LockAcquireF l]"
| "api_frames c (LockRelease l) = [LockReleaseF l]"
| "api_frames c (CondWait v l) = [CondWaitF v l]"
| "api_frames c (CondSignal v l) = [CondSignalF v l]"
| "api_frames c (CondBroadcast v l) = [CondBroadcastF v False]"
| "api_frames c (RwAcquire r b) = rw_lock_acquire (rws c) r b"
| "api_frames c (RwRelease r b) = rw_lock_release (rws c) r b"
| "api_frames c Yield = [YieldF]"

text \<open>
  \<^verbatim>\<open>thread_create\<close> for a page that \<^verbatim>\<open>palloc_get_page\<close> returned; the new thread starts with
  the frames \<open>body\<close>. The rest, \<^verbatim>\<open>allocate_tid\<close> and \<^verbatim>\<open>thread_unblock\<close>, is left to the
  creator's frames.
\<close>

definition thread_create :: "ptr \<Rightarrow> int \<Rightarrow> frame list \<Rightarrow> config \<Rightarrow> config option" where
  "thread_create t priority body c = do {
     let cur = running (kern c);
     k \<leftarrow> init_thread t priority (kern c);
     Some (c\<lparr>kern := k, frames := (frames c)(t := body, cur :=
       [LockAcquireF tid_lock, AllocTidF t, LockReleaseF tid_lock, UnblockF t, CreateYieldF priority] @ frames c cur)\<rparr>)
   }"

text \<open>
  One step of the machine: the running thread executes its next stretch of code, starts a kernel function, or is
  interrupted by the timer where interrupts are on. Two restrictions of the code's behaviour are deliberate. A thread
  exits only when it holds no lock; the code does not check this, and a lock of a dead thread keeps a pointer into its
  freed page. The list operations on the waiters of a condition in \<^verbatim>\<open>cond_wait\<close> and \<^verbatim>\<open>cond_signal\<close>, which the code runs with
  interrupts on, are single steps, so that the interrupt comes before or after but not within them.
\<close>

inductive step :: "config \<Rightarrow> config \<Rightarrow> bool" where
  run: "\<lbrakk>frames c (running (kern c)) = f # fs; exec_frame f (kern c) = Some (k', fs')\<rbrakk> \<Longrightarrow>
    step c (c\<lparr>kern := k', frames := (frames c)(running (kern c) := fs' @ fs)\<rparr>)"
| run_rw: "\<lbrakk>frames c (running (kern c)) = f # fs; exec_rw f (rws c) = Some (rws', fs')\<rbrakk> \<Longrightarrow>
    step c (c\<lparr>frames := (frames c)(running (kern c) := fs' @ fs), rws := rws'\<rparr>)"
| timer: "\<lbrakk>frames c (running (kern c)) = [] \<or> intr_on (hd (frames c (running (kern c))));
    intr_handler_external timer_interrupt (kern c) = Some k'\<rbrakk> \<Longrightarrow> step c (c\<lparr>kern := k'\<rparr>)"
| call: "\<lbrakk>frames c (running (kern c)) = []\<rbrakk> \<Longrightarrow>
    step c (c\<lparr>frames := (frames c)(running (kern c) := api_frames c op)\<rparr>)"
| try_acquire: "\<lbrakk>frames c (running (kern c)) = []; lock_try_acquire l (kern c) = Some (k', got)\<rbrakk> \<Longrightarrow>
    step c (c\<lparr>kern := k'\<rparr>)"
| set_priority: "\<lbrakk>frames c (running (kern c)) = []; PRI_MIN \<le> p; p \<le> PRI_MAX;
    thread_set_priority p (kern c) = Some (k', flag)\<rbrakk> \<Longrightarrow>
    step c (c\<lparr>kern := k', frames := (frames c)(running (kern c) := if flag then [YieldF] else [])\<rparr>)"
| sleep: "\<lbrakk>frames c (running (kern c)) = []; timer_sleep n (kern c) = Some k'\<rbrakk> \<Longrightarrow> step c (c\<lparr>kern := k'\<rparr>)"
| create: "\<lbrakk>frames c (running (kern c)) = []; \<not> magic (threads (kern c) t); idle_thread (kern c) \<noteq> Some t;
    frames c t = []; body = [] \<or> body = [IdleStartF s]; thread_create t p body c = Some c'\<rbrakk> \<Longrightarrow> step c c'"
| exit: "\<lbrakk>frames c (running (kern c)) = []; lock_queue (threads (kern c) (running (kern c))) = [];
    thread_exit (kern c) = Some k'\<rbrakk> \<Longrightarrow> step c (c\<lparr>kern := k'\<rparr>)"

section \<open>Boot\<close>

text \<open>
  The state in which \<^verbatim>\<open>thread_init\<close> runs: no thread structure exists, \<open>main\<close> is the page of the
  code that is running. The locks and semaphores are those that the program will use, in the
  state that \<^verbatim>\<open>lock_init\<close> and \<^verbatim>\<open>sema_init\<close> give them.
\<close>

definition no_thread :: thread where
  "no_thread = \<lparr>tid = 0, status = THREAD_BLOCKED, wake_up = 0, donated_for = None, lock_queue = [],
     b_pri = 0, e_pri = 0, queue = None, elem_in = None, pcb = None, magic = False\<rparr>"

definition boot_kernel :: "sched_policy \<Rightarrow> (nat \<Rightarrow> nat) \<Rightarrow> ptr \<Rightarrow> kernel" where
  "boot_kernel policy v main = \<lparr>threads = \<lambda>_. no_thread,
     locks = \<lambda>_. \<lparr>holder = None, lock_state = 1, lock_pri = 0\<rparr>,
     sema_value = (\<lambda>s. case s of Sema i \<Rightarrow> v i | LockSema l \<Rightarrow> 1), queues = \<lambda>_. [], all_list = [],
     running = main, idle_thread = None, initial_thread = NULL, thread_ticks = 0, idle_ticks = 0,
     kernel_ticks = 0, user_ticks = 0, ticks = 0, next_tid = 1, active_sched_policy = policy,
     in_external_intr = False, yield_on_return = False\<rparr>"

definition thread_init :: "sched_policy \<Rightarrow> (nat \<Rightarrow> nat) \<Rightarrow> (nat \<Rightarrow> rw_lock) \<Rightarrow> ptr \<Rightarrow> config option" where
  "thread_init policy v w main = do {
     let k = boot_kernel policy v main;
     let k = lock_init tid_lock k;
     let k = upd_queue ReadyQ [] k;
     let k = k\<lparr>all_list := []\<rparr>;
     let k = k\<lparr>initial_thread := running_thread k\<rparr>;
     k \<leftarrow> init_thread (initial_thread k) PRI_DEFAULT k;
     let k = upd_thread (initial_thread k) (status_update (\<lambda>_. THREAD_RUNNING)) k;
     Some \<lparr>kern = k, frames = (\<lambda>_. [])(main := [LockAcquireF tid_lock, AllocTidF main, LockReleaseF tid_lock]), rws = w\<rparr>
   }"

end
