(* ===== verification/Kernel_Inv.thy ===== *)
theory Kernel_Inv
  imports Synch
begin

text \<open>
  The invariant of the thread lists, the scheduler and the locks, and that the
  operations of \<^verbatim>\<open>threads/thread.c\<close>, \<^verbatim>\<open>threads/synch.c\<close> and the timer keep it.
\<close>

section \<open>Reading updated states\<close>

lemma upd_thread_simps [simp]:
  "threads (upd_thread t f k) = (threads k)(t := f (threads k t))"
  "locks (upd_thread t f k) = locks k" "sema_value (upd_thread t f k) = sema_value k"
  "queues (upd_thread t f k) = queues k" "all_list (upd_thread t f k) = all_list k"
  "running (upd_thread t f k) = running k" "idle_thread (upd_thread t f k) = idle_thread k"
  "initial_thread (upd_thread t f k) = initial_thread k"
  "active_sched_policy (upd_thread t f k) = active_sched_policy k"
  "in_external_intr (upd_thread t f k) = in_external_intr k" "ticks (upd_thread t f k) = ticks k"
  by (simp_all add: upd_thread_def)

lemma upd_queue_simps [simp]:
  "queues (upd_queue q xs k) = (queues k)(q := xs)"
  "locks (upd_queue q xs k) = locks k" "sema_value (upd_queue q xs k) = sema_value k"
  "threads (upd_queue q xs k) = threads k" "all_list (upd_queue q xs k) = all_list k"
  "running (upd_queue q xs k) = running k" "idle_thread (upd_queue q xs k) = idle_thread k"
  "initial_thread (upd_queue q xs k) = initial_thread k"
  "active_sched_policy (upd_queue q xs k) = active_sched_policy k"
  "in_external_intr (upd_queue q xs k) = in_external_intr k" "ticks (upd_queue q xs k) = ticks k"
  by (simp_all add: upd_queue_def)

lemma upd_lock_simps [simp]:
  "locks (upd_lock l f k) = (locks k)(l := f (locks k l))"
  "queues (upd_lock l f k) = queues k" "sema_value (upd_lock l f k) = sema_value k"
  "threads (upd_lock l f k) = threads k" "all_list (upd_lock l f k) = all_list k"
  "running (upd_lock l f k) = running k" "idle_thread (upd_lock l f k) = idle_thread k"
  "initial_thread (upd_lock l f k) = initial_thread k"
  "active_sched_policy (upd_lock l f k) = active_sched_policy k"
  "in_external_intr (upd_lock l f k) = in_external_intr k" "ticks (upd_lock l f k) = ticks k"
  by (simp_all add: upd_lock_def)

lemma is_thread_simps [simp]:
  "is_thread u (upd_queue q xs k) = is_thread u k"
  "is_thread u (upd_lock l g k) = is_thread u k"
  "is_thread u (k\<lparr>running := r\<rparr>) = is_thread u k"
  by (simp_all add: is_thread_def)

lemma thread_before_grater [simp]:
  "thread_before (grater_thread_pri k) = (\<lambda>a b. e_pri (threads k a) > e_pri (threads k b))"
  by (simp add: thread_before_def grater_thread_pri_def fun_eq_iff)

lemma grater_thread_pri_upd [simp]:
  "(\<And>th. e_pri (f th) = e_pri th) \<Longrightarrow> grater_thread_pri (upd_thread t f k) = grater_thread_pri k"
  "grater_thread_pri (upd_queue q xs k) = grater_thread_pri k"
  by (auto simp: grater_thread_pri_def fun_eq_iff)

section \<open>The invariant\<close>

text \<open>
  Every list of threads is free of duplicates and holds exactly the threads
  whose \<open>elem_in\<close> names it.
\<close>

definition queues_ok :: "kernel \<Rightarrow> bool" where
  "queues_ok k \<longleftrightarrow> (\<forall>q. distinct (queues k q)) \<and>
     (\<forall>t q. t \<in> set (queues k q) \<longleftrightarrow> elem_in (threads k t) = Some q)"

text \<open>What being in a list says of the state of a thread.\<close>

fun status_in :: "queue_id \<Rightarrow> thread_status \<Rightarrow> bool" where
  "status_in ReadyQ s \<longleftrightarrow> s = THREAD_READY"
| "status_in (CondQ c) s \<longleftrightarrow> s = THREAD_BLOCKED \<or> s = THREAD_RUNNING"
| "status_in (SemaQ i) s \<longleftrightarrow> s = THREAD_BLOCKED"
| "status_in SleepQ s \<longleftrightarrow> s = THREAD_BLOCKED"

definition thread_ok :: "kernel \<Rightarrow> ptr \<Rightarrow> bool" where
  "thread_ok k t \<longleftrightarrow>
     (\<forall>q. elem_in (threads k t) = Some q \<longrightarrow> is_thread t k \<and> status_in q (status (threads k t)) \<and>
        (queue (threads k t) = Some q \<or> status (threads k t) = THREAD_RUNNING)) \<and>
     (idle_thread k = Some t \<longrightarrow> elem_in (threads k t) \<in> {None, Some ReadyQ}) \<and>
     (status (threads k t) = THREAD_DYING \<or> \<not> magic (threads k t) \<longrightarrow>
        lock_queue (threads k t) = [] \<and> elem_in (threads k t) = None) \<and>
     (status (threads k t) = THREAD_RUNNING \<longrightarrow> t = running k)"

text \<open>The waiters of a semaphore, and under priority scheduling the ready list, are in priority order.\<close>

abbreviation prio :: "kernel \<Rightarrow> ptr \<Rightarrow> int" where
  "prio k t \<equiv> e_pri (threads k t)"

definition sorted_ok :: "kernel \<Rightarrow> bool" where
  "sorted_ok k \<longleftrightarrow> (\<forall>s. desc_by (prio k) (queues k (SemaQ s))) \<and>
     (active_sched_policy k = SCHED_PRIO \<longrightarrow> desc_by (prio k) (queues k ReadyQ))"

text \<open>
  A thread's queue of locks holds exactly the locks it holds, in the order of
  the priorities donated through them, and its priority is no less than those.
\<close>

definition locks_ok :: "kernel \<Rightarrow> bool" where
  "locks_ok k \<longleftrightarrow>
     (\<forall>t l. l \<in> set (lock_queue (threads k t)) \<longleftrightarrow> holder (locks k l) = Some t) \<and>
     (\<forall>t. distinct (lock_queue (threads k t)) \<and>
        desc_by (\<lambda>l. lock_pri (locks k l)) (lock_queue (threads k t)) \<and>
        (\<forall>l \<in> set (lock_queue (threads k t)). lock_pri (locks k l) \<le> prio k t))"

definition core :: "kernel \<Rightarrow> bool" where
  "core k \<longleftrightarrow> queues_ok k \<and> (\<forall>t. thread_ok k t) \<and> sorted_ok k \<and> locks_ok k"

text \<open>Between two steps some thread is running.\<close>

definition kernel_ok :: "kernel \<Rightarrow> bool" where
  "kernel_ok k \<longleftrightarrow> core k \<and> is_thread (running k) k \<and> status (threads k (running k)) = THREAD_RUNNING"

lemma e_pri_fun_upd [simp]: "(\<lambda>u. e_pri (if u = t then th else ths u)) = (\<lambda>u. e_pri (ths u))(t := e_pri th)"
  by auto

lemma lock_pri_fun_upd [simp]:
  "(\<lambda>u. lock_pri (if u = l then lk else lks u)) = (\<lambda>u. lock_pri (lks u))(l := lock_pri lk)"
  by auto

lemma desc_by_fun_upd [simp]: "t \<notin> set xs \<Longrightarrow> desc_by (key(t := v)) xs = desc_by key xs"
  by (rule desc_by_cong) auto

lemma pri_upd_triv [simp]:
  "(\<lambda>u. e_pri (ths u))(t := e_pri (ths t)) = (\<lambda>u. e_pri (ths u))"
  "(\<lambda>u. lock_pri (lks u))(l := lock_pri (lks l)) = (\<lambda>u. lock_pri (lks u))"
  by (rule ext, simp)+

text \<open>
  Updates of a thread that leave its links, its locks and its priority alone
  keep everything but \<open>thread_ok\<close> of that thread.
\<close>

lemma upd_thread_core:
  assumes "core k"
    and "elem_in (f (threads k t)) = elem_in (threads k t)"
    and "e_pri (f (threads k t)) = e_pri (threads k t)"
    and "lock_queue (f (threads k t)) = lock_queue (threads k t)"
    and "thread_ok (upd_thread t f k) t"
  shows "core (upd_thread t f k)"
proof -
  have "thread_ok (upd_thread t f k) u" for u
    using assms(1,5) by (cases "u = t") (auto simp: core_def thread_ok_def is_thread_def)
  then show ?thesis
    using assms by (simp add: core_def queues_ok_def sorted_ok_def locks_ok_def)
qed

lemma upd_thread_twice [simp]: "upd_thread t f (upd_thread t g k) = upd_thread t (\<lambda>th. f (g th)) k"
  by (simp add: upd_thread_def)

lemma upd_thread_queue [simp]: "upd_thread t f (upd_queue q xs k) = upd_queue q xs (upd_thread t f k)"
  by (simp add: upd_thread_def upd_queue_def)

section \<open>Linking and unlinking\<close>

lemma core_thread_ok: "core k \<Longrightarrow> thread_ok k t"
  by (simp add: core_def)

lemma link_core:
  assumes "core k" and "elem_in (threads k t) = None" and "is_thread t k"
    and xs: "mset xs = add_mset t (mset (queues k q))"
    and sorted: "(\<exists>s. q = SemaQ s) \<or> q = ReadyQ \<and> active_sched_policy k = SCHED_PRIO \<Longrightarrow> desc_by (prio k) xs"
    and f: "elem_in (f (threads k t)) = Some q" "e_pri (f (threads k t)) = e_pri (threads k t)"
      "lock_queue (f (threads k t)) = lock_queue (threads k t)" "magic (f (threads k t)) = magic (threads k t)"
    and st: "status_in q (status (f (threads k t)))" "status (f (threads k t)) = THREAD_RUNNING \<Longrightarrow> t = running k"
      "queue (f (threads k t)) = Some q \<or> status (f (threads k t)) = THREAD_RUNNING"
    and idle: "idle_thread k = Some t \<Longrightarrow> q = ReadyQ"
  shows "core (upd_queue q xs (upd_thread t f k))"
proof -
  let ?k = "upd_queue q xs (upd_thread t f k)"
  have t: "t \<notin> set (queues k q')" for q'
    using assms(1,2) by (simp add: core_def queues_ok_def)
  have set_xs: "set xs = insert t (set (queues k q))"
    using xs by (metis set_mset_add_mset_insert set_mset_mset)
  have "distinct xs"
    using xs t assms(1) mset_eq_imp_distinct_iff [of xs "t # queues k q"]
    by (simp add: core_def queues_ok_def)
  then have q: "queues_ok ?k"
    using assms(1,2) f(1) set_xs by (auto simp: core_def queues_ok_def)
  have "status (f (threads k t)) \<noteq> THREAD_DYING" using st(1) by (cases q) auto
  then have "thread_ok ?k u" for u
    using assms(1,3) f st idle by (cases "u = t") (auto simp: core_def thread_ok_def is_thread_def)
  moreover have "sorted_ok ?k"
    using assms(1) sorted f(2) by (auto simp: core_def sorted_ok_def)
  moreover have "locks_ok ?k"
    using assms(1) f by (simp add: core_def locks_ok_def)
  ultimately show ?thesis using q by (simp add: core_def)
qed

lemma unlink_core:
  assumes "core k" and "elem_in (threads k t) = Some q"
  shows "core (upd_queue q (remove1 t (queues k q)) (upd_thread t (elem_in_update (\<lambda>_. None)) k))"
proof -
  let ?k = "upd_queue q (remove1 t (queues k q)) (upd_thread t (elem_in_update (\<lambda>_. None)) k)"
  have "queues_ok ?k"
    using assms by (auto simp: core_def queues_ok_def)
  moreover have "thread_ok ?k u" for u
    using assms by (cases "u = t") (auto simp: core_def thread_ok_def is_thread_def)
  moreover have "sorted_ok ?k" "locks_ok ?k"
    using assms by (auto simp: core_def sorted_ok_def locks_ok_def desc_by_remove1)
  ultimately show ?thesis by (simp add: core_def)
qed

lemma elem_pop_front_core:
  assumes "core k" and "elem_pop_front q k = Some (t, k')"
  shows "core k'" and "queues k q = t # queues k' q" and "elem_in (threads k t) = Some q"
    and "k' = upd_queue q (tl (queues k q)) (upd_thread t (elem_in_update (\<lambda>_. None)) k)"
proof -
  obtain ts where ts: "queues k q = t # ts" "k' = upd_queue q ts (upd_thread t (elem_in_update (\<lambda>_. None)) k)"
    using assms(2) by (auto simp: elem_pop_front_def split: list.splits)
  show e: "elem_in (threads k t) = Some q"
    using assms(1) ts(1) by (auto simp: core_def queues_ok_def) (metis list.set_intros(1))
  show "core k'" using unlink_core [OF assms(1) e] ts by simp
  show "queues k q = t # queues k' q"
    and "k' = upd_queue q (tl (queues k q)) (upd_thread t (elem_in_update (\<lambda>_. None)) k)"
    using ts by simp_all
qed

section \<open>Scheduling\<close>

lemma run_thread_ok:
  assumes "core k" and "status (threads k (running k)) \<noteq> THREAD_RUNNING"
    and "is_thread t k" and "elem_in (threads k t) = None"
  shows "kernel_ok (upd_thread t (status_update (\<lambda>_. THREAD_RUNNING)) (k\<lparr>running := t\<rparr>)\<lparr>thread_ticks := 0\<rparr>)"
proof -
  let ?k = "upd_thread t (status_update (\<lambda>_. THREAD_RUNNING)) (k\<lparr>running := t\<rparr>)\<lparr>thread_ticks := 0\<rparr>"
  have "status (threads k u) \<noteq> THREAD_RUNNING" for u
    using core_thread_ok [OF assms(1), of u] assms(2) by (auto simp: thread_ok_def)
  then have "thread_ok ?k u" for u
    using assms by (cases "u = t") (auto simp: core_def thread_ok_def is_thread_def)
  then show ?thesis
    using assms by (simp add: kernel_ok_def core_def queues_ok_def sorted_ok_def locks_ok_def is_thread_def)
qed

lemma free_page_ok:
  assumes "kernel_ok k" and "status (threads k p) = THREAD_DYING"
  shows "kernel_ok (upd_thread p free_thread_page k)"
proof -
  have p: "lock_queue (threads k p) = []" "elem_in (threads k p) = None" "p \<noteq> running k"
    using assms core_thread_ok [of k p] by (auto simp: kernel_ok_def thread_ok_def)
  then have "p \<notin> set (queues k q)" for q
    using assms(1) by (simp add: kernel_ok_def core_def queues_ok_def)
  moreover have "holder (locks k l) \<noteq> Some p" for l
    using assms(1) p(1) unfolding kernel_ok_def core_def locks_ok_def by (metis empty_iff list.set(1))
  moreover have "thread_ok (upd_thread p free_thread_page k) u" for u
    using assms p by (cases "u = p") (auto simp: kernel_ok_def core_def thread_ok_def is_thread_def free_thread_page_def)
  ultimately show ?thesis
    using assms p by (simp add: kernel_ok_def core_def queues_ok_def sorted_ok_def locks_ok_def is_thread_def free_thread_page_def)
qed

lemma next_thread_core:
  assumes "core k" and "next_thread_to_run k = Some (Some n, k')"
  shows "core k'" and "elem_in (threads k' n) = None" and "running k' = running k"
proof -
  have "(queues k ReadyQ \<noteq> [] \<and> elem_pop_front ReadyQ k = Some (n, k')) \<or>
    (queues k ReadyQ = [] \<and> idle_thread k = Some n \<and> k' = k)"
    using assms(2) by (auto simp: next_thread_to_run_def thread_schedule_fifo_def thread_schedule_prio_def
        split: sched_policy.splits if_splits)
  then show "core k'" "elem_in (threads k' n) = None" "running k' = running k"
  proof (atomize (full), elim disjE conjE)
    assume "elem_pop_front ReadyQ k = Some (n, k')"
    from elem_pop_front_core(1,4) [OF assms(1) this]
    show "core k' \<and> elem_in (threads k' n) = None \<and> running k' = running k" by simp
  next
    assume i: "queues k ReadyQ = []" "idle_thread k = Some n" "k' = k"
    then have "elem_in (threads k n) \<noteq> Some ReadyQ"
      using assms(1) unfolding core_def queues_ok_def by (metis list.set(1) empty_iff)
    with i assms(1) show "core k' \<and> elem_in (threads k' n) = None \<and> running k' = running k"
      using core_thread_ok [OF assms(1), of n] by (auto simp: thread_ok_def)
  qed
qed

lemma schedule_ok:
  assumes "core k" and "schedule k = Some k'"
  shows "kernel_ok k'"
proof -
  obtain n k1 where n: "next_thread_to_run k = Some (Some n, k1)"
    and st: "status (threads k1 (running k)) \<noteq> THREAD_RUNNING" and th: "is_thread n k1"
    and tail: "thread_switch_tail (if running k \<noteq> n then Some (running k) else None) (k1\<lparr>running := n\<rparr>) = Some k'"
    using assms(2) by (auto simp: schedule_def running_thread_def bind_eq_Some_conv Let_def)
  note c = next_thread_core [OF assms(1) n]
  have "kernel_ok (upd_thread n (status_update (\<lambda>_. THREAD_RUNNING)) (k1\<lparr>running := n\<rparr>)\<lparr>thread_ticks := 0\<rparr>)"
    using run_thread_ok [OF c(1)] st th c by simp
  with tail free_page_ok show ?thesis
    by (auto simp: thread_switch_tail_def running_thread_def Let_def ASSERT_bind_eq_Some
        split: option.splits if_splits)
qed

section \<open>The operations of thread.c\<close>

lemma thread_current_Some [simp]:
  "thread_current k = Some t \<longleftrightarrow> t = running k \<and> is_thread t k \<and> status (threads k t) = THREAD_RUNNING"
  by (auto simp: thread_current_def running_thread_def Let_def)

lemma kernel_ok_current: "kernel_ok k \<Longrightarrow> thread_current k = Some (running k)"
  by (simp add: kernel_ok_def)

lemma thread_enqueue_core:
  assumes "core k" and "thread_enqueue t k = Some k'"
  shows "core (upd_thread t (status_update (\<lambda>_. THREAD_READY)) k')"
    and "\<exists>xs. k' = upd_queue ReadyQ xs (upd_thread t (\<lambda>th. th\<lparr>queue := Some ReadyQ, elem_in := Some ReadyQ\<rparr>) k)"
proof -
  let ?f = "\<lambda>th. th\<lparr>queue := Some ReadyQ, elem_in := Some ReadyQ\<rparr>"
  obtain xs where e: "is_thread t k" "elem_in (threads k t) = None"
    and k': "k' = upd_queue ReadyQ xs (upd_thread t ?f k)"
    and xs: "xs = queues k ReadyQ @ [t] \<and> active_sched_policy k = SCHED_FIFO \<or>
      xs = insert_ordered (\<lambda>a b. prio k a > prio k b) t (queues k ReadyQ)"
    using assms(2) by (auto simp: thread_enqueue_def elem_push_back_def elem_insert_ordered_def link_elem_def
        is_thread_def Let_def split: sched_policy.splits)
  show "\<exists>xs. k' = upd_queue ReadyQ xs (upd_thread t ?f k)" using k' by blast
  have "core (upd_queue ReadyQ xs (upd_thread t (\<lambda>th. status_update (\<lambda>_. THREAD_READY) (?f th)) k))"
  proof (rule link_core [OF assms(1) e(2,1)])
    show "mset xs = add_mset t (mset (queues k ReadyQ))" using xs by auto
  next
    assume "(\<exists>s. ReadyQ = SemaQ s) \<or> ReadyQ = ReadyQ \<and> active_sched_policy k = SCHED_PRIO"
    then show "desc_by (prio k) xs"
      using xs assms(1) by (auto simp: core_def sorted_ok_def desc_by_insert_strict)
  qed simp_all
  then show "core (upd_thread t (status_update (\<lambda>_. THREAD_READY)) k')" by (simp add: k')
qed

lemma thread_unblock_core:
  assumes "core k" and "thread_unblock t k = Some k'"
  shows "core k'" and "\<exists>xs. k' = upd_queue ReadyQ xs
      (upd_thread t (\<lambda>th. th\<lparr>queue := Some ReadyQ, elem_in := Some ReadyQ, status := THREAD_READY\<rparr>) k)"
    and "status (threads k t) = THREAD_BLOCKED"
proof -
  obtain k1 where k1: "thread_enqueue t k = Some k1" "status (threads k t) = THREAD_BLOCKED"
    "k' = upd_thread t (status_update (\<lambda>_. THREAD_READY)) k1"
    using assms(2) by (auto simp: thread_unblock_def bind_eq_Some_conv)
  from thread_enqueue_core [OF assms(1) k1(1)] k1
  show "core k'" "\<exists>xs. k' = upd_queue ReadyQ xs
      (upd_thread t (\<lambda>th. th\<lparr>queue := Some ReadyQ, elem_in := Some ReadyQ, status := THREAD_READY\<rparr>) k)"
    "status (threads k t) = THREAD_BLOCKED"
    by auto
qed

lemma thread_unblock_ok:
  assumes "kernel_ok k" and "thread_unblock t k = Some k'"
  shows "kernel_ok k'"
proof -
  have "core k" using assms(1) by (simp add: kernel_ok_def)
  note u = thread_unblock_core [OF this assms(2)]
  then have "t \<noteq> running k" using assms(1) by (auto simp: kernel_ok_def)
  with u assms(1) show ?thesis by (auto simp: kernel_ok_def is_thread_def)
qed

lemma yield_core:
  assumes "kernel_ok k"
    and k1: "(if idle_thread k \<noteq> Some (running k) then thread_enqueue (running k) k else Some k) = Some k1"
  shows "core (upd_thread (running k) (status_update (\<lambda>_. THREAD_READY)) k1)"
proof -
  let ?t = "running k"
  have c: "core k" "status (threads k ?t) = THREAD_RUNNING" "is_thread ?t k"
    using assms(1) by (auto simp: kernel_ok_def)
  show ?thesis
  proof (cases "idle_thread k = Some ?t")
    case True
    then have "elem_in (threads k ?t) = None"
      using core_thread_ok [OF c(1), of ?t] c(2) by (auto simp: thread_ok_def)
    then have "core (upd_thread ?t (status_update (\<lambda>_. THREAD_READY)) k)"
      using c core_thread_ok [OF c(1), of ?t] by (intro upd_thread_core) (auto simp: thread_ok_def is_thread_def)
    with True k1 show ?thesis by simp
  next
    case False
    with thread_enqueue_core(1) [OF c(1)] k1 show ?thesis by simp
  qed
qed

lemma thread_yield_ok:
  assumes "kernel_ok k" and "thread_yield k = Some k'"
  shows "kernel_ok k'"
  using assms(2) kernel_ok_current [OF assms(1)] schedule_ok [OF yield_core [OF assms(1)]]
  by (auto simp: thread_yield_def bind_eq_Some_conv)

text \<open>A running thread links itself into a list other than the ready list and blocks.\<close>

lemma insert_and_block_core:
  assumes "kernel_ok k" and "elem_insert_ordered q lessf (running k) k = Some k1"
    and "thread_block (upd_thread (running k) (queue_update (\<lambda>_. Some q)) k1) = Some k'"
    and "\<And>s. q = SemaQ s \<Longrightarrow> lessf = (\<lambda>a b. prio k a > prio k b)" and "q \<noteq> ReadyQ"
    and "idle_thread k \<noteq> Some (running k)"
  defines "k2 \<equiv> upd_queue q (insert_ordered lessf (running k) (queues k q)) (upd_thread (running k)
      (\<lambda>th. th\<lparr>elem_in := Some q, queue := Some q, status := THREAD_BLOCKED\<rparr>) k)"
  shows "core k2" and "schedule k2 = Some k'" and "elem_in (threads k (running k)) = None"
proof -
  let ?t = "running k" and ?xs = "insert_ordered lessf (running k) (queues k q)"
  let ?f = "\<lambda>th. th\<lparr>elem_in := Some q, queue := Some q, status := THREAD_BLOCKED\<rparr>"
  have c: "core k" "is_thread ?t k" and e: "elem_in (threads k ?t) = None"
    and k1: "k1 = upd_queue q ?xs (upd_thread ?t (elem_in_update (\<lambda>_. Some q)) k)"
    using assms(1,2) by (auto simp: kernel_ok_def elem_insert_ordered_def link_elem_def)
  show "elem_in (threads k ?t) = None" by (rule e)
  show "core k2" unfolding k2_def
  proof (rule link_core [OF c(1) e c(2)])
    assume "(\<exists>s. q = SemaQ s) \<or> q = ReadyQ \<and> active_sched_policy k = SCHED_PRIO"
    then show "desc_by (prio k) ?xs"
      using c(1) assms(4,5) by (auto simp: core_def sorted_ok_def desc_by_insert_strict)
  next
    show "status_in q (status (?f (threads k ?t)))" using assms(5) by (cases q) auto
  qed (use assms(6) in simp_all)
  show "schedule k2 = Some k'"
    using assms(3) k1 by (auto simp: k2_def thread_block_def bind_eq_Some_conv)
qed

text \<open>What the scheduler never touches.\<close>

definition same_sync :: "kernel \<Rightarrow> kernel \<Rightarrow> bool" where
  "same_sync k k' \<longleftrightarrow> locks k' = locks k \<and> sema_value k' = sema_value k \<and> idle_thread k' = idle_thread k \<and>
     active_sched_policy k' = active_sched_policy k \<and> initial_thread k' = initial_thread k"

lemma same_sync_refl [simp]: "same_sync k k"
  by (simp add: same_sync_def)

lemma same_sync_trans [trans]: "same_sync k k' \<Longrightarrow> same_sync k' k'' \<Longrightarrow> same_sync k k''"
  by (simp add: same_sync_def)

lemma same_sync_upd [simp]:
  "same_sync k (upd_thread t f k') = same_sync k k'" "same_sync k (upd_queue q xs k') = same_sync k k'"
  "same_sync k (k'\<lparr>running := r\<rparr>) = same_sync k k'" "same_sync k (k'\<lparr>thread_ticks := n\<rparr>) = same_sync k k'"
  "same_sync (upd_thread t f k') k = same_sync k' k" "same_sync (upd_queue q xs k') k = same_sync k' k"
  by (auto simp: same_sync_def)

lemma elem_in_running:
  "kernel_ok k \<Longrightarrow> elem_in (threads k (running k)) = Some q \<Longrightarrow> \<exists>c. q = CondQ c"
  using core_thread_ok [of k "running k"] by (cases q) (auto simp: kernel_ok_def thread_ok_def)

lemma elem_pop_front_same: "elem_pop_front q k = Some (t, k') \<Longrightarrow> same_sync k k'"
  by (auto simp: elem_pop_front_def split: list.splits)

lemma schedule_same:
  assumes "core k" and "schedule k = Some k'"
  shows "same_sync k k'" and "elem_in (threads k' (running k')) = None"
proof -
  obtain n k1 where n: "next_thread_to_run k = Some (Some n, k1)"
    and tail: "thread_switch_tail (if running k \<noteq> n then Some (running k) else None) (k1\<lparr>running := n\<rparr>) = Some k'"
    using assms(2) by (auto simp: schedule_def running_thread_def bind_eq_Some_conv Let_def)
  have "same_sync k k1"
    using n elem_pop_front_same by (auto simp: next_thread_to_run_def thread_schedule_fifo_def thread_schedule_prio_def
        split: sched_policy.splits if_splits)
  with tail next_thread_core(2) [OF assms(1) n]
  show "same_sync k k'" "elem_in (threads k' (running k')) = None"
    by (auto simp: thread_switch_tail_def running_thread_def Let_def split: option.splits if_splits)
qed

lemma thread_enqueue_same: "thread_enqueue t k = Some k' \<Longrightarrow> same_sync k k'"
  by (auto simp: thread_enqueue_def elem_push_back_def elem_insert_ordered_def link_elem_def Let_def
      split: sched_policy.splits)

lemma thread_unblock_same: "thread_unblock t k = Some k' \<Longrightarrow> same_sync k k'"
  using thread_enqueue_same by (auto simp: thread_unblock_def bind_eq_Some_conv)

lemma thread_yield_same:
  assumes "kernel_ok k" and "thread_yield k = Some k'"
  shows "same_sync k k'" and "elem_in (threads k' (running k')) = None"
proof -
  let ?t = "running k"
  obtain k1 where k1: "(if idle_thread k \<noteq> Some ?t then thread_enqueue ?t k else Some k) = Some k1"
    and s: "schedule (upd_thread ?t (status_update (\<lambda>_. THREAD_READY)) k1) = Some k'"
    using assms(2) kernel_ok_current [OF assms(1)] by (auto simp: thread_yield_def bind_eq_Some_conv)
  have "core (upd_thread ?t (status_update (\<lambda>_. THREAD_READY)) k1)"
    using yield_core [OF assms(1) k1] .
  note sch = schedule_same [OF this s]
  moreover have "same_sync k k1" using k1 thread_enqueue_same by (auto split: if_splits)
  ultimately show "same_sync k k'" "elem_in (threads k' (running k')) = None"
    by (auto intro: same_sync_trans)
qed

lemma insert_and_block_ok:
  assumes "kernel_ok k" and "elem_insert_ordered q lessf (running k) k = Some k1"
    and "thread_block (upd_thread (running k) (queue_update (\<lambda>_. Some q)) k1) = Some k'"
    and "\<And>s. q = SemaQ s \<Longrightarrow> lessf = (\<lambda>a b. prio k a > prio k b)" and "q \<noteq> ReadyQ"
    and "idle_thread k \<noteq> Some (running k)"
  shows "kernel_ok k'" and "same_sync k k'" and "elem_in (threads k' (running k')) = None"
proof -
  note b = insert_and_block_core(1,2) [OF assms]
  from schedule_ok [OF b] schedule_same [OF b]
  show "kernel_ok k'" "same_sync k k'" "elem_in (threads k' (running k')) = None" by simp_all
qed

section \<open>The timer\<close>

lemma wake_one_core:
  assumes "core k" and "elem_pop_front SleepQ k = Some (t, k1)"
    and "active_sched_policy k \<in> {SCHED_FIFO, SCHED_PRIO}"
  shows "\<exists>xs. thread_unblock t k1 = Some (upd_queue ReadyQ xs (upd_queue SleepQ (tl (queues k SleepQ))
    (upd_thread t (\<lambda>th. th\<lparr>queue := Some ReadyQ, elem_in := Some ReadyQ, status := THREAD_READY\<rparr>) k)))
    \<and> set xs = insert t (set (queues k ReadyQ))"
proof -
  note p = elem_pop_front_core [OF assms(1,2)]
  have "status (threads k t) = THREAD_BLOCKED" "is_thread t k"
    using core_thread_ok [OF assms(1), of t] p(3) by (auto simp: thread_ok_def)
  then show ?thesis
    using assms(3) p(4) by (auto simp: thread_unblock_def thread_enqueue_def elem_push_back_def
        elem_insert_ordered_def link_elem_def is_thread_def Let_def)
qed

definition due :: "kernel \<Rightarrow> ptr \<Rightarrow> bool" where
  "due k t \<longleftrightarrow> wake_up (threads k t) \<le> ticks k"

lemma wake_sleepers_spec:
  assumes "kernel_ok k" and "active_sched_policy k \<in> {SCHED_FIFO, SCHED_PRIO}"
  shows "\<exists>k'. wake_sleepers k = Some k' \<and> kernel_ok k' \<and> same_sync k k' \<and> running k' = running k \<and>
    in_external_intr k' = in_external_intr k \<and> threads k' (running k) = threads k (running k) \<and>
    queues k' SleepQ = dropWhile (due k) (queues k SleepQ) \<and>
    set (queues k' ReadyQ) = set (queues k ReadyQ) \<union> set (takeWhile (due k) (queues k SleepQ))"
  using assms
proof (induction "length (queues k SleepQ)" arbitrary: k rule: less_induct)
  case less
  show ?case
  proof (cases "queues k SleepQ")
    case Nil
    with less.prems show ?thesis by (simp add: wake_sleepers.simps)
  next
    case (Cons t ts)
    show ?thesis
    proof (cases "due k t")
      case False
      with less.prems Cons show ?thesis by (subst wake_sleepers.simps) (simp add: due_def)
    next
      case True
      have c: "core k" using less.prems by (simp add: kernel_ok_def)
      obtain k1 where k1: "elem_pop_front SleepQ k = Some (t, k1)"
        using Cons by (simp add: elem_pop_front_def)
      obtain xs k2 where xs: "set xs = insert t (set (queues k ReadyQ))"
        and k2: "k2 = upd_queue ReadyQ xs (upd_queue SleepQ ts
          (upd_thread t (\<lambda>th. th\<lparr>queue := Some ReadyQ, elem_in := Some ReadyQ, status := THREAD_READY\<rparr>) k))"
        and u: "thread_unblock t k1 = Some k2"
        using wake_one_core [OF c k1 less.prems(2)] Cons by auto
      have "status (threads k t) = THREAD_BLOCKED"
        using elem_pop_front_core(3) [OF c k1] core_thread_ok [OF c, of t] by (auto simp: thread_ok_def)
      then have t: "t \<noteq> running k" using less.prems(1) by (auto simp: kernel_ok_def)
      have ok: "kernel_ok k2"
        using thread_unblock_core(1) [OF elem_pop_front_core(1) [OF c k1] u] less.prems(1) t k2
        by (auto simp: kernel_ok_def is_thread_def)
      have w: "due k2 = due k"
        using k2 by (auto simp: fun_eq_iff due_def)
      have step: "wake_sleepers k = wake_sleepers k2"
        using True Cons k1 u by (subst wake_sleepers.simps) (simp add: due_def)
      have "length (queues k2 SleepQ) < length (queues k SleepQ)"
        and pol: "active_sched_policy k2 \<in> {SCHED_FIFO, SCHED_PRIO}"
        using Cons k2 less.prems(2) by auto
      from less.hyps [OF this(1) ok pol] obtain k' where
        "wake_sleepers k2 = Some k'" "kernel_ok k'" "same_sync k2 k'" "running k' = running k2"
        "in_external_intr k' = in_external_intr k2" "threads k' (running k2) = threads k2 (running k2)"
        "queues k' SleepQ = dropWhile (due k2) (queues k2 SleepQ)"
        "set (queues k' ReadyQ) = set (queues k2 ReadyQ) \<union> set (takeWhile (due k2) (queues k2 SleepQ))"
        by blast
      with step k2 xs True Cons t w show ?thesis by auto
    qed
  qed
qed

lemma kernel_ok_cong:
  assumes "threads k' = threads k" "queues k' = queues k" "locks k' = locks k" "running k' = running k"
    "idle_thread k' = idle_thread k" "active_sched_policy k' = active_sched_policy k"
  shows "kernel_ok k' = kernel_ok k"
  by (simp add: assms kernel_ok_def core_def queues_ok_def thread_ok_def sorted_ok_def locks_ok_def is_thread_def)

lemma kernel_ok_upd [simp]:
  "kernel_ok (k\<lparr>ticks := i\<rparr>) = kernel_ok k" "kernel_ok (k\<lparr>thread_ticks := n\<rparr>) = kernel_ok k"
  "kernel_ok (k\<lparr>idle_ticks := n\<rparr>) = kernel_ok k" "kernel_ok (k\<lparr>kernel_ticks := n\<rparr>) = kernel_ok k"
  "kernel_ok (k\<lparr>user_ticks := n\<rparr>) = kernel_ok k" "kernel_ok (k\<lparr>yield_on_return := b\<rparr>) = kernel_ok k"
  "kernel_ok (k\<lparr>in_external_intr := b\<rparr>) = kernel_ok k" "kernel_ok (k\<lparr>sema_value := v\<rparr>) = kernel_ok k"
  "kernel_ok (k\<lparr>all_list := ts\<rparr>) = kernel_ok k" "kernel_ok (k\<lparr>next_tid := i\<rparr>) = kernel_ok k"
  by (rule kernel_ok_cong; simp)+

lemma thread_tick_ok:
  assumes "kernel_ok k"
  shows "\<exists>k'. thread_tick k = Some k' \<and> kernel_ok k' \<and> same_sync k k' \<and> running k' = running k \<and>
    threads k' = threads k \<and> queues k' = queues k \<and> in_external_intr k' = in_external_intr k"
  using assms kernel_ok_current [OF assms]
  by (auto simp: thread_tick_def Let_def same_sync_def simp del: thread_current_Some)

lemma timer_interrupt_spec:
  assumes "kernel_ok k" and "active_sched_policy k \<in> {SCHED_FIFO, SCHED_PRIO}"
  shows "\<exists>k'. timer_interrupt k = Some k' \<and> kernel_ok k' \<and> same_sync k k' \<and> running k' = running k \<and>
    in_external_intr k' = in_external_intr k \<and> threads k' (running k) = threads k (running k) \<and>
    queues k' SleepQ = dropWhile (\<lambda>t. wake_up (threads k t) \<le> ticks k + 1) (queues k SleepQ) \<and>
    set (queues k' ReadyQ) = set (queues k ReadyQ) \<union>
      set (takeWhile (\<lambda>t. wake_up (threads k t) \<le> ticks k + 1) (queues k SleepQ))"
proof -
  let ?k = "k\<lparr>ticks := ticks k + 1\<rparr>"
  have "kernel_ok ?k" "active_sched_policy ?k \<in> {SCHED_FIFO, SCHED_PRIO}"
    using assms by simp_all
  from wake_sleepers_spec [OF this] obtain k1 where k1: "wake_sleepers ?k = Some k1" "kernel_ok k1"
    "same_sync ?k k1" "running k1 = running k" "in_external_intr k1 = in_external_intr k"
    "threads k1 (running k) = threads k (running k)"
    "queues k1 SleepQ = dropWhile (due ?k) (queues k SleepQ)"
    "set (queues k1 ReadyQ) = set (queues k ReadyQ) \<union> set (takeWhile (due ?k) (queues k SleepQ))"
    by auto
  have "due ?k = (\<lambda>t. wake_up (threads k t) \<le> ticks k + 1)" by (simp add: due_def fun_eq_iff)
  with k1 thread_tick_ok [OF k1(2)] show ?thesis
    by (auto simp: timer_interrupt_def same_sync_def)
qed

text \<open>A timer interrupt handled to its end, with the preemption it may ask for.\<close>

lemma timer_intr_ok:
  assumes "kernel_ok k" and "intr_handler_external timer_interrupt k = Some k'"
    and "active_sched_policy k \<in> {SCHED_FIFO, SCHED_PRIO}"
  shows "kernel_ok k'" and "same_sync k k'"
    and "running k' = running k \<and> threads k' (running k) = threads k (running k) \<or>
      elem_in (threads k' (running k')) = None"
proof -
  let ?k = "k\<lparr>in_external_intr := True, yield_on_return := False\<rparr>"
  have "kernel_ok ?k" "active_sched_policy ?k \<in> {SCHED_FIFO, SCHED_PRIO}"
    using assms(1,3) by simp_all
  from timer_interrupt_spec [OF this] obtain k1 where k1: "timer_interrupt ?k = Some k1" "kernel_ok k1"
    "same_sync ?k k1" "running k1 = running k" "threads k1 (running k) = threads k (running k)"
    by auto
  let ?k2 = "k1\<lparr>in_external_intr := False\<rparr>"
  have ok: "kernel_ok ?k2" using k1(2) by simp
  have ss: "same_sync k ?k2" using k1(3) by (simp add: same_sync_def)
  have "(if yield_on_return ?k2 then thread_yield ?k2 else Some ?k2) = Some k'"
    using assms(2) k1(1) by (auto simp: intr_handler_external_def Let_def split: if_splits)
  then show "kernel_ok k'" "same_sync k k'" "running k' = running k \<and> threads k' (running k) = threads k (running k) \<or>
      elem_in (threads k' (running k')) = None"
    using ok ss k1 thread_yield_ok [OF ok] thread_yield_same [OF ok]
    by (auto split: if_splits intro: same_sync_trans [OF ss])
qed

end
