(* ===== verification/Synch_Inv.thy ===== *)
theory Synch_Inv
  imports Kernel_Inv
begin

text \<open>
  The operations on semaphores, locks and condition variables keep the
  invariant; what priority donation does to the priorities.
\<close>

section \<open>Semaphores\<close>

lemma sema_down_round_ok:
  assumes "kernel_ok k" and "sema_down_round s k = Some (k', got)" and "idle_thread k \<noteq> Some (running k)"
  shows "kernel_ok k'"
    and "got \<Longrightarrow> sema_value k s > 0 \<and> k' = k\<lparr>sema_value := (sema_value k)(s := sema_value k s - 1)\<rparr>"
    and "\<not> got \<Longrightarrow> sema_value k s = 0 \<and> same_sync k k' \<and> elem_in (threads k' (running k')) = None \<and>
      elem_in (threads k (running k)) = None"
proof -
  have "kernel_ok k' \<and>
    (if got then sema_value k s > 0 \<and> k' = k\<lparr>sema_value := (sema_value k)(s := sema_value k s - 1)\<rparr>
     else sema_value k s = 0 \<and> same_sync k k' \<and> elem_in (threads k' (running k')) = None \<and>
      elem_in (threads k (running k)) = None)"
  proof (cases "sema_value k s = 0")
    case True
    obtain k1 where i: "elem_insert_ordered (SemaQ s) (\<lambda>a b. prio k a > prio k b) (running k) k = Some k1"
      and b: "thread_block (upd_thread (running k) (queue_update (\<lambda>_. Some (SemaQ s))) k1) = Some k'" "\<not> got"
      using assms(2) True by (auto simp: sema_down_round_def bind_eq_Some_conv Let_def)
    note bl = assms(1) i b(1) refl _ assms(3)
    show ?thesis
      using True b(2) insert_and_block_ok [OF bl] insert_and_block_core(3) [OF bl]
      by simp
  qed (use assms in \<open>auto simp: sema_down_round_def\<close>)
  then show "kernel_ok k'"
    "got \<Longrightarrow> sema_value k s > 0 \<and> k' = k\<lparr>sema_value := (sema_value k)(s := sema_value k s - 1)\<rparr>"
    "\<not> got \<Longrightarrow> sema_value k s = 0 \<and> same_sync k k' \<and> elem_in (threads k' (running k')) = None \<and>
      elem_in (threads k (running k)) = None"
    by (auto split: if_splits)
qed

lemma sema_up_wake_ok:
  assumes "kernel_ok k" and "sema_up_wake s k = Some (k', t)"
  shows "kernel_ok k'" and "locks k' = locks k" and "idle_thread k' = idle_thread k"
    and "sema_value k' = (sema_value k)(s := (sema_value k s + 1) mod 2 ^ 32)"
    and "running k' = running k" and "threads k' (running k) = threads k (running k)"
    and "active_sched_policy k' = active_sched_policy k"
proof -
  have c: "core k" using assms(1) by (simp add: kernel_ok_def)
  have "\<exists>k1. k' = k1\<lparr>sema_value := (sema_value k)(s := (sema_value k s + 1) mod 2 ^ 32)\<rparr> \<and> kernel_ok k1 \<and>
    same_sync k k1 \<and> running k1 = running k \<and> threads k1 (running k) = threads k (running k)"
  proof (cases "queues k (SemaQ s) = []")
    case True
    with assms show ?thesis by (auto simp: sema_up_wake_def)
  next
    case False
    then obtain u k1 k2 where p: "elem_pop_front (SemaQ s) k = Some (u, k1)" "thread_unblock u k1 = Some k2"
      and k': "k' = k2\<lparr>sema_value := (sema_value k2)(s := (sema_value k2 s + 1) mod 2 ^ 32)\<rparr>"
      using assms(2) by (auto simp: sema_up_wake_def bind_eq_Some_conv)
    note pp = elem_pop_front_core [OF c p(1)] and uu = thread_unblock_core [OF elem_pop_front_core(1) [OF c p(1)] p(2)]
    have "status (threads k u) = THREAD_BLOCKED" using uu(3) pp(4) by simp
    then have u: "u \<noteq> running k" using assms(1) by (auto simp: kernel_ok_def)
    have ss: "same_sync k k2"
      using elem_pop_front_same [OF p(1)] thread_unblock_same [OF p(2)] by (rule same_sync_trans)
    obtain xs where k2: "k2 = upd_queue ReadyQ xs
        (upd_thread u (\<lambda>th. th\<lparr>queue := Some ReadyQ, elem_in := Some ReadyQ, status := THREAD_READY\<rparr>) k1)"
      using uu(2) by blast
    have "kernel_ok k2" "running k2 = running k" "threads k2 (running k) = threads k (running k)"
      using uu(1) u assms(1) k2 pp(4) by (auto simp: kernel_ok_def is_thread_def)
    with ss k' show ?thesis by (auto simp: same_sync_def)
  qed
  then show "kernel_ok k'" "locks k' = locks k" "idle_thread k' = idle_thread k"
    "sema_value k' = (sema_value k)(s := (sema_value k s + 1) mod 2 ^ 32)"
    "running k' = running k" "threads k' (running k) = threads k (running k)"
    "active_sched_policy k' = active_sched_policy k"
    by (auto simp: same_sync_def)
qed

lemma yield_if_outranked_ok:
  assumes "kernel_ok k" and "yield_if_outranked t k = Some k'"
  shows "kernel_ok k'" and "same_sync k k'" and "k' = k \<or> elem_in (threads k' (running k')) = None"
  using assms(2) thread_yield_ok [OF assms(1)] thread_yield_same [OF assms(1)] assms(1)
  by (auto simp: yield_if_outranked_def bind_eq_Some_conv split: if_splits)

section \<open>Donation\<close>

lemma raise_core:
  assumes "core k" and h: "holder (locks k l) = Some d" and "lock_pri (locks k l) < p"
    and free: "prio k d < p \<Longrightarrow> elem_in (threads k d) = None"
  defines "lp \<equiv> (\<lambda>m. lock_pri (locks k m))(l := p)"
  shows "core (upd_thread d (\<lambda>th. th\<lparr>lock_queue := insert_ordered (\<lambda>a b. lp a \<ge> lp b) l (remove1 l (lock_queue th)),
      e_pri := max (e_pri th) p\<rparr>) (upd_lock l (lock_pri_update (\<lambda>_. p)) k))" (is "core ?k")
proof -
  have lo: "locks_ok k" and to: "\<And>t. thread_ok k t" using assms(1) by (auto simp: core_def)
  have l: "l \<in> set (lock_queue (threads k d))" "distinct (lock_queue (threads k d))"
    "desc_by (\<lambda>m. lock_pri (locks k m)) (lock_queue (threads k d))"
    "\<forall>m \<in> set (lock_queue (threads k d)). lock_pri (locks k m) \<le> prio k d"
    using lo h by (auto simp: locks_ok_def)
  have other: "l \<notin> set (lock_queue (threads k u))" if "u \<noteq> d" for u
    using lo h that by (simp add: locks_ok_def)
  have "desc_by lp (remove1 l (lock_queue (threads k d)))"
    using desc_by_remove1 [OF l(3)] l(2) by (simp add: lp_def)
  then have "desc_by lp (insert_ordered (\<lambda>a b. lp a \<ge> lp b) l (remove1 l (lock_queue (threads k d))))"
    by (rule desc_by_insert_refl)
  moreover have "lock_pri (locks k m) \<le> max (prio k d) p" if "holder (locks k m) = Some d" for m
    using lo that by (force simp: locks_ok_def)
  moreover have "desc_by lp (lock_queue (threads k u))" if "u \<noteq> d" for u
    using lo other [OF that] by (simp add: locks_ok_def lp_def)
  ultimately have "locks_ok ?k"
    using lo l(1,2) other h unfolding locks_ok_def
    by (auto simp: lp_def [symmetric] insert_absorb set_remove1_eq)
  moreover have "thread_ok ?k u" for u
    using to [of u] l(1) by (cases "u = d") (auto simp: thread_ok_def is_thread_def)
  moreover have "sorted_ok ?k"
  proof (cases "prio k d < p")
    case True
    then have "d \<notin> set (queues k q)" for q
      using free assms(1) by (simp add: core_def queues_ok_def)
    then show ?thesis using assms(1) by (simp add: core_def sorted_ok_def)
  next
    case False
    then show ?thesis using assms(1) by (simp add: core_def sorted_ok_def max_absorb1)
  qed
  moreover have "queues_ok ?k" using assms(1) by (simp add: core_def queues_ok_def)
  ultimately show ?thesis by (simp add: core_def)
qed

lemma upd_thread_cong: "f (threads k t) = g (threads k t) \<Longrightarrow> upd_thread t f k = upd_thread t g k"
  by (simp add: upd_thread_def)

lemma upd_thread_lock [simp]: "upd_lock l g (upd_thread t f k) = upd_thread t f (upd_lock l g k)"
  by (simp add: upd_thread_def upd_lock_def)

abbreviation lock_raised :: "nat \<Rightarrow> int \<Rightarrow> kernel \<Rightarrow> nat \<Rightarrow> int" where
  "lock_raised l p k \<equiv> (\<lambda>m. lock_pri (locks k m))(l := p)"

lemma lock_before_raised: "lock_before (upd_lock l (lock_pri_update (\<lambda>_. p)) k) =
    (\<lambda>a b. lock_raised l p k a \<ge> lock_raised l p k b)"
  by (auto simp: lock_before_def fun_eq_iff)

lemma lock_before_upd_thread [simp]: "lock_before (upd_thread t f k) = lock_before k"
  by (simp add: lock_before_def fun_eq_iff)

lemma donate_to_lock_eq:
  "donate_to_lock l d p k = (if l \<in> set (lock_queue (threads k d))
     then Some (upd_thread d (\<lambda>th. th\<lparr>lock_queue := insert_ordered
         (\<lambda>a b. lock_raised l p k a \<ge> lock_raised l p k b) l (remove1 l (lock_queue th))\<rparr>)
       (upd_lock l (lock_pri_update (\<lambda>_. p)) k))
     else None)"
  by (auto simp: donate_to_lock_def lock_queue_remove_def lock_queue_insert_def lock_before_raised Let_def
      simp del: fun_upd_apply intro!: upd_thread_cong)

text \<open>What one donation changes, and what it leaves alone.\<close>

definition donated :: "int \<Rightarrow> kernel \<Rightarrow> kernel \<Rightarrow> bool" where
  "donated p k k' \<longleftrightarrow> running k' = running k \<and> idle_thread k' = idle_thread k \<and>
     sema_value k' = sema_value k \<and> active_sched_policy k' = active_sched_policy k \<and>
     in_external_intr k' = in_external_intr k \<and>
     (\<forall>l. holder (locks k' l) = holder (locks k l) \<and> lock_state (locks k' l) = lock_state (locks k l) \<and>
        lock_pri (locks k l) \<le> lock_pri (locks k' l) \<and> lock_pri (locks k' l) \<le> max (lock_pri (locks k l)) p) \<and>
     (\<forall>t. prio k t \<le> prio k' t \<and> prio k' t \<le> max (prio k t) p \<and>
        status (threads k' t) = status (threads k t) \<and> donated_for (threads k' t) = donated_for (threads k t) \<and>
        b_pri (threads k' t) = b_pri (threads k t) \<and> elem_in (threads k' t) = elem_in (threads k t) \<and>
        queue (threads k' t) = queue (threads k t) \<and> magic (threads k' t) = magic (threads k t))"

lemma donated_refl [simp]: "donated p k k"
  by (simp add: donated_def)

lemma donated_trans:
  assumes "donated p k k'" and "donated p k' k''"
  shows "donated p k k''"
proof -
  have "lock_pri (locks k'' l) \<le> max (lock_pri (locks k l)) p" "lock_pri (locks k l) \<le> lock_pri (locks k'' l)" for l
    using assms unfolding donated_def by (metis max.bounded_iff max.cobounded2 order_trans max_def)+
  moreover have "prio k'' t \<le> max (prio k t) p" "prio k t \<le> prio k'' t" for t
    using assms unfolding donated_def by (metis max.bounded_iff max.cobounded2 order_trans max_def)+
  ultimately show ?thesis
    using assms by (simp add: donated_def)
qed

text \<open>Raising the lock is enough when its holder already has the priority.\<close>

lemma donate_lock_only:
  assumes "core k" and "holder (locks k l) = Some d" and "lock_pri (locks k l) < p" and "p \<le> prio k d"
    and "donate_to_lock l d p k = Some k'"
  shows "core k'" and "donated p k k'" and "lock_pri (locks k' l) = p"
proof -
  show "core k'"
    using raise_core [OF assms(1,2,3)] assms(4,5)
    by (auto simp: donate_to_lock_eq max_absorb1 split: if_splits cong: upd_thread_cong)
  show "donated p k k'" "lock_pri (locks k' l) = p"
    using assms(3,5) by (auto simp: donate_to_lock_eq donated_def split: if_splits)
qed

lemma upd_queue_twice [simp]: "upd_queue q ys (upd_queue q xs k) = upd_queue q ys k"
  by (simp add: upd_queue_def)

lemma upd_queue_lock [simp]: "upd_lock l g (upd_queue q xs k) = upd_queue q xs (upd_lock l g k)"
  by (simp add: upd_queue_def upd_lock_def)

lemma raise_full:
  assumes "core k" and "holder (locks k l) = Some d" and "lock_pri (locks k l) < p" and "prio k d < p"
    and "elem_in (threads k d) = None"
  shows "core (upd_thread d (\<lambda>th. th\<lparr>lock_queue := insert_ordered
      (\<lambda>a b. lock_raised l p k a \<ge> lock_raised l p k b) l (remove1 l (lock_queue th)), e_pri := p\<rparr>)
      (upd_lock l (lock_pri_update (\<lambda>_. p)) k))"
  using raise_core [OF assms(1-3)] assms(4,5) by (simp add: max_absorb2 cong: upd_thread_cong)

lemma donate_hop:
  assumes "core k" and h: "holder (locks k l) = Some d" and p: "lock_pri (locks k l) < p" "prio k d < p"
    and st: "status (threads k d) \<noteq> THREAD_RUNNING"
    and k1: "donate_to_lock l d p k = Some k1" and k2: "donate_to_thread d p k1 = Some k2"
  shows "core k2" and "donated p k k2" and "lock_pri (locks k2 l) = p" and "prio k2 = (prio k)(d := p)"
proof -
  define lq where "lq = (\<lambda>th :: thread. insert_ordered
    (\<lambda>a b. lock_raised l p k a \<ge> lock_raised l p k b) l (remove1 l (lock_queue th)))"
  let ?kl = "upd_lock l (lock_pri_update (\<lambda>_. p)) k"
  have k1': "k1 = upd_thread d (\<lambda>th. th\<lparr>lock_queue := lq th\<rparr>) ?kl"
    using k1 unfolding donate_to_lock_eq lq_def
    by (cases "l \<in> set (lock_queue (threads k d))") (simp_all del: fun_upd_apply)
  have to: "thread_ok k d" using assms(1) by (simp add: core_def)
  have "core k2 \<and> donated p k k2 \<and> lock_pri (locks k2 l) = p \<and> prio k2 = (prio k)(d := p)"
  proof (cases "queue (threads k d)")
    case None
    then have e: "elem_in (threads k d) = None"
      using to st by (auto simp: thread_ok_def)
    have "k2 = upd_thread d (\<lambda>th. th\<lparr>lock_queue := lq th, e_pri := p\<rparr>) ?kl"
      using k2 None by (simp add: k1' donate_to_thread_def Let_def)
    with raise_full [OF assms(1) h p e] p show ?thesis
      by (auto simp: donated_def lq_def)
  next
    case (Some q)
    let ?xs = "remove1 d (queues k q)" and ?pr = "(prio k)(d := p)"
    have e: "elem_in (threads k d) = Some q"
      using k2 Some to st by (auto simp: k1' donate_to_thread_def elem_remove_def Let_def thread_ok_def
          split: option.splits bind_splits)
    define kp where "kp = upd_queue q ?xs (upd_thread d (\<lambda>th. th\<lparr>lock_queue := lq th, e_pri := p, elem_in := None\<rparr>) ?kl)"
    have gr: "thread_before (grater_thread_pri kp) = (\<lambda>a b. ?pr a > ?pr b)"
      by (auto simp: kp_def fun_eq_iff)
    have rm: "elem_remove d (upd_thread d (e_pri_update (\<lambda>_. p)) k1) = Some kp"
      and qd: "queue (threads (upd_thread d (e_pri_update (\<lambda>_. p)) k1) d) = Some q"
      using e Some by (simp_all add: k1' elem_remove_def kp_def)
    have "elem_insert_ordered q (\<lambda>a b. ?pr a > ?pr b) d kp = Some k2"
      using k2 unfolding donate_to_thread_def Let_def qd option.case rm bind.bind_lunit gr .
    then have k2': "k2 = upd_queue q (insert_ordered (\<lambda>a b. ?pr a > ?pr b) d ?xs)
        (upd_thread d (\<lambda>th. th\<lparr>lock_queue := lq th, e_pri := p, elem_in := Some q\<rparr>) ?kl)"
      unfolding elem_insert_ordered_def link_elem_def by (simp add: kp_def fun_upd_same del: fun_upd_apply)
    define ku where "ku = upd_queue q ?xs (upd_thread d (elem_in_update (\<lambda>_. None)) k)"
    have ku: "core ku" unfolding ku_def by (rule unlink_core [OF assms(1) e])
    define kr where "kr = upd_thread d (\<lambda>th. th\<lparr>lock_queue := lq th, e_pri := p\<rparr>) (upd_lock l (lock_pri_update (\<lambda>_. p)) ku)"
    have kr: "core kr"
      using raise_full [OF ku, of l d p] h p by (simp add: kr_def ku_def lq_def)
    have pr: "prio kr = ?pr" by (simp add: kr_def ku_def)
    have c2: "core (upd_queue q (insert_ordered (\<lambda>a b. ?pr a > ?pr b) d ?xs) (upd_thread d (elem_in_update (\<lambda>_. Some q)) kr))"
    proof (rule link_core [OF kr])
      assume "(\<exists>s. q = SemaQ s) \<or> q = ReadyQ \<and> active_sched_policy kr = SCHED_PRIO"
      then have "desc_by (prio kr) (queues kr q)"
        using kr unfolding core_def sorted_ok_def by blast
      then have "desc_by ?pr ?xs" unfolding pr by (simp add: kr_def ku_def fun_upd_same del: fun_upd_apply)
      then show "desc_by (prio kr) (insert_ordered (\<lambda>a b. ?pr a > ?pr b) d ?xs)"
        unfolding pr by (rule desc_by_insert_strict)
    qed (use to st e Some in \<open>auto simp: kr_def ku_def thread_ok_def is_thread_def\<close>)
    have "k2 = upd_queue q (insert_ordered (\<lambda>a b. ?pr a > ?pr b) d ?xs) (upd_thread d (elem_in_update (\<lambda>_. Some q)) kr)"
      by (simp add: k2' kr_def ku_def lq_def del: fun_upd_apply)
    then have "core k2" using c2 by (simp only:)
    moreover have "donated p k k2 \<and> lock_pri (locks k2 l) = p \<and> prio k2 = (prio k)(d := p)"
      using p e by (auto simp: k2' donated_def)
    ultimately show ?thesis by blast
  qed
  then show "core k2" "donated p k k2" "lock_pri (locks k2 l) = p" "prio k2 = (prio k)(d := p)" by auto
qed

text \<open>
  No thread but possibly \<open>u\<close> waits for a held lock through which less than its
  own priority has been donated.
\<close>

definition donation_ok_but :: "ptr option \<Rightarrow> kernel \<Rightarrow> bool" where
  "donation_ok_but u k \<longleftrightarrow> (\<forall>t l. Some t \<noteq> u \<and> donated_for (threads k t) = Some l \<and>
     holder (locks k l) \<noteq> None \<longrightarrow> prio k t \<le> lock_pri (locks k l))"

lemma donation_ok_after:
  assumes "donation_ok_but (Some donor) k" and "donated_for (threads k donor) = Some l"
    and "donated p k k'" and "p = prio k donor" and "lock_pri (locks k' l) = p" and "\<And>u. Some u \<noteq> v \<Longrightarrow> prio k' u = prio k u"
  shows "donation_ok_but v k'"
  unfolding donation_ok_but_def
proof (intro allI impI, elim conjE)
  fix t m assume t: "Some t \<noteq> v" "donated_for (threads k' t) = Some m" "holder (locks k' m) \<noteq> None"
  then have "donated_for (threads k t) = Some m" "holder (locks k m) \<noteq> None" "prio k' t = prio k t"
    "lock_pri (locks k m) \<le> lock_pri (locks k' m)"
    using assms(3,6) by (auto simp: donated_def)
  with assms(1,2,4,5) show "prio k' t \<le> lock_pri (locks k' m)"
    by (cases "t = donor") (auto simp: donation_ok_but_def intro: order_trans)
qed

lemma donated_kernel_ok: "kernel_ok k \<Longrightarrow> core k' \<Longrightarrow> donated p k k' \<Longrightarrow> kernel_ok k'"
  by (auto simp: kernel_ok_def donated_def is_thread_def)

definition donate_goal :: "nat option \<Rightarrow> ptr option \<Rightarrow> ptr \<Rightarrow> kernel \<Rightarrow> kernel \<Rightarrow> bool" where
  "donate_goal lck donee donor k k' \<longleftrightarrow> (\<forall>l. lck = Some l \<longrightarrow> donee = holder (locks k l) \<longrightarrow>
     donated_for (threads k donor) = Some l \<longrightarrow> kernel_ok k \<longrightarrow> prio k donor = prio k (running k) \<longrightarrow>
     kernel_ok k' \<and> donated (prio k donor) k k' \<and>
     (donation_ok_but (Some donor) k \<longrightarrow> donation_ok_but None k'))"

lemma donate_loop_step:
  assumes hyp: "\<And>lck donee donor k k'. rec lck donee donor k = Some k' \<Longrightarrow> donate_goal lck donee donor k k'"
    and body: "(if lock_pri (locks k l) \<ge> prio k donor then Some k
        else do {
          k \<leftarrow> donate_to_lock l d (prio k donor) k;
          if prio k donor \<le> prio k d then Some k
          else do {
            k \<leftarrow> donate_to_thread d (prio k donor) k;
            (case donated_for (threads k d) of
               None \<Rightarrow> Some k
             | Some l' \<Rightarrow> rec (Some l') (holder (locks k l')) d k)
          }
        }) = Some k'"
    and h: "holder (locks k l) = Some d" and df: "donated_for (threads k donor) = Some l" and ok: "kernel_ok k"
    and run: "prio k donor = prio k (running k)"
  shows "kernel_ok k' \<and> donated (prio k donor) k k' \<and>
    (donation_ok_but (Some donor) k \<longrightarrow> donation_ok_but None k')"
proof -
  let ?p = "prio k donor"
  have c: "core k" using ok by (simp add: kernel_ok_def)
  show ?thesis
  proof (cases "lock_pri (locks k l) \<ge> ?p")
    case True
    then have "k' = k" using body by simp
    moreover have "donation_ok_but None k" if "donation_ok_but (Some donor) k"
      using df that True unfolding donation_ok_but_def by (metis option.inject)
    ultimately show ?thesis using ok by simp
  next
    case False
    then obtain k1 where k1: "donate_to_lock l d ?p k = Some k1"
      and rest: "(if prio k1 donor \<le> prio k1 d then Some k1 else do {
        k \<leftarrow> donate_to_thread d (prio k1 donor) k1;
        (case donated_for (threads k d) of None \<Rightarrow> Some k
         | Some l' \<Rightarrow> rec (Some l') (holder (locks k l')) d k) }) = Some k'"
      using body by (cases "donate_to_lock l d ?p k") auto
    have pr: "prio k1 u = prio k u" for u
      using k1 by (auto simp: donate_to_lock_eq split: if_splits)
    show ?thesis
    proof (cases "?p \<le> prio k d")
      case True
      then have eq: "k1 = k'" using rest pr by simp
      with donate_lock_only [OF c h _ True k1] False
      have k': "core k'" "donated ?p k k'" "lock_pri (locks k' l) = ?p" by auto
      with donation_ok_after [OF _ df k'(2) refl k'(3)] eq pr donated_kernel_ok [OF ok k'(1,2)]
      show ?thesis by simp
    next
      case less: False
      then obtain k2 where k2: "donate_to_thread d ?p k1 = Some k2"
        and rest2: "(case donated_for (threads k2 d) of None \<Rightarrow> Some k2
         | Some l' \<Rightarrow> rec (Some l') (holder (locks k2 l')) d k2) = Some k'"
        using rest pr by (auto simp: bind_eq_Some_conv)
      have d: "d \<noteq> running k" using less run by auto
      then have "status (threads k d) \<noteq> THREAD_RUNNING"
        using core_thread_ok [OF c, of d] by (auto simp: thread_ok_def)
      from donate_hop [OF c h _ _ this k1 k2] False less
      have hop: "core k2" "donated ?p k k2" "lock_pri (locks k2 l) = ?p" "prio k2 = (prio k)(d := ?p)" by auto
      note ok2 = donated_kernel_ok [OF ok hop(1,2)]
      have don2: "donation_ok_but (Some d) k2" if "donation_ok_but (Some donor) k"
        by (rule donation_ok_after [OF that df hop(2) refl hop(3)]) (use fun_cong [OF hop(4)] in auto)
      show ?thesis
      proof (cases "donated_for (threads k2 d)")
        case None
        then have "donation_ok_but None k2" if "donation_ok_but (Some donor) k"
          using don2 [OF that] unfolding donation_ok_but_def by (metis option.distinct(1) option.inject)
        with None rest2 hop(2) ok2 show ?thesis by simp
      next
        case (Some l')
        have p2: "prio k2 d = ?p" "prio k2 d = prio k2 (running k2)"
          using hop(2,4) run d by (auto simp: donated_def fun_eq_iff)
        have "rec (Some l') (holder (locks k2 l')) d k2 = Some k'" using rest2 Some by simp
        from hyp [OF this] Some ok2 don2 p2
        have "kernel_ok k' \<and> donated ?p k2 k' \<and> (donation_ok_but (Some donor) k \<longrightarrow> donation_ok_but None k')"
          by (simp add: donate_goal_def)
        with donated_trans [OF hop(2)] show ?thesis by blast
      qed
    qed
  qed
qed

lemma donate_loop_goal: "donate_loop lck donee donor k = Some k' \<Longrightarrow> donate_goal lck donee donor k k'"
proof (rule donate_loop.raw_induct [where P = donate_goal])
  fix rec lck donee donor k k'
  assume hyp: "\<And>lck donee donor k k'. rec lck donee donor k = Some k' \<Longrightarrow> donate_goal lck donee donor k k'"
    and body: "(case lck of None \<Rightarrow> Some k
    | Some l \<Rightarrow> do {
        d \<leftarrow> donee;
        if lock_pri (locks k l) \<ge> prio k donor then Some k
        else do {
          k \<leftarrow> donate_to_lock l d (prio k donor) k;
          if prio k donor \<le> prio k d then Some k
          else do {
            k \<leftarrow> donate_to_thread d (prio k donor) k;
            (case donated_for (threads k d) of
               None \<Rightarrow> Some k
             | Some l' \<Rightarrow> rec (Some l') (holder (locks k l')) d k)
          }
        }
      }) = Some k'"
  show "donate_goal lck donee donor k k'"
    unfolding donate_goal_def
  proof (intro allI impI)
    fix l assume a: "lck = Some l" "donee = holder (locks k l)" "donated_for (threads k donor) = Some l"
      "kernel_ok k" "prio k donor = prio k (running k)"
    have "donee \<noteq> None" by (rule notI) (use body a(1) in simp)
    then obtain d where d: "donee = Some d" by blast
    have h: "holder (locks k l) = Some d" using a(2) d by simp
    show "kernel_ok k' \<and> donated (prio k donor) k k' \<and>
        (donation_ok_but (Some donor) k \<longrightarrow> donation_ok_but None k')"
      using hyp body [unfolded a(1) d option.case bind.bind_lunit] h a(3-5) by (rule donate_loop_step)
  qed
qed

text \<open>
  When every thread that waits for a lock waits for a held one, and every holder
  that waits is linked into the list its \<open>queue\<close> names, the chain of donations
  ends: each hop raises one more held lock to the donor's priority.
\<close>

definition chain_ok :: "kernel \<Rightarrow> bool" where
  "chain_ok k \<longleftrightarrow> finite {l. holder (locks k l) \<noteq> None} \<and>
     (\<forall>t l. donated_for (threads k t) = Some l \<longrightarrow> holder (locks k l) \<noteq> None) \<and>
     (\<forall>t q l. holder (locks k l) = Some t \<and> t \<noteq> running k \<and> queue (threads k t) = Some q \<longrightarrow>
        elem_in (threads k t) = Some q)"

lemma chain_ok_donated: "chain_ok k \<Longrightarrow> donated p k k' \<Longrightarrow> chain_ok k'"
  by (simp add: chain_ok_def donated_def)

lemma donate_to_thread_returns:
  assumes "\<And>q. queue (threads k d) = Some q \<Longrightarrow> elem_in (threads k d) = Some q"
    and "donate_to_lock l d p k = Some k1"
  shows "\<exists>k2. donate_to_thread d p k1 = Some k2"
  using assms by (cases "queue (threads k d)") (auto simp: donate_to_lock_eq donate_to_thread_def elem_remove_def
      elem_insert_ordered_def link_elem_def Let_def simp del: thread_before_grater split: if_splits)

lemma donate_loop_returns:
  assumes "kernel_ok k" and "chain_ok k" and "holder (locks k l) = Some d"
    and "prio k donor = prio k (running k)"
  shows "\<exists>k'. donate_loop (Some l) (Some d) donor k = Some k'"
  using assms
proof (induction "card {m. holder (locks k m) \<noteq> None \<and> lock_pri (locks k m) < prio k donor}"
    arbitrary: k l d donor rule: less_induct)
  case less
  let ?p = "prio k donor"
  have c: "core k" using less.prems(1) by (simp add: kernel_ok_def)
  show ?case
  proof (cases "lock_pri (locks k l) \<ge> ?p")
    case True
    then show ?thesis by (simp add: donate_loop.simps)
  next
    case False
    then have pl: "lock_pri (locks k l) < ?p" by simp
    have "l \<in> set (lock_queue (threads k d))"
      using c less.prems(3) by (simp add: core_def locks_ok_def)
    then obtain k1 where k1: "donate_to_lock l d ?p k = Some k1"
      by (simp add: donate_to_lock_eq del: fun_upd_apply)
    have pr: "prio k1 u = prio k u" for u
      using k1 by (auto simp: donate_to_lock_eq split: if_splits)
    show ?thesis
    proof (cases "?p \<le> prio k d")
      case True
      with k1 pr False show ?thesis by (subst donate_loop.simps) simp
    next
      case dl: False
      then have d: "d \<noteq> running k" "prio k d < ?p" using less.prems(4) by auto
      then have "status (threads k d) \<noteq> THREAD_RUNNING"
        using core_thread_ok [OF c, of d] by (auto simp: thread_ok_def)
      note hop = donate_hop [OF c less.prems(3) pl d(2) this k1]
      have "elem_in (threads k d) = Some q" if "queue (threads k d) = Some q" for q
        using less.prems(2,3) d(1) that unfolding chain_ok_def by blast
      then obtain k2 where k2: "donate_to_thread d ?p k1 = Some k2"
        using donate_to_thread_returns [OF _ k1] by blast
      note hop2 = hop [OF k2]
      have ok2: "kernel_ok k2" and ch2: "chain_ok k2"
        using donated_kernel_ok [OF less.prems(1) hop2(1,2)] chain_ok_donated [OF less.prems(2) hop2(2)] by auto
      have step: "donate_loop (Some l) (Some d) donor k = (case donated_for (threads k2 d) of
          None \<Rightarrow> Some k2 | Some l' \<Rightarrow> donate_loop (Some l') (holder (locks k2 l')) d k2)"
        using k1 k2 False dl pr by (subst donate_loop.simps) simp
      show ?thesis
      proof (cases "donated_for (threads k2 d)")
        case None
        with step show ?thesis by simp
      next
        case (Some l')
        then have "holder (locks k2 l') \<noteq> None" using ch2 unfolding chain_ok_def by blast
        then obtain d' where d': "holder (locks k2 l') = Some d'" by blast
        have p2: "prio k2 d = ?p" "prio k2 d = prio k2 (running k2)"
          using fun_cong [OF hop2(4)] hop2(2) less.prems(4) d by (auto simp: donated_def)
        have "{m. holder (locks k2 m) \<noteq> None \<and> lock_pri (locks k2 m) < prio k2 d}
            \<subset> {m. holder (locks k m) \<noteq> None \<and> lock_pri (locks k m) < ?p}" (is "?A \<subset> ?B")
        proof
          show "?A \<subseteq> ?B" using hop2(2) p2 unfolding donated_def by (auto intro: order.strict_trans1)
          have "l \<in> ?B" "l \<notin> ?A" using less.prems(3) pl hop2(3) p2 by simp_all
          then show "?A \<noteq> ?B" by blast
        qed
        moreover have "finite ?B" using less.prems(2) by (auto simp: chain_ok_def elim: rev_finite_subset)
        ultimately have "card ?A < card ?B" by (rule psubset_card_mono [rotated])
        from less.hyps [OF this ok2 ch2 d' p2(2)] step Some d' show ?thesis by simp
      qed
    qed
  qed
qed

end
