(* ===== verification/Lock_Inv.thy ===== *)
theory Lock_Inv
  imports Synch_Inv
begin

text \<open>
  Acquiring and releasing locks, condition variables, and the creation and the
  end of threads keep the invariant of the kernel.
\<close>

section \<open>Locks\<close>

lemma kernel_ok_core: "kernel_ok k \<Longrightarrow> core k"
  by (simp add: kernel_ok_def)

text \<open>The invariant without its part on locks, which updates of a lock cannot break.\<close>

definition base_ok :: "kernel \<Rightarrow> bool" where
  "base_ok k \<longleftrightarrow> queues_ok k \<and> (\<forall>t. thread_ok k t) \<and> sorted_ok k \<and>
     is_thread (running k) k \<and> status (threads k (running k)) = THREAD_RUNNING"

lemma kernel_ok_iff: "kernel_ok k \<longleftrightarrow> base_ok k \<and> locks_ok k"
  by (auto simp: kernel_ok_def base_ok_def core_def)

lemma base_ok_upd_lock [simp]: "base_ok (upd_lock l f k) = base_ok k"
  by (simp add: base_ok_def queues_ok_def thread_ok_def sorted_ok_def)

lemma base_ok_thread: "base_ok k \<Longrightarrow> thread_ok k t"
  by (simp add: base_ok_def)

lemma base_ok_magic: "base_ok k \<Longrightarrow> magic (threads k (running k)) \<and> status (threads k (running k)) = THREAD_RUNNING"
  by (simp add: base_ok_def is_thread_def)

lemma base_running_not_queued:
  assumes "base_ok k"
  shows "running k \<notin> set (queues k ReadyQ)" and "running k \<notin> set (queues k (SemaQ s))"
proof -
  have "elem_in (threads k (running k)) = Some q \<Longrightarrow> \<exists>c. q = CondQ c" for q
    using base_ok_thread [OF assms, of "running k"] base_ok_magic [OF assms]
    by (cases q) (auto simp: thread_ok_def)
  then show "running k \<notin> set (queues k ReadyQ)" "running k \<notin> set (queues k (SemaQ s))"
    using assms by (auto simp: base_ok_def queues_ok_def)
qed

text \<open>Updates of the running thread that keep its links and its state.\<close>

lemma base_ok_running:
  assumes "base_ok k" and "elem_in (f (threads k (running k))) = elem_in (threads k (running k))"
    and "status (f (threads k (running k))) = THREAD_RUNNING" and "magic (f (threads k (running k)))"
  shows "base_ok (upd_thread (running k) f k)"
proof -
  have "thread_ok (upd_thread (running k) f k) u" for u
    using base_ok_thread [OF assms(1), of u] base_ok_magic [OF assms(1)] assms(2-4)
    by (cases "u = running k") (auto simp: thread_ok_def is_thread_def)
  moreover have "queues_ok (upd_thread (running k) f k)"
    using assms(1,2) by (simp add: base_ok_def queues_ok_def)
  moreover have "sorted_ok (upd_thread (running k) f k)"
    using assms(1) base_running_not_queued [OF assms(1)] by (simp add: base_ok_def sorted_ok_def)
  ultimately show ?thesis
    using assms by (simp add: base_ok_def is_thread_def)
qed

lemma base_ok_running_lock:
  assumes "base_ok k" and "elem_in (f (threads k (running k))) = elem_in (threads k (running k))"
    and "status (f (threads k (running k))) = THREAD_RUNNING" and "magic (f (threads k (running k)))"
  shows "base_ok (upd_thread (running k) f (upd_lock l g k))"
  using base_ok_running [of "upd_lock l g k" f] assms by simp

lemma locks_ok_cong:
  assumes "\<And>t. lock_queue (threads k' t) = lock_queue (threads k t)" and "\<And>t. prio k' t = prio k t"
    and "\<And>l. holder (locks k' l) = holder (locks k l)" and "\<And>l. lock_pri (locks k' l) = lock_pri (locks k l)"
  shows "locks_ok k' = locks_ok k"
  using assms by (simp add: locks_ok_def)

lemma lock_acquire_enter_ok:
  assumes "kernel_ok k" and "lock_acquire_enter l k = Some k'"
  shows "kernel_ok k'" and "sema_value k' = sema_value k" and "running k' = running k"
    and "idle_thread k' = idle_thread k" and "active_sched_policy k' = active_sched_policy k"
    and "\<And>m. holder (locks k' m) = holder (locks k m)"
    and "elem_in (threads k' (running k)) = elem_in (threads k (running k))"
proof -
  let ?t = "running k"
  define k1 where "k1 = upd_thread ?t (donated_for_update (\<lambda>_. Some l)) (upd_lock l (lock_state_update (\<lambda>s. int8 (s - 1))) k)"
  have "base_ok k1"
    unfolding k1_def by (rule base_ok_running_lock) (use assms(1) base_ok_magic [of k] in \<open>simp_all add: kernel_ok_iff\<close>)
  moreover have "locks_ok k1 = locks_ok k"
    by (rule locks_ok_cong) (simp_all add: k1_def)
  ultimately have ok1: "kernel_ok k1" using assms(1) by (simp add: kernel_ok_iff)
  have h1: "holder (locks k1 m) = holder (locks k m)" for m by (simp add: k1_def)
  have "k' = k1 \<or> donate_pri_acquire ?t l k1 = Some k'"
    using assms(2) kernel_ok_current [OF assms(1)]
    by (auto simp: lock_acquire_enter_def lock_held_by_current_thread_def k1_def Let_def split: if_splits)
  then have "kernel_ok k' \<and> donated (prio k1 ?t) k1 k'"
  proof
    assume "donate_pri_acquire ?t l k1 = Some k'"
    then have "donate_goal (Some l) (holder (locks k1 l)) ?t k1 k'"
      unfolding donate_pri_acquire_def by (rule donate_loop_goal)
    then show ?thesis
      using ok1 by (simp add: donate_goal_def) (simp add: k1_def)
  qed (use ok1 in simp)
  moreover have "sema_value k1 = sema_value k" "running k1 = running k" "idle_thread k1 = idle_thread k"
    "active_sched_policy k1 = active_sched_policy k" "elem_in (threads k1 ?t) = elem_in (threads k ?t)"
    by (simp_all add: k1_def)
  ultimately show "kernel_ok k'" "sema_value k' = sema_value k" "running k' = running k"
    "idle_thread k' = idle_thread k" "active_sched_policy k' = active_sched_policy k"
    "\<And>m. holder (locks k' m) = holder (locks k m)"
    "elem_in (threads k' (running k)) = elem_in (threads k (running k))"
    by (simp_all add: donated_def h1)
qed

lemma lock_take_ok:
  assumes "kernel_ok k" and "holder (locks k l) = None"
  shows "kernel_ok (lock_take l (running k) k)"
proof -
  let ?t = "running k" and ?p = "prio k (running k)"
  have lo: "locks_ok k" using assms(1) by (simp add: kernel_ok_def core_def)
  have no: "l \<notin> set (lock_queue (threads k u))" for u using lo assms(2) by (simp add: locks_ok_def)
  have eq: "lock_take l ?t k = upd_thread ?t (lock_queue_update (insert_ordered
      (\<lambda>a b. lock_raised l ?p k a \<ge> lock_raised l ?p k b) l))
      (upd_lock l (\<lambda>lk. lk\<lparr>lock_pri := ?p, holder := Some ?t\<rparr>) k)"
  proof -
    have "lock_before (upd_lock l (\<lambda>lk. lk\<lparr>lock_pri := ?p, holder := Some ?t\<rparr>) k) =
      (\<lambda>a b. lock_raised l ?p k a \<ge> lock_raised l ?p k b)"
      by (auto simp: lock_before_def fun_eq_iff)
    then show ?thesis by (simp add: lock_take_def lock_queue_insert_def del: fun_upd_apply)
  qed
  have d: "desc_by (lock_raised l ?p k) (lock_queue (threads k u))" for u
    using lo no by (simp add: locks_ok_def)
  then have "desc_by (lock_raised l ?p k) (insert_ordered
      (\<lambda>a b. lock_raised l ?p k a \<ge> lock_raised l ?p k b) l (lock_queue (threads k ?t)))"
    by (intro desc_by_insert_refl)
  then have "locks_ok (lock_take l ?t k)"
    using lo no d assms(2) unfolding eq by (auto simp: locks_ok_def)
  moreover have "base_ok (lock_take l ?t k)"
    unfolding eq using assms(1) base_ok_magic [of k] by (intro base_ok_running_lock) (simp_all add: kernel_ok_iff)
  ultimately show ?thesis by (simp add: kernel_ok_iff)
qed

lemma lock_acquire_round_ok:
  assumes "kernel_ok k" and "lock_acquire_round l k = Some (k', got)" and "idle_thread k \<noteq> Some (running k)"
    and "sema_value k (LockSema l) > 0 \<Longrightarrow> holder (locks k l) = None"
  shows "kernel_ok k'"
    and "got \<Longrightarrow> sema_value k (LockSema l) > 0 \<and>
      sema_value k' = (sema_value k)(LockSema l := sema_value k (LockSema l) - 1) \<and>
      (\<forall>m. holder (locks k' m) = (if m = l then Some (running k) else holder (locks k m))) \<and>
      running k' = running k \<and> elem_in (threads k' (running k)) = elem_in (threads k (running k)) \<and>
      idle_thread k' = idle_thread k \<and> active_sched_policy k' = active_sched_policy k"
    and "\<not> got \<Longrightarrow> sema_value k (LockSema l) = 0 \<and> same_sync k k' \<and>
      elem_in (threads k' (running k')) = None"
proof -
  let ?t = "running k"
  obtain k1 where k1: "sema_down_round (LockSema l) k = Some (k1, got)"
    and k': "k' = (if got then lock_take l ?t (upd_thread ?t (donated_for_update (\<lambda>_. None)) k1) else k1)"
    using assms(2) by (auto simp: lock_acquire_round_def running_thread_def bind_eq_Some_conv Let_def split: if_splits)
  note d = sema_down_round_ok [OF assms(1) k1 assms(3)]
  define k2 where "k2 = upd_thread ?t (donated_for_update (\<lambda>_. None)) k1"
  have "kernel_ok k' \<and> (got \<longrightarrow> sema_value k (LockSema l) > 0 \<and>
      sema_value k' = (sema_value k)(LockSema l := sema_value k (LockSema l) - 1) \<and>
      (\<forall>m. holder (locks k' m) = (if m = l then Some ?t else holder (locks k m))) \<and>
      running k' = running k \<and> elem_in (threads k' (running k)) = elem_in (threads k (running k)) \<and>
      idle_thread k' = idle_thread k \<and> active_sched_policy k' = active_sched_policy k)"
  proof (cases got)
    case True
    note g = d(2) [OF True]
    have r: "running k1 = ?t" and h: "holder (locks k1 l) = None" using g assms(4) by simp_all
    have "base_ok k2"
      unfolding k2_def r [symmetric]
      by (rule base_ok_running) (use d(1) base_ok_magic [of k1] in \<open>simp_all add: kernel_ok_iff\<close>)
    moreover have "locks_ok k2 = locks_ok k1" by (rule locks_ok_cong) (simp_all add: k2_def)
    ultimately have ok2: "kernel_ok k2" using d(1) by (simp add: kernel_ok_iff)
    have r2: "running k2 = ?t" "holder (locks k2 l) = None" using r h by (simp_all add: k2_def)
    have "kernel_ok (lock_take l ?t k2)" using lock_take_ok [OF ok2 r2(2)] r2(1) by simp
    then show ?thesis
      using True k' g by (auto simp: k2_def lock_take_def lock_queue_insert_def)
  qed (use d(1) k' in simp)
  with d(3) k' show "kernel_ok k'"
    and "got \<Longrightarrow> sema_value k (LockSema l) > 0 \<and>
      sema_value k' = (sema_value k)(LockSema l := sema_value k (LockSema l) - 1) \<and>
      (\<forall>m. holder (locks k' m) = (if m = l then Some (running k) else holder (locks k m))) \<and>
      running k' = running k \<and> elem_in (threads k' (running k)) = elem_in (threads k (running k)) \<and>
      idle_thread k' = idle_thread k \<and> active_sched_policy k' = active_sched_policy k"
    and "\<not> got \<Longrightarrow> sema_value k (LockSema l) = 0 \<and> same_sync k k' \<and>
      elem_in (threads k' (running k')) = None"
    by (auto split: if_splits)
qed

lemma upd_lock_twice [simp]: "upd_lock l f (upd_lock l g k) = upd_lock l (\<lambda>lk. f (g lk)) k"
  by (simp add: upd_lock_def)

lemma desc_by_head: "desc_by key (x # xs) \<Longrightarrow> y \<in> set xs \<Longrightarrow> key y \<le> key x"
  by simp

lemma lock_release_leave_ok:
  assumes "kernel_ok k" and "lock_release_leave l k = Some k'"
  shows "kernel_ok k'" and "holder (locks k l) = Some (running k)"
    and "\<And>m. holder (locks k' m) = (if m = l then None else holder (locks k m))"
    and "sema_value k' = sema_value k" and "running k' = running k" and "idle_thread k' = idle_thread k"
    and "active_sched_policy k' = active_sched_policy k"
    and "elem_in (threads k' (running k)) = elem_in (threads k (running k))"
    and "prio k' (running k) = (case remove1 l (lock_queue (threads k (running k))) of
      [] \<Rightarrow> b_pri (threads k (running k)) | l' # _ \<Rightarrow> lock_pri (locks k l'))"
proof -
  let ?t = "running k"
  let ?lq = "remove1 l (lock_queue (threads k ?t))"
  let ?pr = "case ?lq of [] \<Rightarrow> b_pri (threads k ?t) | l' # _ \<Rightarrow> lock_pri (locks k l')"
  let ?F = "\<lambda>th. lock_queue_update (remove1 l) th\<lparr>e_pri := ?pr\<rparr>"
  let ?G = "\<lambda>lk. lock_state_update (\<lambda>s. int8 (s + 1)) (lk\<lparr>holder := None, lock_pri := 0\<rparr>)"
  have lo: "locks_ok k" using assms(1) by (simp add: kernel_ok_iff)
  have h: "holder (locks k l) = Some ?t"
    using assms(2) by (auto simp: lock_release_leave_def lock_held_by_current_thread_def bind_eq_Some_conv Let_def)
  have lq: "l \<notin> set ?lq" "set ?lq = set (lock_queue (threads k ?t)) - {l}"
    using lo by (auto simp: locks_ok_def)
  then have pri: "(case ?lq of [] \<Rightarrow> b_pri (threads k ?t)
      | l' # _ \<Rightarrow> lock_pri (if l' = l then (locks k l)\<lparr>holder := None, lock_pri := 0\<rparr> else locks k l')) = ?pr"
    by (cases ?lq) auto
  have k': "k' = upd_thread ?t ?F (upd_lock l ?G k)"
    using assms(2) kernel_ok_current [OF assms(1)] pri
    by (auto simp: lock_release_leave_def lock_queue_remove_def lock_held_by_current_thread_def Let_def
        cong: list.case_cong)
  show "holder (locks k l) = Some ?t" by (rule h)
  show "\<And>m. holder (locks k' m) = (if m = l then None else holder (locks k m))"
    "sema_value k' = sema_value k" "running k' = running k" "idle_thread k' = idle_thread k"
    "active_sched_policy k' = active_sched_policy k" "elem_in (threads k' ?t) = elem_in (threads k ?t)"
    by (simp_all add: k')
  show pr: "prio k' ?t = (case ?lq of [] \<Rightarrow> b_pri (threads k ?t) | l' # _ \<Rightarrow> lock_pri (locks k l'))"
    by (simp add: k')
  have "base_ok k'"
    unfolding k' by (rule base_ok_running_lock) (use assms(1) base_ok_magic [of k] in \<open>simp_all add: kernel_ok_iff\<close>)
  moreover have "locks_ok k'"
  proof -
    have d: "desc_by (\<lambda>m. lock_pri (locks k m)) ?lq"
      using lo by (simp add: locks_ok_def desc_by_remove1)
    then have le: "lock_pri (locks k m) \<le> ?pr" if "m \<in> set ?lq" for m
      using that by (cases ?lq) auto
    have other: "l \<notin> set (lock_queue (threads k u))" if "u \<noteq> ?t" for u
      using lo h that by (simp add: locks_ok_def)
    show ?thesis
      using lo lq le d other h by (auto simp: k' locks_ok_def)
  qed
  ultimately show "kernel_ok k'" by (simp add: kernel_ok_iff)
qed

lemma lock_try_acquire_ok:
  assumes "kernel_ok k" and "lock_try_acquire l k = Some (k', got)"
    and "sema_value k (LockSema l) > 0 \<Longrightarrow> holder (locks k l) = None"
  shows "kernel_ok k'" and "running k' = running k" and "idle_thread k' = idle_thread k"
    and "active_sched_policy k' = active_sched_policy k"
    and "elem_in (threads k' (running k)) = elem_in (threads k (running k))"
    and "got \<Longrightarrow> sema_value k (LockSema l) > 0 \<and>
      sema_value k' = (sema_value k)(LockSema l := sema_value k (LockSema l) - 1) \<and>
      (\<forall>m. holder (locks k' m) = (if m = l then Some (running k) else holder (locks k m)))"
    and "\<not> got \<Longrightarrow> k' = k"
proof -
  let ?t = "running k"
  define k1 where "k1 = upd_lock l (lock_state_update (\<lambda>s. int8 (s - 1)))
    (k\<lparr>sema_value := (sema_value k)(LockSema l := sema_value k (LockSema l) - 1)\<rparr>)"
  have k': "(\<not> got \<and> k' = k) \<or> (got \<and> sema_value k (LockSema l) > 0 \<and> k' = lock_take l ?t k1)"
    using assms(2) kernel_ok_current [OF assms(1)]
    by (auto simp: lock_try_acquire_def lock_held_by_current_thread_def sema_try_down_def k1_def split: if_splits)
  have "base_ok k1" using assms(1) by (simp add: k1_def kernel_ok_iff base_ok_def queues_ok_def sorted_ok_def
      thread_ok_def is_thread_def)
  moreover have "locks_ok k1 = locks_ok k" by (rule locks_ok_cong) (simp_all add: k1_def)
  ultimately have ok1: "kernel_ok k1" using assms(1) by (simp add: kernel_ok_iff)
  have r1: "running k1 = ?t" "holder (locks k1 m) = holder (locks k m)" for m
    by (simp_all add: k1_def)
  have ok2: "kernel_ok (lock_take l ?t k1)" if "sema_value k (LockSema l) > 0"
    using lock_take_ok [OF ok1, of l] r1 assms(3) [OF that] by simp
  show "kernel_ok k'" using k' ok2 assms(1) by auto
  show "running k' = running k" "idle_thread k' = idle_thread k"
    "active_sched_policy k' = active_sched_policy k"
    "elem_in (threads k' (running k)) = elem_in (threads k (running k))"
    "got \<Longrightarrow> sema_value k (LockSema l) > 0 \<and>
      sema_value k' = (sema_value k)(LockSema l := sema_value k (LockSema l) - 1) \<and>
      (\<forall>m. holder (locks k' m) = (if m = l then Some (running k) else holder (locks k m)))"
    "\<not> got \<Longrightarrow> k' = k"
    using k' by (auto simp: lock_take_def lock_queue_insert_def k1_def)
qed

lemma int8_id [simp]: "-128 \<le> x \<Longrightarrow> x \<le> 127 \<Longrightarrow> int8 x = x"
  by (simp add: int8_def)

lemma thread_set_priority_ok:
  assumes "kernel_ok k" and "thread_set_priority p k = Some (k', flag)" and "PRI_MIN \<le> p" and "p \<le> PRI_MAX"
  shows "kernel_ok k'" and "locks k' = locks k" and "sema_value k' = sema_value k" and "running k' = running k"
    and "idle_thread k' = idle_thread k" and "active_sched_policy k' = active_sched_policy k"
    and "elem_in (threads k' (running k)) = elem_in (threads k (running k))"
proof -
  let ?t = "running k"
  define e where "e = (if p > prio k ?t \<or> lock_queue (threads k ?t) = [] then p else prio k ?t)"
  have k': "k' = upd_thread ?t (\<lambda>th. th\<lparr>e_pri := e, b_pri := p\<rparr>) k \<or> k' = k"
    using assms(2-4) kernel_ok_current [OF assms(1)]
    by (auto simp: thread_set_priority_def e_def Let_def split: if_splits
        intro!: upd_thread_cong thread.equality)
  have e: "e \<ge> prio k ?t \<or> lock_queue (threads k ?t) = []" by (auto simp: e_def)
  have "base_ok (upd_thread ?t (\<lambda>th. th\<lparr>e_pri := e, b_pri := p\<rparr>) k)"
    by (rule base_ok_running) (use assms(1) base_ok_magic [of k] in \<open>simp_all add: kernel_ok_iff\<close>)
  moreover have "locks_ok (upd_thread ?t (\<lambda>th. th\<lparr>e_pri := e, b_pri := p\<rparr>) k)"
    using assms(1) e by (force simp: kernel_ok_iff locks_ok_def)
  ultimately show "kernel_ok k'" using k' assms(1) by (auto simp: kernel_ok_iff)
  show "locks k' = locks k" "sema_value k' = sema_value k" "running k' = running k"
    "idle_thread k' = idle_thread k" "active_sched_policy k' = active_sched_policy k"
    "elem_in (threads k' (running k)) = elem_in (threads k (running k))"
    using k' by auto
qed

section \<open>Condition variables\<close>

lemma cond_wait_enter_ok:
  assumes "kernel_ok k" and "cond_wait_enter c l k = Some k'" and "idle_thread k \<noteq> Some (running k)"
  shows "kernel_ok k'" and "same_sync k k'" and "running k' = running k"
    and "elem_in (threads k' (running k)) = Some (CondQ c)" and "holder (locks k l) = Some (running k)"
proof -
  let ?t = "running k"
  let ?xs = "insert_ordered (\<lambda>a b. prio k a > prio k b) ?t (queues k (CondQ c))"
  have k': "k' = upd_queue (CondQ c) ?xs (upd_thread ?t (elem_in_update (\<lambda>_. Some (CondQ c))) k)"
    and e: "elem_in (threads k ?t) = None" and h: "holder (locks k l) = Some ?t"
    using assms(2) by (auto simp: cond_wait_enter_def elem_insert_ordered_def link_elem_def
        lock_held_by_current_thread_def bind_eq_Some_conv)
  have "core k'" unfolding k'
    by (rule link_core [OF kernel_ok_core [OF assms(1)] e])
      (use assms(1,3) in \<open>auto simp: kernel_ok_def\<close>)
  then show "kernel_ok k'" using assms(1) k' by (auto simp: kernel_ok_def is_thread_def)
  show "same_sync k k'" "running k' = running k" "elem_in (threads k' (running k)) = Some (CondQ c)"
    "holder (locks k l) = Some (running k)"
    using k' h by auto
qed

lemma cond_wait_block_ok:
  assumes "kernel_ok k" and "cond_wait_block c k = Some k'"
    and "elem_in (threads k (running k)) \<in> {None, Some (CondQ c)}"
  shows "kernel_ok k'" and "same_sync k k'" and "elem_in (threads k' (running k')) = None"
proof -
  let ?t = "running k"
  let ?k = "upd_thread ?t (\<lambda>th. th\<lparr>queue := Some (CondQ c), status := THREAD_BLOCKED\<rparr>) k"
  have s: "schedule ?k = Some k'"
    using assms(2) by (auto simp: cond_wait_block_def thread_block_def bind_eq_Some_conv)
  have "core ?k"
    using core_thread_ok [OF kernel_ok_core [OF assms(1)], of ?t] assms(1,3)
    by (intro upd_thread_core [OF kernel_ok_core [OF assms(1)]]) (auto simp: thread_ok_def is_thread_def kernel_ok_def)
  from schedule_ok [OF this s] schedule_same [OF this s]
  show "kernel_ok k'" "same_sync k k'" "elem_in (threads k' (running k')) = None" by simp_all
qed

lemma sort_waiters_ok:
  assumes "kernel_ok k"
  shows "kernel_ok (sort_waiters c k)"
  using assms by (auto simp: sort_waiters_def kernel_ok_def core_def queues_ok_def sorted_ok_def locks_ok_def
      thread_ok_def is_thread_def)

lemma cond_pop_ok:
  assumes "kernel_ok k" and "cond_pop c k = Some (t, k')"
  shows "kernel_ok k'" and "same_sync k k'" and "running k' = running k"
    and "threads k' (running k) = threads k (running k)"
proof -
  obtain k1 where k1: "elem_pop_front (CondQ c) k = Some (t, k1)"
    and u: "thread_unblock t (upd_thread t (queue_update (\<lambda>_. None)) k1) = Some k'"
    using assms(2) by (auto simp: cond_pop_def bind_eq_Some_conv)
  let ?k1 = "upd_thread t (queue_update (\<lambda>_. None)) k1"
  note p = elem_pop_front_core [OF kernel_ok_core [OF assms(1)] k1]
  have c: "core ?k1"
    using core_thread_ok [OF p(1), of t] p(4) by (intro upd_thread_core [OF p(1)]) (auto simp: thread_ok_def is_thread_def)
  note uu = thread_unblock_core [OF c u]
  have "status (threads k t) = THREAD_BLOCKED" using uu(3) p(4) by simp
  then have t: "t \<noteq> running k" using assms(1) by (auto simp: kernel_ok_def)
  obtain xs where k': "k' = upd_queue ReadyQ xs
      (upd_thread t (\<lambda>th. th\<lparr>queue := Some ReadyQ, elem_in := Some ReadyQ, status := THREAD_READY\<rparr>) ?k1)"
    using uu(2) by blast
  show "kernel_ok k'" "same_sync k k'" "running k' = running k" "threads k' (running k) = threads k (running k)"
    using uu(1) k' t assms(1) p(4) by (auto simp: kernel_ok_def is_thread_def)
qed

lemma cond_signal_ok:
  assumes "kernel_ok k" and "cond_signal c l k = Some (k', t)"
  shows "kernel_ok k'" and "same_sync k k'" and "running k' = running k"
    and "threads k' (running k) = threads k (running k)"
proof -
  have s: "same_sync k (sort_waiters c k)" "running (sort_waiters c k) = running k"
    "threads (sort_waiters c k) = threads k"
    by (simp_all add: sort_waiters_def)
  consider "k' = k" | u where "cond_pop c (sort_waiters c k) = Some (u, k')"
    using assms(2) by (auto simp: cond_signal_def bind_eq_Some_conv split: if_splits)
  then have "kernel_ok k' \<and> same_sync k k' \<and> running k' = running k \<and>
    threads k' (running k) = threads k (running k)"
  proof cases
    case 2
    from cond_pop_ok [OF sort_waiters_ok [OF assms(1)] this] s show ?thesis
      by (auto intro: same_sync_trans)
  qed (use assms(1) in simp)
  then show "kernel_ok k'" "same_sync k k'" "running k' = running k" "threads k' (running k) = threads k (running k)"
    by auto
qed

lemma cond_broadcast_round_ok:
  assumes "kernel_ok k" and "cond_broadcast_round c flag k = Some (k', r)"
  shows "kernel_ok k'" and "same_sync k k'" and "running k' = running k"
    and "threads k' (running k) = threads k (running k)"
  using assms cond_pop_ok [OF assms(1)]
  by (auto simp: cond_broadcast_round_def bind_eq_Some_conv split: if_splits)

section \<open>Creation and end of threads\<close>

lemma init_thread_ok:
  assumes "kernel_ok k" and "init_thread t p k = Some k'" and "\<not> magic (threads k t)" and "idle_thread k \<noteq> Some t"
  shows "kernel_ok k'" and "same_sync k k'" and "running k' = running k"
    and "threads k' (running k) = threads k (running k)"
    and "elem_in (threads k' u) = elem_in (threads k u)"
proof -
  have t: "lock_queue (threads k t) = []" "elem_in (threads k t) = None" "t \<noteq> running k"
    using core_thread_ok [OF kernel_ok_core [OF assms(1)], of t] assms(1,3)
    by (auto simp: thread_ok_def kernel_ok_def is_thread_def)
  have nq: "t \<notin> set (queues k q)" for q
    using t(2) assms(1) by (simp add: kernel_ok_def core_def queues_ok_def)
  have nh: "holder (locks k l) \<noteq> Some t" for l
    using t(1) assms(1) unfolding kernel_ok_def core_def locks_ok_def by (metis empty_iff list.set(1))
  define th :: thread where "th = \<lparr>tid = 0, status = THREAD_BLOCKED, wake_up = 0, donated_for = None,
    lock_queue = [], b_pri = int8 p, e_pri = int8 p, queue = None, elem_in = None, pcb = None, magic = True\<rparr>"
  have k': "k' = upd_thread t (\<lambda>_. th) k\<lparr>all_list := all_list k @ [t]\<rparr>"
    using assms(2) by (auto simp: init_thread_def th_def Let_def)
  have th: "elem_in th = None" "lock_queue th = []" "status th = THREAD_BLOCKED" "magic th"
    by (simp_all add: th_def)
  have "thread_ok (upd_thread t (\<lambda>_. th) k) u" for u
    using core_thread_ok [OF kernel_ok_core [OF assms(1)], of u] th
    by (cases "u = t") (auto simp: thread_ok_def is_thread_def)
  moreover have "queues_ok (upd_thread t (\<lambda>_. th) k)" "sorted_ok (upd_thread t (\<lambda>_. th) k)"
    "locks_ok (upd_thread t (\<lambda>_. th) k)"
    using assms(1) th t nq nh by (simp_all add: kernel_ok_def core_def queues_ok_def sorted_ok_def locks_ok_def)
  ultimately have "kernel_ok (upd_thread t (\<lambda>_. th) k)"
    using assms(1) t(3) by (simp add: kernel_ok_def core_def is_thread_def)
  then show "kernel_ok k'" by (simp add: k')
  show "same_sync k k'" "running k' = running k" "threads k' (running k) = threads k (running k)"
    "elem_in (threads k' u) = elem_in (threads k u)"
    using t th by (auto simp: k' same_sync_def)
qed

text \<open>A thread that holds no lock and is in no list ends.\<close>

lemma end_core:
  assumes "kernel_ok k" and "elem_in (threads k (running k)) = None" and "lock_queue (threads k (running k)) = []"
    and "st \<noteq> THREAD_RUNNING"
  shows "core (upd_thread (running k) (status_update (\<lambda>_. st)) (k\<lparr>all_list := ts\<rparr>))"
proof -
  have "kernel_ok (k\<lparr>all_list := ts\<rparr>)" using assms(1) by simp
  note c = kernel_ok_core [OF this]
  show ?thesis
    using core_thread_ok [OF c, of "running k"] assms(2-4)
    by (intro upd_thread_core [OF c]) (auto simp: thread_ok_def is_thread_def)
qed

lemma thread_exit_ok:
  assumes "kernel_ok k" and "thread_exit k = Some k'"
    and "elem_in (threads k (running k)) = None" and "lock_queue (threads k (running k)) = []"
  shows "kernel_ok k'" and "same_sync k k'" and "elem_in (threads k' (running k')) = None"
proof -
  let ?k = "upd_thread (running k) (status_update (\<lambda>_. THREAD_DYING)) (k\<lparr>all_list := remove1 (running k) (all_list k)\<rparr>)"
  have s: "schedule ?k = Some k'"
    using assms(2) by (auto simp: thread_exit_def all_list_remove_def bind_eq_Some_conv)
  have c: "core ?k" by (rule end_core [OF assms(1,3,4)]) simp
  have "same_sync k ?k" by (simp add: same_sync_def)
  with schedule_ok [OF c s] schedule_same [OF c s]
  show "kernel_ok k'" "same_sync k k'" "elem_in (threads k' (running k')) = None"
    by (auto intro: same_sync_trans)
qed

end
