(* ===== verification/Steps_Inv.thy ===== *)
theory Steps_Inv
  imports Kernel_Steps Lock_Inv
begin

text \<open>
  The invariant of the transition system of \<^verbatim>\<open>Kernel_Steps\<close>, and that every step preserves it.

  Besides the invariant of the kernel state it says, for each lock, that the
  value of its semaphore, its holder, and the calls of \<^verbatim>\<open>sema_up\<close> that a releasing thread
  still has to make add up to one; that a running thread is linked into a list only
  in the middle of \<^verbatim>\<open>cond_wait\<close>; and that the idle thread runs nothing but its loop.
\<close>

section \<open>The invariant\<close>

definition token :: "kernel \<Rightarrow> nat \<Rightarrow> nat" where
  "token k l = sema_value k (LockSema l) + (if holder (locks k l) = None then 0 else 1)"

primrec pending :: "frame list \<Rightarrow> nat \<Rightarrow> nat" where
  "pending [] l = 0"
| "pending (f # fs) l = (if f = SemaUpF (LockSema l) then 1 else 0) + pending fs l"

fun next_block :: "frame list \<Rightarrow> nat option" where
  "next_block [] = None"
| "next_block (CondBlockF c # fs) = Some c"
| "next_block (f # fs) = next_block fs"

fun idle_frame :: "frame \<Rightarrow> bool" where
  "idle_frame (SemaUpF (Sema s)) = True"
| "idle_frame (YieldIfF t) = True"
| "idle_frame IdleF = True"
| "idle_frame f = False"

fun idle_only :: "frame \<Rightarrow> bool" where
  "idle_only IdleF = True"
| "idle_only (IdleStartF s) = True"
| "idle_only f = False"

definition window_ok :: "kernel \<Rightarrow> frame list \<Rightarrow> bool" where
  "window_ok k fs \<longleftrightarrow> (\<forall>c. elem_in (threads k (running k)) = Some (CondQ c) \<longrightarrow> next_block fs = Some c)"

definition idle_ok :: "config \<Rightarrow> bool" where
  "idle_ok c \<longleftrightarrow> (\<forall>i. idle_thread (kern c) = Some i \<longrightarrow>
     frames c i \<noteq> [] \<and> last (frames c i) = IdleF \<and> (\<forall>f \<in> set (frames c i). idle_frame f))"

definition tokens_ok :: "config \<Rightarrow> bool" where
  "tokens_ok c \<longleftrightarrow> (\<forall>l. \<exists>t. (\<forall>u. u \<noteq> t \<longrightarrow> pending (frames c u) l = 0) \<and>
     token (kern c) l + pending (frames c t) l = 1)"

definition start_ok :: "config \<Rightarrow> bool" where
  "start_ok c \<longleftrightarrow> (\<forall>t. (\<exists>f \<in> set (frames c t). idle_only f) \<longrightarrow>
     (\<exists>s. frames c t = [IdleStartF s]) \<or> (\<forall>f \<in> set (frames c t). idle_frame f))"

definition config_ok :: "config \<Rightarrow> bool" where
  "config_ok c \<longleftrightarrow> kernel_ok (kern c) \<and> active_sched_policy (kern c) \<in> {SCHED_FIFO, SCHED_PRIO} \<and>
     tokens_ok c \<and> window_ok (kern c) (frames c (running (kern c))) \<and> idle_ok c \<and> start_ok c"

section \<open>Every frame preserves it\<close>

lemma pending_append [simp]: "pending (fs @ gs) l = pending fs l + pending gs l"
  by (induction fs) simp_all

definition exec_pre :: "kernel \<Rightarrow> frame \<Rightarrow> frame list \<Rightarrow> bool" where
  "exec_pre k f fs \<longleftrightarrow> kernel_ok k \<and> (\<forall>l. token k l + pending (f # fs) l \<le> 1) \<and> window_ok k (f # fs) \<and>
     (idle_thread k = Some (running k) \<longrightarrow> idle_frame f) \<and> (\<forall>s. f = IdleStartF s \<longrightarrow> fs = []) \<and>
     (f = IdleF \<longrightarrow> (\<forall>g \<in> set fs. idle_frame g))"

fun exec_idle :: "frame \<Rightarrow> kernel \<Rightarrow> ptr option" where
  "exec_idle (IdleStartF s) k = Some (running k)"
| "exec_idle f k = idle_thread k"

definition exec_post :: "kernel \<Rightarrow> frame \<Rightarrow> frame list \<Rightarrow> kernel \<Rightarrow> frame list \<Rightarrow> bool" where
  "exec_post k f fs k' fs' \<longleftrightarrow> kernel_ok k' \<and> active_sched_policy k' = active_sched_policy k \<and>
     idle_thread k' = exec_idle f k \<and> (\<forall>l. token k' l + pending fs' l = token k l + pending [f] l) \<and>
     (elem_in (threads k' (running k')) = None \<or> running k' = running k \<and> window_ok k' (fs' @ fs))"

lemma token_same: "same_sync k k' \<Longrightarrow> token k' l = token k l"
  by (simp add: token_def same_sync_def)

lemma policy_same: "same_sync k k' \<Longrightarrow> active_sched_policy k' = active_sched_policy k"
  by (simp add: same_sync_def)

lemma idle_same: "same_sync k k' \<Longrightarrow> idle_thread k' = idle_thread k"
  by (simp add: same_sync_def)

lemma pending_woken [simp]: "pending (woken_frames t) l = 0"
  by (cases t) simp_all

lemma next_block_append: "next_block fs = None \<Longrightarrow> next_block (fs @ gs) = next_block gs"
  by (induction fs rule: next_block.induct) auto

lemma next_block_woken [simp]: "next_block (woken_frames t) = None"
  by (cases t) simp_all

lemma window_keep:
  assumes "window_ok k (f # fs)" and "\<And>c. f \<noteq> CondBlockF c" and "next_block fs' = None"
    and "running k' = running k" and "elem_in (threads k' (running k)) = elem_in (threads k (running k))"
  shows "window_ok k' (fs' @ fs)"
  using assms by (cases f) (auto simp: window_ok_def next_block_append)

lemma exec_SemaDown:
  assumes "exec_pre k (SemaDownF s) fs" and "exec_frame (SemaDownF s) k = Some (k', fs')"
  shows "exec_post k (SemaDownF s) fs k' fs'"
proof -
  obtain got where r: "sema_down_round (Sema s) k = Some (k', got)" and fs': "fs' = (if got then [] else [SemaDownF s])"
    using assms(2) by (auto simp: bind_eq_Some_conv)
  have pre: "kernel_ok k" "idle_thread k \<noteq> Some (running k)" "window_ok k (SemaDownF s # fs)"
    using assms(1) by (auto simp: exec_pre_def)
  note ok = sema_down_round_ok [OF pre(1) r pre(2)]
  show ?thesis
  proof (cases got)
    case True
    with ok(1) ok(2) [OF True] fs' pre(3) show ?thesis
      by (simp add: exec_post_def token_def window_ok_def)
  next
    case False
    with ok(1) ok(3) [OF False] fs' show ?thesis
      by (simp add: exec_post_def token_same policy_same idle_same)
  qed
qed

lemma exec_SemaUp:
  assumes "exec_pre k (SemaUpF s) fs" and "exec_frame (SemaUpF s) k = Some (k', fs')"
  shows "exec_post k (SemaUpF s) fs k' fs'"
proof -
  obtain t where r: "sema_up_wake s k = Some (k', t)" and fs': "fs' = woken_frames t"
    using assms(2) by (auto simp: bind_eq_Some_conv)
  have pre: "kernel_ok k" "window_ok k (SemaUpF s # fs)" "\<forall>l. token k l + pending (SemaUpF s # fs) l \<le> 1"
    using assms(1) by (simp_all add: exec_pre_def)
  note ok = sema_up_wake_ok [OF pre(1) r]
  have "token k' l = token k l + pending [SemaUpF s] l" for l
    using pre(3) [rule_format, of l] ok(2,4) by (cases s) (auto simp: token_def split: if_splits)
  moreover have "window_ok k' (fs' @ fs)"
    using window_keep [OF pre(2) _ _ ok(5)] ok(6) fs' by simp
  ultimately show ?thesis
    using ok fs' by (simp add: exec_post_def)
qed

lemma exec_switching:
  assumes "exec_pre k f fs" and "\<And>c. f \<noteq> CondBlockF c" and "exec_idle f k = idle_thread k" and "\<And>m. f \<noteq> SemaUpF (LockSema m)"
    and "kernel_ok k'" and "same_sync k k'" and "k' = k \<or> elem_in (threads k' (running k')) = None"
    and "next_block fs' = None" and "\<And>l. pending fs' l = 0"
  shows "exec_post k f fs k' fs'"
  using assms window_keep [of k f fs fs' k]
  by (auto simp: exec_post_def exec_pre_def token_same policy_same idle_same)

lemma exec_staying:
  assumes "exec_pre k f fs" and "\<And>c. f \<noteq> CondBlockF c" and "\<And>m. f \<noteq> SemaUpF (LockSema m)"
    and "kernel_ok k'" and "active_sched_policy k' = active_sched_policy k" and "idle_thread k' = exec_idle f k"
    and "running k' = running k" and "elem_in (threads k' (running k)) = elem_in (threads k (running k))"
    and "next_block fs' = None" and "\<And>l. token k' l + pending fs' l = token k l"
  shows "exec_post k f fs k' fs'"
  using assms window_keep [of k f fs fs' k']
  by (auto simp: exec_post_def exec_pre_def)

lemma exec_YieldIf:
  assumes "exec_pre k (YieldIfF t) fs" and "exec_frame (YieldIfF t) k = Some (k', fs')"
  shows "exec_post k (YieldIfF t) fs k' fs'"
proof -
  have "yield_if_outranked t k = Some k'" "fs' = []"
    using assms(2) by (auto simp: bind_eq_Some_conv)
  with yield_if_outranked_ok [of k t k'] assms(1) show ?thesis
    by (intro exec_switching) (auto simp: exec_pre_def)
qed

lemma exec_Yield:
  assumes "exec_pre k YieldF fs" and "exec_frame YieldF k = Some (k', fs')"
  shows "exec_post k YieldF fs k' fs'"
proof -
  have "thread_yield k = Some k'" "fs' = []"
    using assms(2) by (auto simp: bind_eq_Some_conv)
  with thread_yield_ok [of k k'] thread_yield_same [of k k'] assms(1) show ?thesis
    by (intro exec_switching) (auto simp: exec_pre_def)
qed

lemma exec_CreateYield:
  assumes "exec_pre k (CreateYieldF p) fs" and "exec_frame (CreateYieldF p) k = Some (k', fs')"
  shows "exec_post k (CreateYieldF p) fs k' fs'"
proof -
  have "thread_yield k = Some k' \<or> k' = k" "fs' = []"
    using assms(2) by (auto simp: bind_eq_Some_conv split: if_splits)
  with thread_yield_ok [of k k'] thread_yield_same [of k k'] assms(1) show ?thesis
    by (intro exec_switching) (auto simp: exec_pre_def)
qed

lemma exec_LockAcquire:
  assumes "exec_pre k (LockAcquireF l) fs" and "exec_frame (LockAcquireF l) k = Some (k', fs')"
  shows "exec_post k (LockAcquireF l) fs k' fs'"
proof -
  have e: "lock_acquire_enter l k = Some k'" and fs': "fs' = [LockRoundF l]"
    using assms(2) by (auto simp: bind_eq_Some_conv)
  note ok = lock_acquire_enter_ok [OF _ e]
  have "kernel_ok k" using assms(1) by (simp add: exec_pre_def)
  with assms(1) ok fs' show ?thesis
    by (intro exec_staying) (auto simp: token_def)
qed

lemma exec_LockRound:
  assumes "exec_pre k (LockRoundF l) fs" and "exec_frame (LockRoundF l) k = Some (k', fs')"
  shows "exec_post k (LockRoundF l) fs k' fs'"
proof -
  obtain got where r: "lock_acquire_round l k = Some (k', got)" and fs': "fs' = (if got then [] else [LockRoundF l])"
    using assms(2) by (auto simp: bind_eq_Some_conv)
  have pre: "kernel_ok k" "idle_thread k \<noteq> Some (running k)" "\<forall>l. token k l \<le> 1"
    using assms(1) by (auto simp: exec_pre_def intro: add_leD1)
  have "sema_value k (LockSema l) > 0 \<Longrightarrow> holder (locks k l) = None"
    using pre(3) [rule_format, of l] by (simp add: token_def split: if_splits)
  note ok = lock_acquire_round_ok [OF pre(1) r pre(2) this]
  show ?thesis
  proof (cases got)
    case True
    have free: "token k l \<le> 1" using pre(3) ..
    with assms(1) ok(1) ok(2) [OF _ True] fs' True show ?thesis
      by (intro exec_staying) (auto simp: token_def split: if_splits)
  next
    case False
    with assms(1) ok(1) ok(3) [OF _ False] fs' show ?thesis
      by (intro exec_switching) auto
  qed
qed

lemma exec_LockRelease:
  assumes "exec_pre k (LockReleaseF l) fs" and "exec_frame (LockReleaseF l) k = Some (k', fs')"
  shows "exec_post k (LockReleaseF l) fs k' fs'"
proof -
  have e: "lock_release_leave l k = Some k'" and fs': "fs' = [SemaUpF (LockSema l)]"
    using assms(2) by (auto simp: bind_eq_Some_conv)
  have "kernel_ok k" using assms(1) by (simp add: exec_pre_def)
  note ok = lock_release_leave_ok [OF this e]
  show ?thesis
    using assms(1) ok fs' by (intro exec_staying) (auto simp: token_def)
qed

lemma exec_CondWait:
  assumes "exec_pre k (CondWaitF c l) fs" and "exec_frame (CondWaitF c l) k = Some (k', fs')"
  shows "exec_post k (CondWaitF c l) fs k' fs'"
proof -
  have e: "cond_wait_enter c l k = Some k'" and fs': "fs' = [LockReleaseF l, CondBlockF c, LockAcquireF l]"
    using assms(2) by (auto simp: bind_eq_Some_conv)
  have "kernel_ok k" "idle_thread k \<noteq> Some (running k)" using assms(1) by (auto simp: exec_pre_def)
  note ok = cond_wait_enter_ok [OF this(1) e this(2)]
  show ?thesis
    using ok fs' by (simp add: exec_post_def token_same policy_same idle_same window_ok_def)
qed

lemma exec_CondBlock:
  assumes "exec_pre k (CondBlockF c) fs" and "exec_frame (CondBlockF c) k = Some (k', fs')"
  shows "exec_post k (CondBlockF c) fs k' fs'"
proof -
  have e: "cond_wait_block c k = Some k'" and fs': "fs' = []"
    using assms(2) by (auto simp: bind_eq_Some_conv)
  have pre: "kernel_ok k" "window_ok k (CondBlockF c # fs)" using assms(1) by (auto simp: exec_pre_def)
  have "elem_in (threads k (running k)) \<in> {None, Some (CondQ c)}"
    using pre elem_in_running [OF pre(1)] by (cases "elem_in (threads k (running k))") (auto simp: window_ok_def)
  note ok = cond_wait_block_ok [OF pre(1) e this]
  show ?thesis
    using ok fs' by (simp add: exec_post_def token_same policy_same idle_same)
qed

lemma exec_CondSignal:
  assumes "exec_pre k (CondSignalF c l) fs" and "exec_frame (CondSignalF c l) k = Some (k', fs')"
  shows "exec_post k (CondSignalF c l) fs k' fs'"
proof -
  obtain t where e: "cond_signal c l k = Some (k', t)" and fs': "fs' = woken_frames t"
    using assms(2) by (auto simp: bind_eq_Some_conv)
  have "kernel_ok k" using assms(1) by (simp add: exec_pre_def)
  note ok = cond_signal_ok [OF this e]
  show ?thesis
    using assms(1) ok fs' by (intro exec_staying) (auto simp: token_same policy_same idle_same)
qed

lemma exec_CondBroadcast:
  assumes "exec_pre k (CondBroadcastF c flag) fs" and "exec_frame (CondBroadcastF c flag) k = Some (k', fs')"
  shows "exec_post k (CondBroadcastF c flag) fs k' fs'"
proof -
  obtain r where e: "cond_broadcast_round c flag k = Some (k', r)"
    and fs': "fs' = (case r of Some flag' \<Rightarrow> [CondBroadcastF c flag'] | None \<Rightarrow> if flag then [YieldF] else [])"
    using assms(2) by (auto simp: bind_eq_Some_conv)
  have "kernel_ok k" using assms(1) by (simp add: exec_pre_def)
  note ok = cond_broadcast_round_ok [OF this e]
  show ?thesis
    using assms(1) ok fs'
    by (intro exec_staying) (auto simp: token_same policy_same idle_same split: option.splits)
qed

lemma kernel_ok_upd_thread:
  assumes "kernel_ok k" and "elem_in (f (threads k t)) = elem_in (threads k t)"
    and "e_pri (f (threads k t)) = e_pri (threads k t)" and "lock_queue (f (threads k t)) = lock_queue (threads k t)"
    and "status (f (threads k t)) = status (threads k t)" and "magic (f (threads k t)) = magic (threads k t)"
    and "queue (f (threads k t)) = queue (threads k t)"
  shows "kernel_ok (upd_thread t f k)"
proof -
  have "thread_ok (upd_thread t f k) t"
    using core_thread_ok [OF kernel_ok_core [OF assms(1)], of t] assms(2-) by (auto simp: thread_ok_def is_thread_def)
  then have "core (upd_thread t f k)"
    using assms by (intro upd_thread_core kernel_ok_core) simp_all
  with assms show ?thesis by (auto simp: kernel_ok_def is_thread_def)
qed

lemma exec_AllocTid:
  assumes "exec_pre k (AllocTidF t) fs" and "exec_frame (AllocTidF t) k = Some (k', fs')"
  shows "exec_post k (AllocTidF t) fs k' fs'"
proof -
  have "kernel_ok k" using assms(1) by (simp add: exec_pre_def)
  then have "kernel_ok (upd_thread t (tid_update (\<lambda>_. next_tid k)) k)"
    by (rule kernel_ok_upd_thread) simp_all
  with assms show ?thesis
    by (intro exec_staying) (auto simp: token_def)
qed

lemma exec_Unblock:
  assumes "exec_pre k (UnblockF t) fs" and "exec_frame (UnblockF t) k = Some (k', fs')"
  shows "exec_post k (UnblockF t) fs k' fs'"
proof -
  have e: "thread_unblock t k = Some k'" and fs': "fs' = []"
    using assms(2) by (auto simp: bind_eq_Some_conv)
  have ok: "kernel_ok k" using assms(1) by (simp add: exec_pre_def)
  note core = thread_unblock_core(2,3) [OF kernel_ok_core [OF ok] e]
  obtain xs where k': "k' = upd_queue ReadyQ xs
      (upd_thread t (\<lambda>th. th\<lparr>queue := Some ReadyQ, elem_in := Some ReadyQ, status := THREAD_READY\<rparr>) k)"
    using core(1) by blast
  have "t \<noteq> running k"
    using core(2) ok by (auto simp: kernel_ok_def)
  with k' assms(1) fs' thread_unblock_ok [OF ok e] thread_unblock_same [OF e] show ?thesis
    by (intro exec_staying) (auto simp: token_same policy_same idle_same)
qed

lemma exec_IdleStart:
  assumes "exec_pre k (IdleStartF s) fs" and "exec_frame (IdleStartF s) k = Some (k', fs')"
  shows "exec_post k (IdleStartF s) fs k' fs'"
proof -
  have k': "k' = k\<lparr>idle_thread := Some (running k)\<rparr>" and fs': "fs' = [SemaUpF (Sema s), IdleF]"
    using assms(2) by (auto simp: bind_eq_Some_conv)
  have pre: "kernel_ok k" "window_ok k []" using assms(1) by (auto simp: exec_pre_def window_ok_def)
  have free: "elem_in (threads k (running k)) = None"
    using pre elem_in_running [OF pre(1)] by (cases "elem_in (threads k (running k))") (auto simp: window_ok_def)
  have "thread_ok k' t" for t
    using core_thread_ok [OF kernel_ok_core [OF pre(1)], of t] free by (auto simp: thread_ok_def k' is_thread_def)
  then have "kernel_ok k'"
    using pre(1) by (simp add: k' kernel_ok_def core_def queues_ok_def sorted_ok_def locks_ok_def is_thread_def)
  with k' fs' free assms(1) show ?thesis
    by (intro exec_staying) (auto simp: token_def)
qed

lemma next_block_idle: "\<forall>f \<in> set fs. idle_frame f \<Longrightarrow> next_block fs = None"
  by (induction fs rule: next_block.induct) auto

lemma exec_Idle:
  assumes "exec_pre k IdleF fs" and "exec_frame IdleF k = Some (k', fs')"
  shows "exec_post k IdleF fs k' fs'"
proof -
  have e: "thread_block k = Some k'" and fs': "fs' = [IdleF]"
    using assms(2) by (auto simp: bind_eq_Some_conv)
  have pre: "kernel_ok k" "window_ok k (IdleF # fs)" "next_block fs = None"
    using assms(1) by (auto simp: exec_pre_def next_block_idle)
  have free: "elem_in (threads k (running k)) = None"
    using pre elem_in_running [OF pre(1)] by (cases "elem_in (threads k (running k))") (auto simp: window_ok_def)
  have "thread_ok (upd_thread (running k) (status_update (\<lambda>_. THREAD_BLOCKED)) k) (running k)"
    using core_thread_ok [OF kernel_ok_core [OF pre(1)], of "running k"] free pre(1)
    by (auto simp: thread_ok_def kernel_ok_def is_thread_def)
  then have "core (upd_thread (running k) (status_update (\<lambda>_. THREAD_BLOCKED)) k)"
    by (rule upd_thread_core [OF kernel_ok_core [OF pre(1)], rotated 3]) simp_all
  moreover have "schedule (upd_thread (running k) (status_update (\<lambda>_. THREAD_BLOCKED)) k) = Some k'"
    using e by (auto simp: thread_block_def bind_eq_Some_conv)
  ultimately have "kernel_ok k'" "same_sync k k'" "elem_in (threads k' (running k')) = None"
    using schedule_ok schedule_same by fastforce+
  with assms(1) fs' show ?thesis
    by (intro exec_switching) auto
qed

lemma exec_frame_ok:
  assumes "exec_pre k f fs" and "exec_frame f k = Some (k', fs')"
  shows "exec_post k f fs k' fs'"
  using assms
  by (cases f) (simp_all only: exec_SemaDown exec_SemaUp exec_YieldIf exec_Yield exec_LockAcquire exec_LockRound
    exec_LockRelease exec_CondWait exec_CondBlock exec_CondSignal exec_CondBroadcast exec_AllocTid exec_Unblock
    exec_CreateYield exec_IdleStart exec_Idle exec_frame.simps option.distinct)

lemma exec_frame_idle:
  assumes "exec_frame f k = Some (k', fs')"
  shows "idle_frame f \<Longrightarrow> (\<forall>g \<in> set fs'. idle_frame g) \<and> (f = IdleF \<longrightarrow> fs' = [IdleF])"
    and "\<not> idle_only f \<Longrightarrow> g \<in> set fs' \<Longrightarrow> \<not> idle_only g"
proof -
  have woken: "g \<in> set (woken_frames t) \<Longrightarrow> idle_frame g \<and> \<not> idle_only g" for g t
    by (cases t) auto
  show "idle_frame f \<Longrightarrow> (\<forall>g \<in> set fs'. idle_frame g) \<and> (f = IdleF \<longrightarrow> fs' = [IdleF])"
    using assms by (induction f rule: idle_frame.induct) (auto simp: bind_eq_Some_conv dest: woken)
  show "\<not> idle_only f \<Longrightarrow> g \<in> set fs' \<Longrightarrow> \<not> idle_only g"
  proof (cases f)
    case (CondBroadcastF v flag)
    then obtain r where "fs' = (case r of Some flag' \<Rightarrow> [CondBroadcastF v flag'] | None \<Rightarrow> if flag then [YieldF] else [])"
      using assms by (auto simp: bind_eq_Some_conv)
    then show "g \<in> set fs' \<Longrightarrow> \<not> idle_only g" by (cases r) (auto split: if_splits)
  qed (use assms in \<open>auto simp: bind_eq_Some_conv dest: woken split: if_splits\<close>)
qed

section \<open>Every step preserves it\<close>

lemma config_upd_ok:
  assumes ok: "config_ok c" and r: "r = running (kern c)"
    and "kernel_ok k'" and "active_sched_policy k' = active_sched_policy (kern c)"
    and tok: "\<And>l. token k' l + pending gs l = token (kern c) l + pending (frames c r) l"
    and win: "elem_in (threads k' (running k')) = None \<or> running k' = r \<and> window_ok k' gs"
    and idle: "idle_thread k' = idle_thread (kern c) \<or> idle_thread k' = Some r"
      "idle_thread k' = Some r \<Longrightarrow> gs \<noteq> [] \<and> last gs = IdleF \<and> (\<forall>f \<in> set gs. idle_frame f)"
    and start: "\<exists>f \<in> set gs. idle_only f \<Longrightarrow> (\<exists>s. gs = [IdleStartF s]) \<or> (\<forall>f \<in> set gs. idle_frame f)"
  shows "config_ok (c\<lparr>kern := k', frames := (frames c)(r := gs), rws := w\<rparr>)" (is "config_ok ?c")
proof -
  have "\<exists>t. (\<forall>u. u \<noteq> t \<longrightarrow> pending (frames ?c u) l = 0) \<and> token k' l + pending (frames ?c t) l = 1" for l
  proof -
    obtain t where t: "\<And>u. u \<noteq> t \<Longrightarrow> pending (frames c u) l = 0" "token (kern c) l + pending (frames c t) l = 1"
      using ok by (auto simp: config_ok_def tokens_ok_def)
    show ?thesis
    proof (cases "t = r \<or> pending (frames c t) l = 0")
      case True
      then have "pending (frames c u) l = 0" if "u \<noteq> r" for u
        using t(1) that by (cases "u = t") auto
      moreover have "token (kern c) l + pending (frames c r) l = 1"
        using True t by (cases "t = r") auto
      ultimately show ?thesis using tok [of l] by (intro exI [of _ r]) auto
    next
      case False
      with t tok [of l] show ?thesis by (intro exI [of _ t]) auto
    qed
  qed
  then have "tokens_ok ?c" by (simp add: tokens_ok_def)
  moreover have "window_ok k' (frames ?c (running k'))"
    using win by (auto simp: window_ok_def)
  moreover have "idle_ok ?c"
    using ok idle by (auto simp: config_ok_def idle_ok_def)
  moreover have "start_ok ?c"
    using ok start by (auto simp: config_ok_def start_ok_def)
  ultimately show ?thesis
    using ok assms(3,4) by (simp add: config_ok_def)
qed

lemma config_token:
  assumes "config_ok c"
  shows "token (kern c) l + pending (frames c u) l \<le> 1"
proof -
  obtain t where "\<And>u. u \<noteq> t \<Longrightarrow> pending (frames c u) l = 0" "token (kern c) l + pending (frames c t) l = 1"
    using assms by (auto simp: config_ok_def tokens_ok_def)
  then show ?thesis by (cases "u = t") auto
qed

lemma run_ok:
  assumes ok: "config_ok c" and fs: "frames c (running (kern c)) = f # fs" and e: "exec_frame f (kern c) = Some (k', fs')"
  shows "config_ok (c\<lparr>kern := k', frames := (frames c)(running (kern c) := fs' @ fs)\<rparr>)"
proof -
  let ?k = "kern c" and ?r = "running (kern c)"
  have start: "idle_only g \<Longrightarrow> g \<in> set (f # fs) \<Longrightarrow> (\<exists>s. f # fs = [IdleStartF s]) \<or> (\<forall>h \<in> set (f # fs). idle_frame h)" for g
    using ok fs by (auto simp: config_ok_def start_ok_def dest!: spec [of _ ?r])
  have idle: "idle_thread ?k = Some ?r \<Longrightarrow> last (f # fs) = IdleF \<and> (\<forall>h \<in> set (f # fs). idle_frame h)"
    using ok fs by (auto simp: config_ok_def idle_ok_def dest!: spec [of _ ?r])
  have tok: "token ?k l + pending (f # fs) l \<le> 1" for l
    using config_token [OF ok, of l ?r] fs by simp
  have "idle_frame f" if "idle_thread ?k = Some ?r"
    using idle [OF that] by simp
  moreover have "fs = []" if "f = IdleStartF s" for s
    using start [of f] that by auto
  moreover have "\<forall>g \<in> set fs. idle_frame g" if "f = IdleF"
    using start [of f] that by auto
  ultimately have "exec_pre ?k f fs"
    using ok tok fs by (simp add: exec_pre_def config_ok_def)
  then have post: "exec_post ?k f fs k' fs'" using e by (rule exec_frame_ok)
  have "config_ok (c\<lparr>kern := k', frames := (frames c)(?r := fs' @ fs), rws := rws c\<rparr>)"
  proof (rule config_upd_ok [OF ok refl])
    show "idle_thread k' = Some ?r \<Longrightarrow> fs' @ fs \<noteq> [] \<and> last (fs' @ fs) = IdleF \<and> (\<forall>f \<in> set (fs' @ fs). idle_frame f)"
    proof (cases "\<exists>s. f = IdleStartF s")
      case True
      with e start [of f] show ?thesis by (auto simp: bind_eq_Some_conv)
    next
      case False
      assume "idle_thread k' = Some ?r"
      with False post have "idle_thread ?k = Some ?r" by (cases f) (auto simp: exec_post_def)
      from idle [OF this] exec_frame_idle(1) [OF e] show ?thesis by (cases fs) auto
    qed
    show "\<exists>f \<in> set (fs' @ fs). idle_only f \<Longrightarrow>
      (\<exists>s. fs' @ fs = [IdleStartF s]) \<or> (\<forall>f \<in> set (fs' @ fs). idle_frame f)"
    proof (cases "\<exists>s. f = IdleStartF s")
      case True
      with e start [of f] show ?thesis by (auto simp: bind_eq_Some_conv)
    next
      case False
      assume "\<exists>f \<in> set (fs' @ fs). idle_only f"
      then have "\<exists>g \<in> set (f # fs). idle_only g"
        using exec_frame_idle(2) [OF e] by (cases "idle_only f") auto
      with False start have "\<forall>h \<in> set (f # fs). idle_frame h" by auto
      with exec_frame_idle(1) [OF e] show ?thesis by auto
    qed
    show "idle_thread k' = idle_thread (kern c) \<or> idle_thread k' = Some ?r"
      using post by (cases f) (auto simp: exec_post_def)
  qed (use post fs in \<open>auto simp: exec_post_def\<close>)
  then show ?thesis by simp
qed

lemma config_free:
  assumes "config_ok c" and "sema_value (kern c) (LockSema l) > 0"
  shows "holder (locks (kern c) l) = None"
  using config_token [OF assms(1), of l 0] assms(2) by (simp add: token_def split: if_splits)

lemma config_no_frames:
  assumes "config_ok c" and "frames c (running (kern c)) = []"
  shows "idle_thread (kern c) \<noteq> Some (running (kern c))"
    and "elem_in (threads (kern c) (running (kern c))) = None"
proof -
  show "idle_thread (kern c) \<noteq> Some (running (kern c))"
    using assms by (auto simp: config_ok_def idle_ok_def)
  have "kernel_ok (kern c)" "window_ok (kern c) []"
    using assms by (auto simp: config_ok_def)
  then show "elem_in (threads (kern c) (running (kern c))) = None"
    using elem_in_running by (cases "elem_in (threads (kern c) (running (kern c)))") (auto simp: window_ok_def)
qed

text \<open>Steps in which the running thread's frames become \<open>gs\<close>, none of them the idle thread's.\<close>

lemma config_push_ok:
  assumes "config_ok c" and "frames c (running (kern c)) = fs"
    and "idle_thread (kern c) \<noteq> Some (running (kern c))"
    and "\<And>l. pending gs l = pending fs l" and "next_block gs = next_block fs"
    and "\<forall>f \<in> set gs. idle_only f \<longrightarrow> False"
  shows "config_ok (c\<lparr>frames := (frames c)(running (kern c) := gs), rws := w\<rparr>)"
proof -
  have "config_ok (c\<lparr>kern := kern c, frames := (frames c)(running (kern c) := gs), rws := w\<rparr>)"
    using assms by (intro config_upd_ok) (auto simp: config_ok_def window_ok_def)
  then show ?thesis by simp
qed

lemma exec_rw_frames:
  assumes "exec_rw f w = Some (w', fs')"
  shows "pending fs' l = 0" and "next_block fs' = None" and "\<forall>g \<in> set fs'. \<not> idle_only g" and "\<not> idle_frame f"
    and "\<And>s. f \<noteq> SemaUpF s" and "\<And>v. f \<noteq> CondBlockF v" and "\<not> idle_only f"
  using assms by (induction f w rule: exec_rw.induct; auto simp: Let_def split: if_splits)+

lemma run_rw_ok:
  assumes ok: "config_ok c" and fs: "frames c (running (kern c)) = f # fs" and e: "exec_rw f (rws c) = Some (w', fs')"
  shows "config_ok (c\<lparr>frames := (frames c)(running (kern c) := fs' @ fs), rws := w'\<rparr>)"
proof -
  note f = exec_rw_frames [OF e]
  have nidle: "idle_thread (kern c) \<noteq> Some (running (kern c))"
    using ok fs f(4) by (auto simp: config_ok_def idle_ok_def)
  have "\<forall>g \<in> set fs. \<not> idle_only g"
    using ok fs f(4,7) by (auto simp: config_ok_def start_ok_def dest!: spec [of _ "running (kern c)"])
  moreover have "next_block (f # fs) = next_block fs"
    using f(6) by (cases f) auto
  ultimately have "config_ok (c\<lparr>frames := (frames c)(running (kern c) := fs' @ fs), rws := w'\<rparr>)"
    using f by (intro config_push_ok [OF ok fs nidle]) (auto simp: next_block_append)
  then show ?thesis .
qed

lemma call_ok:
  assumes "config_ok c" and "frames c (running (kern c)) = []"
  shows "config_ok (c\<lparr>frames := (frames c)(running (kern c) := api_frames c op)\<rparr>)"
proof -
  have "config_ok (c\<lparr>frames := (frames c)(running (kern c) := api_frames c op), rws := rws c\<rparr>)"
    using assms by (intro config_push_ok config_no_frames) (cases op; auto simp: rw_lock_acquire_def rw_lock_release_def)+
  then show ?thesis by simp
qed

lemma config_kern_ok:
  assumes "config_ok c" and "kernel_ok k'" and "active_sched_policy k' = active_sched_policy (kern c)"
    and "\<And>l. token k' l = token (kern c) l" and "idle_thread k' = idle_thread (kern c)"
    and "elem_in (threads k' (running k')) = None \<or>
      running k' = running (kern c) \<and> window_ok k' (frames c (running (kern c)))"
  shows "config_ok (c\<lparr>kern := k'\<rparr>)"
proof -
  have "tokens_ok (c\<lparr>kern := k'\<rparr>)" "idle_ok (c\<lparr>kern := k'\<rparr>)" "start_ok (c\<lparr>kern := k'\<rparr>)"
    using assms(1,4,5) by (simp_all add: config_ok_def tokens_ok_def idle_ok_def start_ok_def)
  moreover have "window_ok k' (frames c (running k'))"
    using assms(6) by (auto simp: window_ok_def)
  ultimately show ?thesis
    using assms(1-3) by (simp add: config_ok_def)
qed

lemma timer_ok:
  assumes "config_ok c" and "intr_handler_external timer_interrupt (kern c) = Some k'"
  shows "config_ok (c\<lparr>kern := k'\<rparr>)"
proof -
  have pre: "kernel_ok (kern c)" "active_sched_policy (kern c) \<in> {SCHED_FIFO, SCHED_PRIO}"
    using assms(1) by (auto simp: config_ok_def)
  note ok = timer_intr_ok [OF pre(1) assms(2) pre(2)]
  from ok(3) have "elem_in (threads k' (running k')) = None \<or>
      running k' = running (kern c) \<and> window_ok k' (frames c (running (kern c)))"
    using assms(1) by (auto simp: config_ok_def window_ok_def)
  then show ?thesis
    using ok by (intro config_kern_ok [OF assms(1)]) (auto simp: token_same policy_same idle_same)
qed

lemma try_acquire_ok:
  assumes "config_ok c" and "frames c (running (kern c)) = []" and "lock_try_acquire l (kern c) = Some (k', got)"
  shows "config_ok (c\<lparr>kern := k'\<rparr>)"
proof -
  have "kernel_ok (kern c)" using assms(1) by (simp add: config_ok_def)
  note ok = lock_try_acquire_ok [OF this assms(3) config_free [OF assms(1)]]
  have "token k' m = token (kern c) m" for m
    using ok(6,7) config_free [OF assms(1), of l] by (cases got) (auto simp: token_def)
  then show ?thesis
    using ok(1-5) config_no_frames [OF assms(1,2)] by (intro config_kern_ok [OF assms(1)]) auto
qed

lemma set_priority_ok:
  assumes "config_ok c" and "frames c (running (kern c)) = []" and "PRI_MIN \<le> p" and "p \<le> PRI_MAX"
    and "thread_set_priority p (kern c) = Some (k', flag)"
  shows "config_ok (c\<lparr>kern := k', frames := (frames c)(running (kern c) := if flag then [YieldF] else [])\<rparr>)"
proof -
  have "kernel_ok (kern c)" using assms(1) by (simp add: config_ok_def)
  note ok = thread_set_priority_ok [OF this assms(5,3,4)]
  have "config_ok (c\<lparr>kern := k', frames := (frames c)(running (kern c) := if flag then [YieldF] else []), rws := rws c\<rparr>)"
    using ok config_no_frames [OF assms(1,2)] assms(2)
    by (intro config_upd_ok [OF assms(1)]) (auto simp: token_def split: if_splits)
  then show ?thesis by simp
qed

lemma timer_sleep_ok:
  assumes "kernel_ok k" and "timer_sleep n k = Some k'" and "idle_thread k \<noteq> Some (running k)"
  shows "kernel_ok k'" and "same_sync k k'" and "elem_in (threads k' (running k')) = None"
proof -
  let ?k = "upd_thread (running k) (wake_up_update (\<lambda>_. ticks k + n)) k"
  obtain k1 where e: "elem_insert_ordered SleepQ (wake_up_before (less_sleep ?k)) (running ?k) ?k = Some k1"
      "thread_block (upd_thread (running ?k) (queue_update (\<lambda>_. Some SleepQ)) k1) = Some k'"
    using assms(2) by (auto simp: timer_sleep_def Let_def bind_eq_Some_conv)
  have "kernel_ok ?k"
    using assms(1) by (rule kernel_ok_upd_thread) simp_all
  from insert_and_block_ok [OF this e] assms(3)
  show "kernel_ok k'" and "same_sync k k'" and "elem_in (threads k' (running k')) = None"
    by simp_all
qed

lemma config_switch_ok:
  assumes "config_ok c" and "kernel_ok k'" and "same_sync (kern c) k'" and "elem_in (threads k' (running k')) = None"
  shows "config_ok (c\<lparr>kern := k'\<rparr>)"
  using assms by (intro config_kern_ok [OF assms(1)]) (auto simp: token_same policy_same idle_same)

lemma sleep_ok:
  assumes "config_ok c" and "frames c (running (kern c)) = []" and "timer_sleep n (kern c) = Some k'"
  shows "config_ok (c\<lparr>kern := k'\<rparr>)"
proof -
  have "kernel_ok (kern c)" using assms(1) by (simp add: config_ok_def)
  from timer_sleep_ok [OF this assms(3) config_no_frames(1) [OF assms(1,2)]] show ?thesis
    by (rule config_switch_ok [OF assms(1)])
qed

lemma exit_ok:
  assumes "config_ok c" and "frames c (running (kern c)) = []"
    and "lock_queue (threads (kern c) (running (kern c))) = []" and "thread_exit (kern c) = Some k'"
  shows "config_ok (c\<lparr>kern := k'\<rparr>)"
proof -
  have "kernel_ok (kern c)" using assms(1) by (simp add: config_ok_def)
  from thread_exit_ok [OF this assms(4) config_no_frames(2) [OF assms(1,2)] assms(3)] show ?thesis
    by (rule config_switch_ok [OF assms(1)])
qed

lemma config_fresh_ok:
  assumes ok: "config_ok c" and "frames c t = []" and body: "body = [] \<or> body = [IdleStartF s]"
    and "idle_thread (kern c) \<noteq> Some t" and "t \<noteq> running (kern c)"
  shows "config_ok (c\<lparr>frames := (frames c)(t := body)\<rparr>)"
proof -
  let ?c = "c\<lparr>frames := (frames c)(t := body)\<rparr>"
  have "pending (frames ?c u) l = pending (frames c u) l" for u l
    using assms(2,3) by auto
  then have "tokens_ok ?c" using ok by (simp add: config_ok_def tokens_ok_def del: config.simps)
  moreover have "idle_ok ?c" using ok assms(4) by (auto simp: config_ok_def idle_ok_def)
  moreover have "start_ok ?c" using ok body by (auto simp: config_ok_def start_ok_def)
  ultimately show ?thesis
    using ok assms(5) by (simp add: config_ok_def)
qed

lemma create_ok:
  assumes ok: "config_ok c" and r: "frames c (running (kern c)) = []" and t: "\<not> magic (threads (kern c) t)"
    "idle_thread (kern c) \<noteq> Some t" "frames c t = []" and body: "body = [] \<or> body = [IdleStartF s]"
    and c': "thread_create t p body c = Some c'"
  shows "config_ok c'"
proof -
  let ?r = "running (kern c)" and ?c1 = "c\<lparr>frames := (frames c)(t := body)\<rparr>"
  let ?gs = "[LockAcquireF tid_lock, AllocTidF t, LockReleaseF tid_lock, UnblockF t, CreateYieldF p]"
  obtain k where k: "init_thread t p (kern c) = Some k" and c'_eq: "c' = c\<lparr>kern := k, frames := (frames c)(t := body, ?r := ?gs)\<rparr>"
    using c' r by (auto simp: thread_create_def bind_eq_Some_conv)
  have kok: "kernel_ok (kern c)" using ok by (simp add: config_ok_def)
  note init = init_thread_ok [OF kok k t(1,2)]
  have tr: "t \<noteq> ?r" using kok t(1) by (auto simp: kernel_ok_def is_thread_def)
  have c1: "config_ok ?c1" using config_fresh_ok [OF ok t(3) body t(2) tr] .
  have "config_ok (?c1\<lparr>kern := k, frames := (frames ?c1)(?r := ?gs), rws := rws c\<rparr>)"
    using init config_no_frames [OF ok r] r tr
    by (intro config_upd_ok [OF c1]) (auto simp: token_same policy_same idle_same)
  then show ?thesis by (simp add: c'_eq)
qed

lemma step_config_ok: "step c c' \<Longrightarrow> config_ok c \<Longrightarrow> config_ok c'"
proof (induction rule: step.induct)
  case (create c t body s p c')
  then show ?case by (intro create_ok [of c t body s p c'])
qed (simp_all only: run_ok run_rw_ok timer_ok call_ok try_acquire_ok set_priority_ok sleep_ok exit_ok)

lemma steps_config_ok: "step\<^sup>*\<^sup>* c c' \<Longrightarrow> config_ok c \<Longrightarrow> config_ok c'"
  by (induction rule: rtranclp_induct) (auto intro: step_config_ok)

lemma thread_init_ok:
  assumes "thread_init policy v w main = Some c" and "policy \<in> {SCHED_FIFO, SCHED_PRIO}"
  shows "config_ok c"
proof -
  let ?th = "\<lparr>tid = 0, status = THREAD_RUNNING, wake_up = 0, donated_for = None, lock_queue = [],
     b_pri = 31, e_pri = 31, queue = None, elem_in = None, pcb = None, magic = True\<rparr>"
  have main: "main \<noteq> NULL" and c: "rws c = w"
    "frames c = (\<lambda>_. [])(main := [LockAcquireF tid_lock, AllocTidF main, LockReleaseF tid_lock])"
    and k: "threads (kern c) = (\<lambda>_. no_thread)(main := ?th)" "\<And>l. holder (locks (kern c) l) = None"
    "running (kern c) = main" "\<And>q. queues (kern c) q = []" "idle_thread (kern c) = None"
    "\<And>l. sema_value (kern c) (LockSema l) = 1" "active_sched_policy (kern c) = policy"
    using assms(1) by (auto simp: thread_init_def Let_def init_thread_def bind_eq_Some_conv boot_kernel_def
      lock_init_def sema_init_def upd_queue_def upd_lock_def upd_thread_def running_thread_def int8_def)
  have "kernel_ok (kern c)"
    using main by (simp add: kernel_ok_def core_def queues_ok_def thread_ok_def sorted_ok_def locks_ok_def is_thread_def
      k no_thread_def)
  moreover have "tokens_ok c" by (simp add: tokens_ok_def token_def k c)
  moreover have "window_ok (kern c) fs" for fs by (simp add: window_ok_def k)
  ultimately show ?thesis
    using assms(2) by (auto simp: config_ok_def idle_ok_def start_ok_def k c)
qed

end
