(* ===== verification/Kernel_List.thy ===== *)
theory Kernel_List
  imports Pintos_Prelude
begin

text \<open>
  The kernel's doubly linked lists (\<^verbatim>\<open>lib/kernel/list.c\<close>, \<^verbatim>\<open>list.h\<close>), at the level of
  the pointers the C code writes. The store maps the address of every
  \<^verbatim>\<open>struct list_elem\<close> to its two links; the operations are the source's pointer
  assignments with its assertions, and the loops are partial functions. The
  relation \<open>is_list h l xs\<close> says that the store holds a well-formed list \<open>l\<close> whose
  interior elements are \<open>xs\<close>, in order. Every operation is shown to return and to
  refine the operation on \<open>xs\<close>, and to leave every cell it does not name alone.
\<close>

section \<open>The store\<close>

record list_elem =
  le_prev :: ptr
  le_next :: ptr

type_synonym lheap = "ptr \<Rightarrow> list_elem"

definition set_prev :: "ptr \<Rightarrow> ptr \<Rightarrow> lheap \<Rightarrow> lheap" where
  "set_prev p v h = h(p := (h p)\<lparr>le_prev := v\<rparr>)"

definition set_next :: "ptr \<Rightarrow> ptr \<Rightarrow> lheap \<Rightarrow> lheap" where
  "set_next p v h = h(p := (h p)\<lparr>le_next := v\<rparr>)"

text \<open>A \<^verbatim>\<open>struct list\<close> at \<open>l\<close> is its two header elements, eight bytes each.\<close>

definition list_head :: "ptr \<Rightarrow> ptr" where
  "list_head l = l"

definition list_tail :: "ptr \<Rightarrow> ptr" where
  "list_tail l = l + 8"

definition list_end :: "ptr \<Rightarrow> ptr" where
  "list_end l = list_tail l"

definition list_rend :: "ptr \<Rightarrow> ptr" where
  "list_rend l = list_head l"

definition is_head :: "ptr \<Rightarrow> lheap \<Rightarrow> bool" where
  "is_head e h \<longleftrightarrow> e \<noteq> NULL \<and> le_prev (h e) = NULL \<and> le_next (h e) \<noteq> NULL"

definition is_interior :: "ptr \<Rightarrow> lheap \<Rightarrow> bool" where
  "is_interior e h \<longleftrightarrow> e \<noteq> NULL \<and> le_prev (h e) \<noteq> NULL \<and> le_next (h e) \<noteq> NULL"

definition is_tail :: "ptr \<Rightarrow> lheap \<Rightarrow> bool" where
  "is_tail e h \<longleftrightarrow> e \<noteq> NULL \<and> le_prev (h e) \<noteq> NULL \<and> le_next (h e) = NULL"

section \<open>Operations\<close>

definition list_init :: "ptr \<Rightarrow> lheap \<Rightarrow> lheap option" where
  "list_init l h = do {
     ASSERT (l \<noteq> NULL);
     let h = set_prev (list_head l) NULL h;
     let h = set_next (list_head l) (list_tail l) h;
     let h = set_prev (list_tail l) (list_head l) h;
     Some (set_next (list_tail l) NULL h)
   }"

definition list_begin :: "ptr \<Rightarrow> lheap \<Rightarrow> ptr option" where
  "list_begin l h = do { ASSERT (l \<noteq> NULL); Some (le_next (h (list_head l))) }"

definition list_rbegin :: "ptr \<Rightarrow> lheap \<Rightarrow> ptr option" where
  "list_rbegin l h = do { ASSERT (l \<noteq> NULL); Some (le_prev (h (list_tail l))) }"

definition list_next :: "ptr \<Rightarrow> lheap \<Rightarrow> ptr option" where
  "list_next e h = do { ASSERT (is_head e h \<or> is_interior e h); Some (le_next (h e)) }"

definition list_prev :: "ptr \<Rightarrow> lheap \<Rightarrow> ptr option" where
  "list_prev e h = do { ASSERT (is_interior e h \<or> is_tail e h); Some (le_prev (h e)) }"

definition list_empty :: "ptr \<Rightarrow> lheap \<Rightarrow> bool option" where
  "list_empty l h = do { b \<leftarrow> list_begin l h; Some (b = list_end l) }"

definition list_insert :: "ptr \<Rightarrow> ptr \<Rightarrow> lheap \<Rightarrow> lheap option" where
  "list_insert before elem h = do {
     ASSERT (is_interior before h \<or> is_tail before h);
     ASSERT (elem \<noteq> NULL);
     let h = set_prev elem (le_prev (h before)) h;
     let h = set_next elem before h;
     let h = set_next (le_prev (h before)) elem h;
     Some (set_prev before elem h)
   }"

definition list_splice :: "ptr \<Rightarrow> ptr \<Rightarrow> ptr \<Rightarrow> lheap \<Rightarrow> lheap option" where
  "list_splice before first lst h = do {
     ASSERT (is_interior before h \<or> is_tail before h);
     if first = lst then Some h
     else do {
       lst \<leftarrow> list_prev lst h;
       ASSERT (is_interior first h);
       ASSERT (is_interior lst h);
       let h = set_next (le_prev (h first)) (le_next (h lst)) h;
       let h = set_prev (le_next (h lst)) (le_prev (h first)) h;
       let h = set_prev first (le_prev (h before)) h;
       let h = set_next lst before h;
       let h = set_next (le_prev (h before)) first h;
       Some (set_prev before lst h)
     }
   }"

definition list_push_front :: "ptr \<Rightarrow> ptr \<Rightarrow> lheap \<Rightarrow> lheap option" where
  "list_push_front l elem h = do { b \<leftarrow> list_begin l h; list_insert b elem h }"

definition list_push_back :: "ptr \<Rightarrow> ptr \<Rightarrow> lheap \<Rightarrow> lheap option" where
  "list_push_back l elem h = list_insert (list_end l) elem h"

definition list_remove :: "ptr \<Rightarrow> lheap \<Rightarrow> (ptr \<times> lheap) option" where
  "list_remove e h = do {
     ASSERT (is_interior e h);
     let h = set_next (le_prev (h e)) (le_next (h e)) h;
     let h = set_prev (le_next (h e)) (le_prev (h e)) h;
     Some (le_next (h e), h)
   }"

definition list_front :: "ptr \<Rightarrow> lheap \<Rightarrow> ptr option" where
  "list_front l h = do {
     b \<leftarrow> list_empty l h;
     ASSERT (\<not> b);
     Some (le_next (h (list_head l)))
   }"

definition list_back :: "ptr \<Rightarrow> lheap \<Rightarrow> ptr option" where
  "list_back l h = do {
     b \<leftarrow> list_empty l h;
     ASSERT (\<not> b);
     Some (le_prev (h (list_tail l)))
   }"

definition list_pop_front :: "ptr \<Rightarrow> lheap \<Rightarrow> (ptr \<times> lheap) option" where
  "list_pop_front l h = do {
     front \<leftarrow> list_front l h;
     (_, h) \<leftarrow> list_remove front h;
     Some (front, h)
   }"

definition list_pop_back :: "ptr \<Rightarrow> lheap \<Rightarrow> (ptr \<times> lheap) option" where
  "list_pop_back l h = do {
     back \<leftarrow> list_back l h;
     (_, h) \<leftarrow> list_remove back h;
     Some (back, h)
   }"

text \<open>
  The loops over a list. Each is the source's \<^verbatim>\<open>for\<close> or \<^verbatim>\<open>while\<close>, with the loop
  variables as arguments.
\<close>

partial_function (option) list_size_loop :: "ptr \<Rightarrow> ptr \<Rightarrow> nat \<Rightarrow> lheap \<Rightarrow> nat option" where
  "list_size_loop l e cnt h =
     (if e \<noteq> list_end l then do {
        e' \<leftarrow> list_next e h;
        list_size_loop l e' (cnt + 1) h
      } else Some cnt)"

definition list_size :: "ptr \<Rightarrow> lheap \<Rightarrow> nat option" where
  "list_size l h = do { e \<leftarrow> list_begin l h; list_size_loop l e 0 h }"

partial_function (option) list_insert_ordered_loop ::
  "(ptr \<Rightarrow> ptr \<Rightarrow> bool) \<Rightarrow> ptr \<Rightarrow> ptr \<Rightarrow> ptr \<Rightarrow> lheap \<Rightarrow> lheap option" where
  "list_insert_ordered_loop lessf l elem e h =
     (if e \<noteq> list_end l then
        if lessf elem e then list_insert e elem h
        else do {
          e' \<leftarrow> list_next e h;
          list_insert_ordered_loop lessf l elem e' h
        }
      else list_insert e elem h)"

definition list_insert_ordered ::
  "(ptr \<Rightarrow> ptr \<Rightarrow> bool) \<Rightarrow> ptr \<Rightarrow> ptr \<Rightarrow> lheap \<Rightarrow> lheap option" where
  "list_insert_ordered lessf l elem h = do {
     ASSERT (l \<noteq> NULL);
     ASSERT (elem \<noteq> NULL);
     e \<leftarrow> list_begin l h;
     list_insert_ordered_loop lessf l elem e h
   }"

section \<open>Well-formed lists\<close>

definition link :: "lheap \<Rightarrow> ptr \<Rightarrow> ptr \<Rightarrow> bool" where
  "link h p q \<longleftrightarrow> le_next (h p) = q \<and> le_prev (h q) = p"

definition nodes :: "ptr \<Rightarrow> ptr list \<Rightarrow> ptr list" where
  "nodes l xs = list_head l # xs @ [list_tail l]"

definition is_list :: "lheap \<Rightarrow> ptr \<Rightarrow> ptr list \<Rightarrow> bool" where
  "is_list h l xs \<longleftrightarrow>
     le_prev (h (list_head l)) = NULL \<and> le_next (h (list_tail l)) = NULL \<and>
     successively (link h) (nodes l xs) \<and> distinct (nodes l xs) \<and> NULL \<notin> set (nodes l xs)"

lemma set_next_simps [simp]:
  "le_next (set_next p v h q) = (if q = p then v else le_next (h q))"
  "le_prev (set_next p v h q) = le_prev (h q)"
  by (simp_all add: set_next_def)

lemma set_prev_simps [simp]:
  "le_prev (set_prev p v h q) = (if q = p then v else le_prev (h q))"
  "le_next (set_prev p v h q) = le_next (h q)"
  by (simp_all add: set_prev_def)

lemma set_link_other [simp]:
  "q \<noteq> p \<Longrightarrow> set_next p v h q = h q"
  "q \<noteq> p \<Longrightarrow> set_prev p v h q = h q"
  by (simp_all add: set_next_def set_prev_def)

text \<open>
  A segment survives every update that keeps the forward links of all but its
  last node and the backward links of all but its first.
\<close>

lemma successively_link_frame:
  assumes "successively (link h) xs"
    and "\<And>a. a \<in> set (butlast xs) \<Longrightarrow> le_next (h' a) = le_next (h a)"
    and "\<And>a. a \<in> set (tl xs) \<Longrightarrow> le_prev (h' a) = le_prev (h a)"
  shows "successively (link h') xs"
  using assms
proof (induction xs rule: induct_list012)
  case (3 x y zs)
  then show ?case
    by (cases zs) (auto simp: link_def)
qed simp_all

lemma is_list_split:
  assumes "is_list h l (xs @ ys)"
  obtains p q where "p = last (list_head l # xs)" and "q = hd (ys @ [list_tail l])"
    and "link h p q" and "p \<noteq> q" and "p \<noteq> NULL" and "q \<noteq> NULL"
    and "successively (link h) (list_head l # xs)" and "successively (link h) (ys @ [list_tail l])"
    and "p \<notin> set (butlast (list_head l # xs))" and "p \<notin> set (ys @ [list_tail l])"
    and "q \<notin> set (list_head l # xs)" and "q \<notin> set (tl (ys @ [list_tail l]))"
    and "p \<in> set (list_head l # xs)" and "q \<in> set (ys @ [list_tail l])"
proof -
  define as bs where "as = list_head l # xs" and "bs = ys @ [list_tail l]"
  have n: "nodes l (xs @ ys) = as @ bs" and ne: "as \<noteq> []" "bs \<noteq> []"
    by (simp_all add: nodes_def as_def bs_def)
  from assms have s: "successively (link h) (as @ bs)" and d: "distinct (as @ bs)"
    and z: "NULL \<notin> set (as @ bs)"
    unfolding is_list_def n by blast+
  from s ne have s': "link h (last as) (hd bs)" "successively (link h) as" "successively (link h) bs"
    by (auto simp: successively_append_iff)
  from ne have mem: "last as \<in> set as" "hd bs \<in> set bs"
    by simp_all
  from d have disj: "set as \<inter> set bs = {}" and d': "distinct as" "distinct bs"
    by simp_all
  from mem disj have x: "last as \<notin> set bs" "hd bs \<notin> set as" "last as \<noteq> hd bs"
    by (metis disjoint_iff)+
  from mem z have n0: "last as \<noteq> NULL" "hd bs \<noteq> NULL"
    by (metis Un_iff set_append)+
  show thesis
    by (rule that [OF refl refl, folded as_def bs_def, OF s'(1) x(3) n0 s'(2,3)
          last_notin_butlast [OF d'(1) ne(1)] x(1,2) hd_notin_tl [OF d'(2) ne(2)] mem])
qed

definition unchanged_outside :: "ptr set \<Rightarrow> lheap \<Rightarrow> lheap \<Rightarrow> bool" where
  "unchanged_outside S h h' \<longleftrightarrow> (\<forall>a. a \<notin> S \<longrightarrow> h' a = h a)"

lemma unchanged_outside_refl [simp, intro]: "unchanged_outside S h h"
  by (simp add: unchanged_outside_def)

lemma unchanged_outside_trans:
  "unchanged_outside S h h' \<Longrightarrow> unchanged_outside S h' h'' \<Longrightarrow> unchanged_outside S h h''"
  by (simp add: unchanged_outside_def)

lemma unchanged_outside_mono:
  "unchanged_outside S h h' \<Longrightarrow> S \<subseteq> T \<Longrightarrow> unchanged_outside T h h'"
  by (auto simp: unchanged_outside_def)

lemma unchanged_outside_set [simp, intro]:
  "p \<in> S \<Longrightarrow> unchanged_outside S h h' \<Longrightarrow> unchanged_outside S h (set_next p v h')"
  "p \<in> S \<Longrightarrow> unchanged_outside S h h' \<Longrightarrow> unchanged_outside S h (set_prev p v h')"
  by (auto simp: unchanged_outside_def set_next_def set_prev_def)

text \<open>A list none of whose nodes is written is still the same list.\<close>

lemma is_list_frame:
  assumes "is_list h l xs" and "unchanged_outside S h h'" and "set (nodes l xs) \<inter> S = {}"
  shows "is_list h' l xs"
proof -
  have same: "h' a = h a" if "a \<in> set (nodes l xs)" for a
    using assms(2,3) that by (auto simp: unchanged_outside_def)
  have "successively (link h') (nodes l xs)"
  proof (rule successively_link_frame [of h])
    show "successively (link h) (nodes l xs)"
      using assms(1) by (simp add: is_list_def)
  qed (auto simp: same dest: in_set_butlastD in_set_tlD)
  then show ?thesis
    using assms(1) same by (simp add: is_list_def nodes_def)
qed

lemma is_list_ends:
  assumes "is_list h l xs"
  shows "l \<noteq> NULL" and "le_next (h (list_head l)) = hd (xs @ [list_tail l])"
    and "le_prev (h (list_tail l)) = last (list_head l # xs)"
    and "le_prev (h (list_head l)) = NULL" and "le_next (h (list_tail l)) = NULL"
    and "distinct xs" and "NULL \<notin> set xs" and "list_tail l \<notin> set xs" and "list_head l \<notin> set xs"
    and "list_head l \<noteq> NULL" and "list_tail l \<noteq> NULL"
proof -
  have "is_list h l ([] @ xs)" using assms by simp
  then show "le_next (h (list_head l)) = hd (xs @ [list_tail l])"
    by (rule is_list_split) (simp add: link_def)
  have "is_list h l (xs @ [])" using assms by simp
  then show "le_prev (h (list_tail l)) = last (list_head l # xs)"
    by (rule is_list_split) (simp add: link_def)
  show "le_prev (h (list_head l)) = NULL" and "le_next (h (list_tail l)) = NULL"
    using assms by (simp_all add: is_list_def)
  have d: "distinct (nodes l xs)" and z: "NULL \<notin> set (nodes l xs)"
    using assms by (simp_all add: is_list_def)
  from d show "distinct xs" and "list_tail l \<notin> set xs" and "list_head l \<notin> set xs"
    by (simp_all add: nodes_def)
  from z show "NULL \<notin> set xs" and "list_head l \<noteq> NULL" and "list_tail l \<noteq> NULL" and "l \<noteq> NULL"
    by (simp_all add: nodes_def list_head_def)
qed

text \<open>Every interior element passes the interior check, the tail is a tail.\<close>

lemma is_list_interior:
  assumes "is_list h l (xs @ x # ys)"
  shows "is_interior x h" and "le_next (h x) = hd (ys @ [list_tail l])"
    and "le_prev (h x) = last (list_head l # xs)"
proof -
  have 1: "link h (last (list_head l # xs)) x \<and> last (list_head l # xs) \<noteq> NULL \<and> x \<noteq> NULL"
    using assms by (rule is_list_split) simp
  have "is_list h l ((xs @ [x]) @ ys)" using assms by simp
  then have 2: "link h x (hd (ys @ [list_tail l])) \<and> hd (ys @ [list_tail l]) \<noteq> NULL"
    by (rule is_list_split) simp
  show "is_interior x h" and "le_next (h x) = hd (ys @ [list_tail l])"
    and "le_prev (h x) = last (list_head l # xs)"
    using 1 2 by (simp_all only: is_interior_def link_def) simp
qed

lemma is_list_tail:
  assumes "is_list h l xs"
  shows "is_tail (list_tail l) h"
proof -
  have "is_list h l (xs @ [])" using assms by simp
  then have "link h (last (list_head l # xs)) (list_tail l) \<and> last (list_head l # xs) \<noteq> NULL"
    by (rule is_list_split) simp
  then show ?thesis
    using is_list_ends(5,11) [OF assms] by (simp add: is_tail_def link_def)
qed

lemma is_list_before:
  assumes "is_list h l (xs @ ys)"
  shows "is_interior (hd (ys @ [list_tail l])) h \<or> is_tail (hd (ys @ [list_tail l])) h"
proof (cases ys)
  case Nil
  with is_list_tail [OF assms] show ?thesis by simp
next
  case (Cons y zs)
  with is_list_interior(1) [of h l xs y zs] assms show ?thesis by simp
qed

section \<open>Insertion and removal\<close>

lemma list_insert_spec:
  assumes l: "is_list h l (xs @ ys)" and e: "elem \<notin> set (nodes l (xs @ ys))" "elem \<noteq> NULL"
  shows "\<exists>h'. list_insert (hd (ys @ [list_tail l])) elem h = Some h' \<and>
    is_list h' l (xs @ elem # ys) \<and>
    unchanged_outside (insert elem (set (nodes l (xs @ ys)))) h h'"
proof -
  define as bs where "as = list_head l # xs" and "bs = ys @ [list_tail l]"
  have n: "nodes l (xs @ ys) = as @ bs" "nodes l (xs @ elem # ys) = as @ elem # bs"
    and ne: "as \<noteq> []" "bs \<noteq> []"
    by (simp_all add: nodes_def as_def bs_def)
  obtain p q where p: "p = last as" "p \<in> set as" "p \<notin> set (butlast as)" "p \<notin> set bs"
    and q: "q = hd bs" "q \<in> set bs" "q \<notin> set (tl bs)" "q \<notin> set as" and pq: "link h p q" "p \<noteq> q"
    and s: "successively (link h) as" "successively (link h) bs"
    using is_list_split [OF l] unfolding as_def bs_def by metis
  define h' where "h' = set_prev q elem (set_next p elem (set_next elem q (set_prev elem p h)))"
  from e n have e': "elem \<notin> set as" "elem \<notin> set bs"
    by auto
  have "list_insert q elem h = Some h'"
    using is_list_before [OF l] e e' q pq
    by (auto simp: list_insert_def h'_def link_def Let_def bs_def)
  moreover have "is_list h' l (xs @ elem # ys)"
  proof -
    have "successively (link h') as"
      using s(1) by (rule successively_link_frame)
        (use e' p q in \<open>auto simp: h'_def dest: in_set_butlastD in_set_tlD\<close>)
    moreover have "successively (link h') bs"
      using s(2) by (rule successively_link_frame)
        (use e' p q in \<open>auto simp: h'_def dest: in_set_butlastD in_set_tlD\<close>)
    moreover have "link h' p elem" and "link h' elem q"
      using e' p q pq by (auto simp: h'_def link_def)
    ultimately have "successively (link h') (as @ elem # bs)"
      using ne p q by (auto simp: successively_append_iff successively_Cons)
    moreover have "distinct (as @ elem # bs)" and "NULL \<notin> set (as @ elem # bs)"
      using l e e' n by (auto simp: is_list_def)
    moreover have "le_prev (h' (list_head l)) = NULL" and "le_next (h' (list_tail l)) = NULL"
      using is_list_ends(4,5) [OF l] e' p q unfolding h'_def
      by (auto simp: as_def bs_def)
    ultimately show ?thesis
      unfolding is_list_def n by blast
  qed
  moreover have "unchanged_outside (insert elem (set (nodes l (xs @ ys)))) h h'"
    using p q unfolding h'_def n by auto
  ultimately show ?thesis
    by (simp add: q(1) bs_def)
qed

lemma list_remove_spec:
  assumes l: "is_list h l (xs @ x # ys)"
  shows "\<exists>h'. list_remove x h = Some (hd (ys @ [list_tail l]), h') \<and>
    is_list h' l (xs @ ys) \<and> h' x = h x \<and>
    unchanged_outside (set (nodes l (xs @ ys))) h h'"
proof -
  define as bs where "as = list_head l # xs" and "bs = ys @ [list_tail l]"
  have n: "nodes l (xs @ x # ys) = as @ x # bs" "nodes l (xs @ ys) = as @ bs"
    and ne: "as \<noteq> []" "bs \<noteq> []"
    by (simp_all add: nodes_def as_def bs_def)
  define p q where "p = last as" and "q = hd bs"
  from l have s: "successively (link h) (as @ x # bs)" and d: "distinct (as @ x # bs)"
    and z: "NULL \<notin> set (as @ x # bs)"
    unfolding is_list_def n by blast+
  have p: "p \<in> set as" "p \<notin> set (butlast as)" and q: "q \<in> set bs" "q \<notin> set (tl bs)"
    using ne d by (simp_all add: p_def q_def last_notin_butlast hd_notin_tl)
  from d p(1) q(1) have pqx: "p \<notin> set bs" "q \<notin> set as" "x \<notin> set as" "x \<notin> set bs" "p \<noteq> x" "q \<noteq> x" "p \<noteq> q"
    by auto
  have x: "is_interior x h" "le_next (h x) = q" "le_prev (h x) = p"
    using is_list_interior [OF l] by (simp_all add: p_def q_def as_def bs_def)
  define h' where "h' = set_prev q p (set_next p q h)"
  have "list_remove x h = Some (q, h')"
    using x pqx by (simp add: list_remove_def h'_def)
  moreover have "is_list h' l (xs @ ys)"
  proof -
    have "successively (link h) as" and "successively (link h) bs"
      using s ne by (auto simp: successively_append_iff successively_Cons)
    then have "successively (link h') as" and "successively (link h') bs"
      using p q pqx by (auto elim!: successively_link_frame simp: h'_def dest: in_set_butlastD in_set_tlD)
    moreover have "link h' (last as) (hd bs)"
      using pqx by (simp add: h'_def link_def flip: p_def q_def)
    ultimately have "successively (link h') (as @ bs)"
      by (simp add: successively_append_iff)
    moreover have "distinct (as @ bs)" and "NULL \<notin> set (as @ bs)"
      using d z by auto
    moreover have "le_prev (h' (list_head l)) = NULL" and "le_next (h' (list_tail l)) = NULL"
      using is_list_ends(4,5) [OF l] pqx unfolding h'_def
      by (auto simp: as_def bs_def)
    ultimately show ?thesis
      unfolding is_list_def n by blast
  qed
  moreover have "unchanged_outside (set (nodes l (xs @ ys))) h h'" and "h' x = h x"
    using p q pqx unfolding h'_def n by auto
  ultimately show ?thesis
    by (simp add: q_def bs_def)
qed

text \<open>Moving \<open>ms\<close> in front of \<open>as\<close> within one list, which is what merging needs.\<close>

lemma list_splice_spec:
  assumes l: "is_list h l (pre @ as @ ms @ post)" and ne: "as \<noteq> []" "ms \<noteq> []"
  shows "\<exists>h'. list_splice (hd as) (hd ms) (hd (post @ [list_tail l])) h = Some h' \<and>
    is_list h' l (pre @ ms @ as @ post) \<and>
    unchanged_outside (set (nodes l (pre @ as @ ms @ post))) h h'"
proof -
  define a b where "a = list_head l # pre" and "b = post @ [list_tail l]"
  have n: "nodes l (pre @ as @ ms @ post) = a @ as @ ms @ b"
    "nodes l (pre @ ms @ as @ post) = a @ ms @ as @ b" and ne': "a \<noteq> []" "b \<noteq> []"
    by (simp_all add: nodes_def a_def b_def)
  from l have s: "successively (link h) (a @ as @ ms @ b)" and d: "distinct (a @ as @ ms @ b)"
    and z: "NULL \<notin> set (a @ as @ ms @ b)"
    unfolding is_list_def n by blast+
  define u v p f k r where "u = last a" and "v = hd as" and "p = last as" and "f = hd ms"
    and "k = last ms" and "r = hd b"
  note ends = u_def v_def p_def f_def k_def r_def
  have mem: "u \<in> set a" "v \<in> set as" "p \<in> set as" "f \<in> set ms" "k \<in> set ms" "r \<in> set b"
    using ne ne' by (simp_all add: ends)
  have fst: "v \<notin> set (tl as)" "f \<notin> set (tl ms)" "r \<notin> set (tl b)"
    and lst: "u \<notin> set (butlast a)" "p \<notin> set (butlast as)" "k \<notin> set (butlast ms)"
    using ne ne' d by (simp_all add: ends hd_notin_tl last_notin_butlast)
  have disj: "set a \<inter> set as = {}" "set a \<inter> set ms = {}" "set a \<inter> set b = {}"
    "set as \<inter> set ms = {}" "set as \<inter> set b = {}" "set ms \<inter> set b = {}"
    using d by auto
  have nz: "NULL \<notin> set a" "NULL \<notin> set as" "NULL \<notin> set ms" "NULL \<notin> set b"
    using z by auto
  have sg: "successively (link h) a" "successively (link h) as" "successively (link h) ms"
    "successively (link h) b" and lk: "link h u v" "link h p f" "link h k r"
    using s ne ne' by (auto simp: successively_append_iff ends)
  have nm: "u \<notin> set as" "u \<notin> set ms" "u \<notin> set b" "v \<notin> set a" "v \<notin> set ms" "v \<notin> set b"
    "p \<notin> set a" "p \<notin> set ms" "p \<notin> set b" "f \<notin> set a" "f \<notin> set as" "f \<notin> set b"
    "k \<notin> set a" "k \<notin> set as" "k \<notin> set b" "r \<notin> set a" "r \<notin> set as" "r \<notin> set ms"
    using mem disj by (metis disjoint_iff)+
  have neqs: "u \<noteq> v" "u \<noteq> p" "u \<noteq> f" "u \<noteq> k" "u \<noteq> r" "v \<noteq> f" "v \<noteq> k" "v \<noteq> r" "p \<noteq> f" "p \<noteq> k" "p \<noteq> r"
    "f \<noteq> r" "k \<noteq> r"
    using mem disj by (metis disjoint_iff)+
  define h' where "h' = set_prev v k (set_next u f (set_next k v (set_prev f u (set_prev r p (set_next p r h)))))"
  have int: "is_interior v h" "is_interior f h" "is_interior k h"
  proof -
    have "is_list h l (pre @ v # (tl as @ ms @ post))" "is_list h l ((pre @ as) @ f # (tl ms @ post))"
      "is_list h l ((pre @ as @ butlast ms) @ k # post)"
      using l ne by (simp_all add: ends)
    then show "is_interior v h" "is_interior f h" "is_interior k h"
      by (blast dest: is_list_interior(1))+
  qed
  have prv: "list_prev r h = Some k"
    using is_list_before [of h l "pre @ as @ ms" post] l lk
    by (simp add: list_prev_def link_def r_def b_def)
  have "list_splice v f r h = Some h'"
    using int prv lk neqs by (simp add: list_splice_def h'_def link_def)
  moreover have "is_list h' l (pre @ ms @ as @ post)"
  proof -
    have "successively (link h') a" "successively (link h') as" "successively (link h') ms"
      "successively (link h') b"
      using sg fst lst nm
      by (auto elim!: successively_link_frame simp: h'_def dest: in_set_butlastD in_set_tlD)
    moreover have "link h' u f" "link h' k v" "link h' p r"
      using neqs by (auto simp: h'_def link_def)
    ultimately have "successively (link h') (a @ ms @ as @ b)"
      using ne ne' by (simp add: successively_append_iff flip: ends)
    moreover have "distinct (a @ ms @ as @ b)" and "NULL \<notin> set (a @ ms @ as @ b)"
      using d z by auto
    moreover have "le_prev (h' (list_head l)) = NULL" and "le_next (h' (list_tail l)) = NULL"
      using is_list_ends(4,5) [OF l] mem disj unfolding h'_def
      by (auto simp: a_def b_def)
    ultimately show ?thesis
      unfolding is_list_def n by blast
  qed
  moreover have "unchanged_outside (set (nodes l (pre @ as @ ms @ post))) h h'"
    using mem unfolding h'_def n by auto
  ultimately show ?thesis
    by (simp add: ends b_def)
qed

section \<open>The derived operations\<close>

lemma list_init_spec:
  assumes "l \<noteq> NULL"
  shows "\<exists>h'. list_init l h = Some h' \<and> is_list h' l [] \<and>
    unchanged_outside {list_head l, list_tail l} h h'"
proof -
  let ?h = "set_next (list_tail l) NULL (set_prev (list_tail l) (list_head l)
    (set_next (list_head l) (list_tail l) (set_prev (list_head l) NULL h)))"
  have "list_head l \<noteq> list_tail l"
    by (simp add: list_head_def list_tail_def)
  then have "is_list ?h l []"
    using assms by (simp add: is_list_def nodes_def link_def list_head_def list_tail_def)
  then show ?thesis
    using assms by (intro exI [of _ ?h]) (simp add: list_init_def Let_def)
qed

lemma list_begin_spec [simp]:
  "is_list h l xs \<Longrightarrow> list_begin l h = Some (hd (xs @ [list_tail l]))"
  by (simp add: list_begin_def is_list_ends)

lemma list_rbegin_spec: "is_list h l xs \<Longrightarrow> list_rbegin l h = Some (last (list_head l # xs))"
  by (simp add: list_rbegin_def is_list_ends)

lemma list_empty_spec [simp]: "is_list h l xs \<Longrightarrow> list_empty l h = Some (xs = [])"
  using is_list_ends(8) [of h l xs]
  by (cases xs) (auto simp: list_empty_def list_end_def)

lemma list_next_spec:
  "is_list h l (xs @ x # ys) \<Longrightarrow> list_next x h = Some (hd (ys @ [list_tail l]))"
  by (simp add: list_next_def is_list_interior)

lemma list_front_spec: "is_list h l (x # xs) \<Longrightarrow> list_front l h = Some x"
  using is_list_ends(2) [of h l "x # xs"] by (simp add: list_front_def)

lemma list_back_spec: "is_list h l (xs @ [x]) \<Longrightarrow> list_back l h = Some x"
  using is_list_ends(3) [of h l "xs @ [x]"] by (simp add: list_back_def)

lemma list_front_empty: "is_list h l [] \<Longrightarrow> list_front l h = None"
  by (simp add: list_front_def)

lemma list_push_front_spec:
  assumes "is_list h l xs" and "elem \<notin> set (nodes l xs)" and "elem \<noteq> NULL"
  shows "\<exists>h'. list_push_front l elem h = Some h' \<and> is_list h' l (elem # xs) \<and>
    unchanged_outside (insert elem (set (nodes l xs))) h h'"
  using list_insert_spec [of h l "[]" xs elem] assms
  by (auto simp: list_push_front_def)

lemma list_push_back_spec:
  assumes "is_list h l xs" and "elem \<notin> set (nodes l xs)" and "elem \<noteq> NULL"
  shows "\<exists>h'. list_push_back l elem h = Some h' \<and> is_list h' l (xs @ [elem]) \<and>
    unchanged_outside (insert elem (set (nodes l xs))) h h'"
  using list_insert_spec [of h l xs "[]" elem] assms
  by (auto simp: list_push_back_def list_end_def)

lemma list_pop_front_spec:
  assumes "is_list h l (x # xs)"
  shows "\<exists>h'. list_pop_front l h = Some (x, h') \<and> is_list h' l xs \<and> h' x = h x \<and>
    unchanged_outside (set (nodes l xs)) h h'"
  using list_remove_spec [of h l "[]" x xs] list_front_spec [OF assms] assms
  by (auto simp: list_pop_front_def)

lemma list_pop_back_spec:
  assumes "is_list h l (xs @ [x])"
  shows "\<exists>h'. list_pop_back l h = Some (x, h') \<and> is_list h' l xs \<and> h' x = h x \<and>
    unchanged_outside (set (nodes l xs)) h h'"
  using list_remove_spec [of h l xs x "[]"] list_back_spec [OF assms] assms
  by (auto simp: list_pop_back_def)

lemma list_pop_front_empty: "is_list h l [] \<Longrightarrow> list_pop_front l h = None"
  by (simp add: list_pop_front_def list_front_empty)

lemma list_size_loop_spec:
  "is_list h l (xs @ ys) \<Longrightarrow>
   list_size_loop l (hd (ys @ [list_tail l])) cnt h = Some (cnt + length ys)"
proof (induction ys arbitrary: xs cnt)
  case Nil
  then show ?case
    by (simp add: list_size_loop.simps list_end_def)
next
  case (Cons y ys)
  have "y \<noteq> list_tail l"
    using is_list_ends(8) [OF Cons.prems] by auto
  moreover have "list_next y h = Some (hd (ys @ [list_tail l]))"
    using Cons.prems by (rule list_next_spec)
  moreover have "list_size_loop l (hd (ys @ [list_tail l])) (cnt + 1) h = Some (cnt + 1 + length ys)"
    using Cons.prems by (intro Cons.IH [of "xs @ [y]"]) simp
  ultimately show ?case
    by (simp add: list_size_loop.simps [of l y] list_end_def)
qed

lemma list_size_spec: "is_list h l xs \<Longrightarrow> list_size l h = Some (length xs)"
  using list_size_loop_spec [of h l "[]" xs 0] by (simp add: list_size_def)

lemma list_insert_ordered_loop_spec:
  assumes "is_list h l (xs @ ys)" and "elem \<notin> set (nodes l (xs @ ys))" and "elem \<noteq> NULL"
  shows "\<exists>h'. list_insert_ordered_loop lessf l elem (hd (ys @ [list_tail l])) h = Some h' \<and>
    is_list h' l (xs @ insert_ordered lessf elem ys) \<and>
    unchanged_outside (insert elem (set (nodes l (xs @ ys)))) h h'"
  using assms
proof (induction ys arbitrary: xs)
  case Nil
  then obtain h' where "list_insert (list_tail l) elem h = Some h'"
    and "is_list h' l (xs @ [elem])" and "unchanged_outside (insert elem (set (nodes l xs))) h h'"
    using list_insert_spec [of h l xs "[]" elem] by auto
  then show ?case
    by (simp add: list_insert_ordered_loop.simps list_end_def)
next
  case (Cons y ys)
  have y: "y \<noteq> list_end l"
    using is_list_ends(8) [OF Cons.prems(1)] by (auto simp: list_end_def)
  show ?case
  proof (cases "lessf elem y")
    case True
    from list_insert_spec [OF Cons.prems] y True show ?thesis
      by (auto simp: list_insert_ordered_loop.simps [of lessf l elem y])
  next
    case False
    have "list_next y h = Some (hd (ys @ [list_tail l]))"
      using Cons.prems(1) by (rule list_next_spec)
    then show ?thesis
      using Cons.IH [of "xs @ [y]"] Cons.prems y False
      by (simp add: list_insert_ordered_loop.simps [of lessf l elem y])
  qed
qed

lemma list_insert_ordered_spec:
  assumes "is_list h l xs" and "elem \<notin> set (nodes l xs)" and "elem \<noteq> NULL"
  shows "\<exists>h'. list_insert_ordered lessf l elem h = Some h' \<and>
    is_list h' l (insert_ordered lessf elem xs) \<and>
    unchanged_outside (insert elem (set (nodes l xs))) h h'"
  using list_insert_ordered_loop_spec [of h l "[]" xs elem lessf] assms is_list_ends(1) [OF assms(1)]
  by (auto simp: list_insert_ordered_def)

end
