(* ===== verification/Kernel_List_Sort.thy ===== *)
theory Kernel_List_Sort
  imports Kernel_List
begin

text \<open>
  The natural merge sort of \<^verbatim>\<open>lib/kernel/list.c\<close>, with its helpers \<^verbatim>\<open>is_sorted\<close>,
  \<^verbatim>\<open>find_end_of_run\<close> and \<^verbatim>\<open>inplace_merge\<close>, and the other traversals of the file. The
  pointer code is refined to functions on sequences; those are shown to sort,
  to keep the elements and to be stable for every comparison that meets the
  contract of \<^verbatim>\<open>list_less_func\<close>.
\<close>

section \<open>The pointer code\<close>

partial_function (option) is_sorted_loop ::
  "(ptr \<Rightarrow> ptr \<Rightarrow> bool) \<Rightarrow> ptr \<Rightarrow> ptr \<Rightarrow> lheap \<Rightarrow> bool option" where
  "is_sorted_loop lessf a b h = do {
     a \<leftarrow> list_next a h;
     if a \<noteq> b then do {
       p \<leftarrow> list_prev a h;
       if lessf a p then Some False else is_sorted_loop lessf a b h
     } else Some True
   }"

definition list_is_sorted :: "(ptr \<Rightarrow> ptr \<Rightarrow> bool) \<Rightarrow> ptr \<Rightarrow> ptr \<Rightarrow> lheap \<Rightarrow> bool option" where
  "list_is_sorted lessf a b h = (if a \<noteq> b then is_sorted_loop lessf a b h else Some True)"

partial_function (option) find_end_of_run_loop ::
  "(ptr \<Rightarrow> ptr \<Rightarrow> bool) \<Rightarrow> ptr \<Rightarrow> ptr \<Rightarrow> lheap \<Rightarrow> ptr option" where
  "find_end_of_run_loop lessf a b h = do {
     a \<leftarrow> list_next a h;
     if a \<noteq> b then do {
       p \<leftarrow> list_prev a h;
       if \<not> lessf a p then find_end_of_run_loop lessf a b h else Some a
     } else Some a
   }"

definition find_end_of_run :: "(ptr \<Rightarrow> ptr \<Rightarrow> bool) \<Rightarrow> ptr \<Rightarrow> ptr \<Rightarrow> lheap \<Rightarrow> ptr option" where
  "find_end_of_run lessf a b h = do {
     ASSERT (a \<noteq> NULL);
     ASSERT (b \<noteq> NULL);
     ASSERT (a \<noteq> b);
     find_end_of_run_loop lessf a b h
   }"

partial_function (option) inplace_merge_loop ::
  "(ptr \<Rightarrow> ptr \<Rightarrow> bool) \<Rightarrow> ptr \<Rightarrow> ptr \<Rightarrow> ptr \<Rightarrow> lheap \<Rightarrow> lheap option" where
  "inplace_merge_loop lessf a0 a1b0 b1 h =
     (if a0 \<noteq> a1b0 \<and> a1b0 \<noteq> b1 then
        if \<not> lessf a1b0 a0 then do {
          a0 \<leftarrow> list_next a0 h;
          inplace_merge_loop lessf a0 a1b0 b1 h
        } else do {
          a1b0 \<leftarrow> list_next a1b0 h;
          p \<leftarrow> list_prev a1b0 h;
          h \<leftarrow> list_splice a0 p a1b0 h;
          inplace_merge_loop lessf a0 a1b0 b1 h
        }
      else Some h)"

definition inplace_merge ::
  "(ptr \<Rightarrow> ptr \<Rightarrow> bool) \<Rightarrow> ptr \<Rightarrow> ptr \<Rightarrow> ptr \<Rightarrow> lheap \<Rightarrow> lheap option" where
  "inplace_merge lessf a0 a1b0 b1 h = do {
     ASSERT (a0 \<noteq> NULL);
     ASSERT (a1b0 \<noteq> NULL);
     ASSERT (b1 \<noteq> NULL);
     s1 \<leftarrow> list_is_sorted lessf a0 a1b0 h;
     ASSERT s1;
     s2 \<leftarrow> list_is_sorted lessf a1b0 b1 h;
     ASSERT s2;
     inplace_merge_loop lessf a0 a1b0 b1 h
   }"

text \<open>One pass of the outer loop: merge neighbouring runs, counting the output runs.\<close>

partial_function (option) list_sort_pass ::
  "(ptr \<Rightarrow> ptr \<Rightarrow> bool) \<Rightarrow> ptr \<Rightarrow> ptr \<Rightarrow> nat \<Rightarrow> lheap \<Rightarrow> (nat \<times> lheap) option" where
  "list_sort_pass lessf l a0 output_run_cnt h =
     (if a0 \<noteq> list_end l then do {
        a1b0 \<leftarrow> find_end_of_run lessf a0 (list_end l) h;
        if a1b0 = list_end l then Some (output_run_cnt + 1, h)
        else do {
          b1 \<leftarrow> find_end_of_run lessf a1b0 (list_end l) h;
          h \<leftarrow> inplace_merge lessf a0 a1b0 b1 h;
          list_sort_pass lessf l b1 (output_run_cnt + 1) h
        }
      } else Some (output_run_cnt, h))"

partial_function (option) list_sort :: "(ptr \<Rightarrow> ptr \<Rightarrow> bool) \<Rightarrow> ptr \<Rightarrow> lheap \<Rightarrow> lheap option" where
  "list_sort lessf l h = do {
     ASSERT (l \<noteq> NULL);
     a0 \<leftarrow> list_begin l h;
     (output_run_cnt, h) \<leftarrow> list_sort_pass lessf l a0 0 h;
     if output_run_cnt > 1 then list_sort lessf l h
     else do {
       b \<leftarrow> list_begin l h;
       s \<leftarrow> list_is_sorted lessf b (list_end l) h;
       ASSERT s;
       Some h
     }
   }"

section \<open>The sequences it computes\<close>

text \<open>\<open>nless\<close> relates neighbours of which the right one is not less than the left.\<close>

abbreviation (input) nless :: "('a \<Rightarrow> 'a \<Rightarrow> bool) \<Rightarrow> 'a \<Rightarrow> 'a \<Rightarrow> bool" where
  "nless lessf \<equiv> \<lambda>a b. \<not> lessf b a"

fun take_run :: "('a \<Rightarrow> 'a \<Rightarrow> bool) \<Rightarrow> 'a \<Rightarrow> 'a list \<Rightarrow> 'a list" where
  "take_run lessf x [] = []"
| "take_run lessf x (y # ys) = (if lessf y x then [] else y # take_run lessf y ys)"

fun drop_run :: "('a \<Rightarrow> 'a \<Rightarrow> bool) \<Rightarrow> 'a \<Rightarrow> 'a list \<Rightarrow> 'a list" where
  "drop_run lessf x [] = []"
| "drop_run lessf x (y # ys) = (if lessf y x then y # ys else drop_run lessf y ys)"

lemma take_drop_run [simp]: "take_run lessf x ys @ drop_run lessf x ys = ys"
  by (induction ys arbitrary: x) auto

lemma length_drop_run [termination_simp]: "length (drop_run lessf x ys) \<le> length ys"
  by (induction ys arbitrary: x) (auto intro: le_SucI)

lemma successively_take_run: "successively (nless lessf) (x # take_run lessf x ys)"
  by (induction ys arbitrary: x) auto

fun merge_runs :: "('a \<Rightarrow> 'a \<Rightarrow> bool) \<Rightarrow> 'a list \<Rightarrow> 'a list \<Rightarrow> 'a list" where
  "merge_runs lessf [] bs = bs"
| "merge_runs lessf (a # as) [] = a # as"
| "merge_runs lessf (a # as) (b # bs) =
     (if \<not> lessf b a then a # merge_runs lessf as (b # bs) else b # merge_runs lessf (a # as) bs)"

lemma mset_merge_runs [simp]: "mset (merge_runs lessf as bs) = mset as + mset bs"
  by (induction lessf as bs rule: merge_runs.induct) auto

lemma set_merge_runs [simp]: "set (merge_runs lessf as bs) = set as \<union> set bs"
  by (induction lessf as bs rule: merge_runs.induct) auto

function sort_pass :: "('a \<Rightarrow> 'a \<Rightarrow> bool) \<Rightarrow> 'a list \<Rightarrow> nat \<times> 'a list" where
  "sort_pass lessf [] = (0, [])"
| "sort_pass lessf (x # xs) =
     (case drop_run lessf x xs of
        [] \<Rightarrow> (1, x # xs)
      | y # ys \<Rightarrow>
          (let (c, zs) = sort_pass lessf (drop_run lessf y ys)
           in (c + 1, merge_runs lessf (x # take_run lessf x xs) (y # take_run lessf y ys) @ zs)))"
  by pat_completeness auto
termination
proof (relation "measure (\<lambda>(_, xs). length xs)")
  fix lessf and x :: 'a and xs y ys
  assume "drop_run lessf x xs = y # ys"
  then have "length ys < length xs"
    using length_drop_run [of lessf x xs] by simp
  then show "((lessf, drop_run lessf y ys), lessf, x # xs) \<in> measure (\<lambda>(_, xs). length xs)"
    using length_drop_run [of lessf y ys] by simp
qed simp

fun runs :: "('a \<Rightarrow> 'a \<Rightarrow> bool) \<Rightarrow> 'a list \<Rightarrow> nat" where
  "runs lessf [] = 0"
| "runs lessf [x] = 1"
| "runs lessf (x # y # ys) = (if lessf y x then 1 else 0) + runs lessf (y # ys)"

lemma mset_sort_pass: "mset (snd (sort_pass lessf xs)) = mset xs"
proof (induction lessf xs rule: sort_pass.induct)
  case (2 lessf x xs)
  show ?case
  proof (cases "drop_run lessf x xs")
    case Nil
    then show ?thesis by simp
  next
    case (Cons y ys)
    have "mset xs = mset (take_run lessf x xs) + mset (y # ys)"
      by (metis Cons mset_append take_drop_run)
    moreover have "mset ys = mset (take_run lessf y ys) + mset (drop_run lessf y ys)"
      by (metis mset_append take_drop_run)
    ultimately show ?thesis
      using "2.IH" [OF Cons] Cons by (simp add: case_prod_beta Let_def)
  qed
qed simp

lemma runs_drop_run: "runs lessf (x # xs) = 1 + runs lessf (drop_run lessf x xs)"
  by (induction xs arbitrary: x) auto

lemma sort_pass_count: "2 * fst (sort_pass lessf xs) \<le> runs lessf xs + 1"
proof (induction lessf xs rule: sort_pass.induct)
  case (2 lessf x xs)
  show ?case
  proof (cases "drop_run lessf x xs")
    case Nil
    then show ?thesis by (simp add: runs_drop_run)
  next
    case (Cons y ys)
    then show ?thesis
      using "2.IH" [OF Cons] by (simp add: runs_drop_run case_prod_beta Let_def)
  qed
qed simp

lemma runs_append: "runs lessf (as @ bs) \<le> runs lessf as + runs lessf bs"
proof (induction lessf as rule: runs.induct)
  case (2 lessf x)
  then show ?case by (cases bs) auto
qed auto

lemma runs_le_1: "runs lessf xs \<le> 1 \<longleftrightarrow> successively (nless lessf) xs"
proof (induction lessf xs rule: runs.induct)
  case (3 lessf x y ys)
  have "0 < runs lessf (y # ys)"
    by (simp add: runs_drop_run)
  with 3 show ?case by auto
qed simp_all

section \<open>Comparisons that meet the contract of list\_less\_func\<close>

text \<open>
  \<^verbatim>\<open>list_less_func\<close> returns true iff its first argument is less than its second: a
  strict weak order.
\<close>

locale list_less =
  fixes lessf :: "'a \<Rightarrow> 'a \<Rightarrow> bool"
  assumes less_asym: "lessf a b \<Longrightarrow> \<not> lessf b a"
    and not_less_trans: "\<not> lessf b a \<Longrightarrow> \<not> lessf c b \<Longrightarrow> \<not> lessf c a"
begin

lemma transp_nless: "transp (nless lessf)"
  by (rule transpI) (rule not_less_trans)

lemma sorted_iff: "successively (nless lessf) xs \<longleftrightarrow> sorted_wrt (nless lessf) xs"
  by (rule successively_conv_sorted_wrt [OF transp_nless])

lemma less_le_trans': "lessf b a \<Longrightarrow> \<not> lessf x a \<Longrightarrow> \<not> lessf x b"
  using less_asym not_less_trans by blast

lemma sorted_merge_runs:
  "sorted_wrt (nless lessf) as \<Longrightarrow> sorted_wrt (nless lessf) bs \<Longrightarrow>
   sorted_wrt (nless lessf) (merge_runs lessf as bs)"
proof (induction lessf\<equiv>lessf as bs rule: merge_runs.induct)
  case (3 a as b bs)
  show ?case
  proof (cases "lessf b a")
    case True
    have "\<not> lessf e b" if "e \<in> set (a # as)" for e
      using "3.prems"(1) that less_le_trans' [OF True] less_asym [OF True] by auto
    with 3 True show ?thesis by auto
  next
    case False
    have "\<not> lessf e a" if "e \<in> set (b # bs)" for e
      using "3.prems"(2) that not_less_trans [OF False] False by auto
    with 3 False show ?thesis by auto
  qed
qed auto

lemma sorted_run: "sorted_wrt (nless lessf) (x # take_run lessf x ys)"
  using successively_take_run [of lessf x ys] by (simp only: sorted_iff)

lemma stable_merge_runs:
  "sorted_wrt (nless lessf) as \<Longrightarrow> sorted_wrt (nless lessf) bs \<Longrightarrow>
   filter (\<lambda>e. \<not> lessf e c \<and> \<not> lessf c e) (merge_runs lessf as bs) =
   filter (\<lambda>e. \<not> lessf e c \<and> \<not> lessf c e) as @ filter (\<lambda>e. \<not> lessf e c \<and> \<not> lessf c e) bs"
proof (induction lessf\<equiv>lessf as bs rule: merge_runs.induct)
  case (3 a as b bs)
  show ?case
  proof (cases "lessf b a")
    case True
    have "filter (\<lambda>e. \<not> lessf e c \<and> \<not> lessf c e) (a # as) = []" if c: "\<not> lessf b c" "\<not> lessf c b"
    proof -
      have "lessf c e" if "e \<in> set (a # as)" for e
        using True c(1) "3.prems"(1) that not_less_trans by (cases "e = a") (auto, blast+)
      then show ?thesis
        by (simp add: filter_empty_conv)
    qed
    with 3 True show ?thesis by auto
  next
    case False
    with 3 show ?thesis by simp
  qed
qed auto

lemma sort_pass_runs: "runs lessf (snd (sort_pass lessf xs)) \<le> fst (sort_pass lessf xs)"
proof (induction lessf\<equiv>lessf xs rule: sort_pass.induct)
  case (2 x xs)
  show ?case
  proof (cases "drop_run lessf x xs")
    case Nil
    then show ?thesis by (simp add: runs_drop_run)
  next
    case (Cons y ys)
    let ?m = "merge_runs lessf (x # take_run lessf x xs) (y # take_run lessf y ys)"
    have "successively (nless lessf) ?m"
      unfolding sorted_iff by (intro sorted_merge_runs sorted_run)
    then have "runs lessf ?m \<le> 1"
      by (simp only: runs_le_1)
    then show ?thesis
      using "2.hyps" [OF Cons] Cons runs_append [of lessf ?m "snd (sort_pass lessf (drop_run lessf y ys))"]
      by (simp add: case_prod_beta Let_def)
  qed
qed simp

lemma sort_pass_stable:
  "filter (\<lambda>e. \<not> lessf e c \<and> \<not> lessf c e) (snd (sort_pass lessf xs)) =
   filter (\<lambda>e. \<not> lessf e c \<and> \<not> lessf c e) xs"
proof (induction lessf\<equiv>lessf xs rule: sort_pass.induct)
  case (2 x xs)
  let ?F = "filter (\<lambda>e. \<not> lessf e c \<and> \<not> lessf c e)"
  show ?case
  proof (cases "drop_run lessf x xs")
    case Nil
    then show ?thesis by simp
  next
    case (Cons y ys)
    let ?as = "x # take_run lessf x xs" and ?bs = "y # take_run lessf y ys"
    have "?F (merge_runs lessf ?as ?bs) = ?F ?as @ ?F ?bs"
      by (intro stable_merge_runs sorted_run)
    then have "?F (snd (sort_pass lessf (x # xs))) = ?F (?as @ ?bs @ drop_run lessf y ys)"
      using "2.hyps" [OF Cons] Cons
      by (simp add: case_prod_beta Let_def del: merge_runs.simps take_drop_run)
    also have "?as @ ?bs @ drop_run lessf y ys = x # xs"
      using take_drop_run [of lessf x xs] Cons by simp
    finally show ?thesis .
  qed
qed simp

end

section \<open>The pointer code computes these sequences\<close>

lemma set_nodes: "set (nodes l xs) = insert (list_head l) (insert (list_tail l) (set xs))"
  by (auto simp: nodes_def)

lemma list_prev_spec:
  assumes "is_list h l (xs @ ys)"
  shows "list_prev (hd (ys @ [list_tail l])) h = Some (last (list_head l # xs))"
proof -
  have "le_prev (h (hd (ys @ [list_tail l]))) = last (list_head l # xs)"
    using assms by (rule is_list_split) (simp add: link_def)
  with is_list_before [OF assms] show ?thesis
    by (simp add: list_prev_def)
qed

lemma is_list_hd_post:
  assumes "is_list h l (pre @ ms @ post)"
  shows "hd (post @ [list_tail l]) \<notin> set ms" and "hd (post @ [list_tail l]) \<noteq> NULL"
  using is_list_ends(6,7,8,11) [OF assms] by (cases post; auto)+

lemma is_sorted_loop_spec:
  "is_list h l (pre @ (x # ms) @ post) \<Longrightarrow>
   is_sorted_loop lessf x (hd (post @ [list_tail l])) h = Some (successively (nless lessf) (x # ms))"
proof (induction ms arbitrary: pre x)
  case Nil
  then show ?case
    using list_next_spec [of h l pre x post] by (simp add: is_sorted_loop.simps)
next
  case (Cons y ms)
  have "is_list h l ((pre @ [x]) @ y # ms @ post)" using Cons.prems by simp
  then show ?case
    using Cons.IH [of "pre @ [x]" y] list_next_spec [of h l pre x "y # ms @ post"] Cons.prems
      list_prev_spec [of h l "pre @ [x]" "y # ms @ post"] is_list_hd_post(1) [of h l pre "x # y # ms" post]
    by (subst is_sorted_loop.simps) auto
qed

lemma list_is_sorted_spec:
  assumes "is_list h l (pre @ ms @ post)"
  shows "list_is_sorted lessf (hd (ms @ post @ [list_tail l])) (hd (post @ [list_tail l])) h =
    Some (successively (nless lessf) ms)"
  using assms is_sorted_loop_spec [of h l pre _ _ post lessf] is_list_hd_post(1) [OF assms]
  by (cases ms) (auto simp: list_is_sorted_def)

lemma find_end_of_run_loop_spec:
  "is_list h l (pre @ x # xs) \<Longrightarrow>
   find_end_of_run_loop lessf x (list_tail l) h = Some (hd (drop_run lessf x xs @ [list_tail l]))"
proof (induction xs arbitrary: pre x)
  case Nil
  then show ?case
    using list_next_spec [of h l pre x "[]"] by (simp add: find_end_of_run_loop.simps)
next
  case (Cons y xs)
  have "is_list h l ((pre @ [x]) @ y # xs)" using Cons.prems by simp
  then show ?case
    using Cons.IH [of "pre @ [x]" y] list_next_spec [of h l pre x "y # xs"] Cons.prems
      list_prev_spec [of h l "pre @ [x]" "y # xs"] is_list_ends(8) [OF Cons.prems]
    by (subst find_end_of_run_loop.simps) auto
qed

lemma find_end_of_run_spec:
  assumes "is_list h l (pre @ x # xs)"
  shows "find_end_of_run lessf x (list_tail l) h = Some (hd (drop_run lessf x xs @ [list_tail l]))"
  using find_end_of_run_loop_spec [OF assms, of lessf] is_list_ends(7,8,11) [OF assms]
  by (auto simp: find_end_of_run_def)

lemma inplace_merge_loop_spec:
  "is_list h l (pre @ as @ bs @ post) \<Longrightarrow>
   \<exists>h'. inplace_merge_loop lessf (hd (as @ bs @ post @ [list_tail l])) (hd (bs @ post @ [list_tail l]))
       (hd (post @ [list_tail l])) h = Some h' \<and>
     is_list h' l (pre @ merge_runs lessf as bs @ post) \<and>
     unchanged_outside (set (nodes l (pre @ as @ bs @ post))) h h'"
proof (induction lessf as bs arbitrary: pre h rule: merge_runs.induct)
  case (3 lessf a as b bs)
  have l: "is_list h l ((pre @ a # as) @ b # bs @ post)" using "3.prems" by simp
  have ne: "a \<noteq> b" "b \<noteq> hd (post @ [list_tail l])"
    using is_list_ends(6) [OF l] is_list_hd_post(1) [of h l "pre @ a # as" "b # bs" post] l by auto
  show ?case
  proof (cases "lessf b a")
    case False
    with "3.IH"(1) [of h "pre @ [a]"] "3.prems" ne list_next_spec [of h l pre a "as @ b # bs @ post"]
    show ?thesis by (subst inplace_merge_loop.simps) simp
  next
    case True
    let ?n = "hd (bs @ post @ [list_tail l])"
    have "list_next b h = Some ?n" "list_prev ?n h = Some b"
      using l list_next_spec [of h l "pre @ a # as" b "bs @ post"]
        list_prev_spec [of h l "pre @ a # as @ [b]" "bs @ post"] by simp_all
    moreover obtain h' where "list_splice a b ?n h = Some h'" and "is_list h' l (pre @ b # a # as @ bs @ post)"
      and u: "unchanged_outside (set (nodes l (pre @ (a # as) @ b # bs @ post))) h h'"
      using list_splice_spec [of h l pre "a # as" "[b]" "bs @ post"] l by auto
    moreover from this(2) obtain h'' where
      "inplace_merge_loop lessf a ?n (hd (post @ [list_tail l])) h' = Some h''"
      and "is_list h'' l (pre @ merge_runs lessf (a # as) (b # bs) @ post)"
      and "unchanged_outside (set (nodes l (pre @ b # a # as @ bs @ post))) h' h''"
      using "3.IH"(2) [of h' "pre @ [b]"] True by auto
    ultimately show ?thesis
      using ne True by (subst inplace_merge_loop.simps)
        (auto elim!: unchanged_outside_trans simp: set_nodes Un_ac insert_commute)
  qed
qed (simp_all add: inplace_merge_loop.simps)

lemma inplace_merge_spec:
  assumes l: "is_list h l (pre @ as @ bs @ post)"
    and s: "successively (nless lessf) as" "successively (nless lessf) bs"
  shows "\<exists>h'. inplace_merge lessf (hd (as @ bs @ post @ [list_tail l])) (hd (bs @ post @ [list_tail l]))
       (hd (post @ [list_tail l])) h = Some h' \<and>
     is_list h' l (pre @ merge_runs lessf as bs @ post) \<and>
     unchanged_outside (set (nodes l (pre @ as @ bs @ post))) h h'"
  using list_is_sorted_spec [of h l pre as "bs @ post" lessf]
    list_is_sorted_spec [of h l "pre @ as" bs post lessf] inplace_merge_loop_spec [OF l, of lessf]
    is_list_hd_post(2) [of h l "[]" pre "as @ bs @ post"]
    is_list_hd_post(2) [of h l pre as "bs @ post"] is_list_hd_post(2) [of h l "pre @ as" bs post] l s
  by (simp add: inplace_merge_def)

lemma list_sort_pass_spec:
  "is_list h l (pre @ xs) \<Longrightarrow>
   \<exists>h'. list_sort_pass lessf l (hd (xs @ [list_tail l])) cnt h =
       Some (cnt + fst (sort_pass lessf xs), h') \<and>
     is_list h' l (pre @ snd (sort_pass lessf xs)) \<and>
     unchanged_outside (set (nodes l (pre @ xs))) h h'"
proof (induction lessf xs arbitrary: pre cnt h rule: sort_pass.induct)
  case (1 lessf)
  then show ?case by (simp add: list_sort_pass.simps list_end_def)
next
  case (2 lessf x xs)
  have x: "x \<noteq> list_tail l" using is_list_ends(8) [OF "2.prems"] by simp
  note fx = find_end_of_run_spec [OF "2.prems", of lessf]
  show ?case
  proof (cases "drop_run lessf x xs")
    case Nil
    with "2.prems" x fx show ?thesis
      by (subst list_sort_pass.simps) (simp add: list_end_def)
  next
    case (Cons y ys)
    let ?as = "x # take_run lessf x xs" and ?bs = "y # take_run lessf y ys"
    let ?post = "drop_run lessf y ys"
    have xs: "x # xs = ?as @ ?bs @ ?post"
      using take_drop_run [of lessf x xs] Cons by simp
    then have l: "is_list h l (pre @ ?as @ ?bs @ ?post)" using "2.prems" by simp
    then have y: "y \<noteq> list_tail l" using is_list_ends(8) by fastforce
    have fy: "find_end_of_run lessf y (list_tail l) h = Some (hd (?post @ [list_tail l]))"
      using find_end_of_run_spec [of h l "pre @ ?as" y ys lessf] l by simp
    obtain h' where m: "inplace_merge lessf x y (hd (?post @ [list_tail l])) h = Some h'"
      and l': "is_list h' l ((pre @ merge_runs lessf ?as ?bs) @ ?post)"
      and u: "unchanged_outside (set (nodes l (pre @ ?as @ ?bs @ ?post))) h h'"
      using inplace_merge_spec [OF l successively_take_run successively_take_run] by auto
    from "2.IH" [OF Cons l', of "cnt + 1"] obtain h'' where
      "list_sort_pass lessf l (hd (?post @ [list_tail l])) (cnt + 1) h' =
        Some (cnt + 1 + fst (sort_pass lessf ?post), h'')"
      and "is_list h'' l ((pre @ merge_runs lessf ?as ?bs) @ snd (sort_pass lessf ?post))"
      and "unchanged_outside (set (nodes l ((pre @ merge_runs lessf ?as ?bs) @ ?post))) h' h''"
      by blast
    moreover have "set (nodes l ((pre @ merge_runs lessf ?as ?bs) @ ?post)) = set (nodes l (pre @ x # xs))"
      unfolding xs by (auto simp: set_nodes simp del: merge_runs.simps take_drop_run)
    ultimately show ?thesis
      using x y fx fy m u Cons unfolding xs [symmetric]
      by (subst list_sort_pass.simps)
        (auto simp: list_end_def case_prod_beta Let_def elim: unchanged_outside_trans simp del: merge_runs.simps)
  qed
qed

context list_less
begin

lemma sort_pass_decreases:
  "1 < fst (sort_pass lessf xs) \<Longrightarrow> runs lessf (snd (sort_pass lessf xs)) < runs lessf xs"
  using sort_pass_runs [of xs] sort_pass_count [of lessf xs] by linarith

lemma sort_pass_done:
  "\<not> 1 < fst (sort_pass lessf xs) \<Longrightarrow> sorted_wrt (nless lessf) (snd (sort_pass lessf xs))"
  using sort_pass_runs [of xs] runs_le_1 [of lessf "snd (sort_pass lessf xs)"]
  unfolding sorted_iff by linarith

end

text \<open>
  \<open>stable_perm\<close>: the same elements, those that the comparison does not
  distinguish from each other in their old order.
\<close>

definition stable_perm :: "('a \<Rightarrow> 'a \<Rightarrow> bool) \<Rightarrow> 'a list \<Rightarrow> 'a list \<Rightarrow> bool" where
  "stable_perm lessf xs ys \<longleftrightarrow> mset ys = mset xs \<and>
     (\<forall>c. filter (\<lambda>e. \<not> lessf e c \<and> \<not> lessf c e) ys = filter (\<lambda>e. \<not> lessf e c \<and> \<not> lessf c e) xs)"

lemma stable_perm_trans: "stable_perm lessf xs ys \<Longrightarrow> stable_perm lessf ys zs \<Longrightarrow> stable_perm lessf xs zs"
  by (simp add: stable_perm_def)

lemma stable_perm_set: "stable_perm lessf xs ys \<Longrightarrow> set ys = set xs"
  unfolding stable_perm_def using mset_eq_setD by blast

lemma list_sort_refines:
  assumes less: "list_less lessf" and "is_list h l xs"
  shows "\<exists>h' ys. list_sort lessf l h = Some h' \<and> is_list h' l ys \<and> sorted_wrt (nless lessf) ys \<and>
     stable_perm lessf xs ys \<and> unchanged_outside (set (nodes l xs)) h h'"
  using assms(2)
proof (induction "runs lessf xs" arbitrary: xs h rule: less_induct)
  case less
  let ?c = "fst (sort_pass lessf xs)" and ?ys = "snd (sort_pass lessf xs)"
  have p: "stable_perm lessf xs ?ys"
    by (simp add: stable_perm_def mset_sort_pass list_less.sort_pass_stable [OF assms(1)])
  obtain h' where pass: "list_sort_pass lessf l (hd (xs @ [list_tail l])) 0 h = Some (?c, h')"
    and l': "is_list h' l ?ys" and u: "unchanged_outside (set (nodes l xs)) h h'"
    using list_sort_pass_spec [of h l "[]" xs lessf 0] less.prems by auto
  have n: "set (nodes l ?ys) = set (nodes l xs)"
    using stable_perm_set [OF p] by (simp add: set_nodes)
  note step = list_sort.simps [of lessf l h] list_begin_spec [OF less.prems] pass
    is_list_ends(1) [OF less.prems]
  show ?case
  proof (cases "1 < ?c")
    case True
    then obtain h'' ys where "list_sort lessf l h' = Some h''" "is_list h'' l ys"
      "sorted_wrt (nless lessf) ys" "stable_perm lessf ?ys ys"
      "unchanged_outside (set (nodes l ?ys)) h' h''"
      using less.hyps [OF list_less.sort_pass_decreases [OF assms(1) True] l'] by auto
    with True u p n show ?thesis
      by (simp add: step) (metis stable_perm_trans unchanged_outside_trans)
  next
    case False
    note s = list_less.sort_pass_done [OF assms(1) False]
    then have "list_is_sorted lessf (hd (?ys @ [list_tail l])) (list_tail l) h' = Some True"
      using list_is_sorted_spec [of h' l "[]" ?ys "[]" lessf] l' list_less.sorted_iff [OF assms(1)] by auto
    with False s p u l' show ?thesis
      by (auto simp: step list_end_def list_begin_spec [OF l'])
  qed
qed

end
