(* ===== verification/Kernel_List_Misc.thy ===== *)
theory Kernel_List_Misc
  imports Kernel_List_Sort
begin

text \<open>
  The remaining operations of \<^verbatim>\<open>lib/kernel/list.c\<close>: reversal in place, removal of
  adjacent duplicates, and the maximum and minimum under a comparison.
  Also, what happens to a list when one of its elements is inserted into another.
\<close>

section \<open>The pointer code\<close>

definition swap_links :: "ptr \<Rightarrow> lheap \<Rightarrow> lheap" where
  "swap_links e h = h(e := \<lparr>le_prev = le_next (h e), le_next = le_prev (h e)\<rparr>)"

partial_function (option) list_reverse_loop :: "ptr \<Rightarrow> ptr \<Rightarrow> lheap \<Rightarrow> lheap option" where
  "list_reverse_loop l e h =
     (if e \<noteq> list_end l then let h = swap_links e h in list_reverse_loop l (le_prev (h e)) h
      else Some h)"

definition list_reverse :: "ptr \<Rightarrow> lheap \<Rightarrow> lheap option" where
  "list_reverse l h = do {
     emp \<leftarrow> list_empty l h;
     if \<not> emp then do {
       b \<leftarrow> list_begin l h;
       h \<leftarrow> list_reverse_loop l b h;
       let t = le_next (h (list_head l));
       let h = set_next (list_head l) (le_prev (h (list_tail l))) h;
       let h = set_prev (list_tail l) t h;
       let a = le_next (h (list_head l));
       let b = le_prev (h (list_tail l));
       let t = le_prev (h a);
       let h = set_prev a (le_next (h b)) h;
       Some (set_next b t h)
     } else Some h
   }"

partial_function (option) list_unique_loop ::
  "(ptr \<Rightarrow> ptr \<Rightarrow> bool) \<Rightarrow> ptr \<Rightarrow> ptr \<Rightarrow> ptr \<Rightarrow> lheap \<Rightarrow> lheap option" where
  "list_unique_loop lessf l duplicates elem h = do {
     next \<leftarrow> list_next elem h;
     if next \<noteq> list_end l then
       if \<not> lessf elem next \<and> \<not> lessf next elem then do {
         (_, h) \<leftarrow> list_remove next h;
         h \<leftarrow> (if duplicates \<noteq> NULL then list_push_back duplicates next h else Some h);
         list_unique_loop lessf l duplicates elem h
       } else list_unique_loop lessf l duplicates next h
     else Some h
   }"

definition list_unique ::
  "(ptr \<Rightarrow> ptr \<Rightarrow> bool) \<Rightarrow> ptr \<Rightarrow> ptr \<Rightarrow> lheap \<Rightarrow> lheap option" where
  "list_unique lessf l duplicates h = do {
     ASSERT (l \<noteq> NULL);
     emp \<leftarrow> list_empty l h;
     if emp then Some h else do {
       elem \<leftarrow> list_begin l h;
       list_unique_loop lessf l duplicates elem h
     }
   }"

partial_function (option) list_max_loop ::
  "(ptr \<Rightarrow> ptr \<Rightarrow> bool) \<Rightarrow> ptr \<Rightarrow> ptr \<Rightarrow> ptr \<Rightarrow> lheap \<Rightarrow> ptr option" where
  "list_max_loop lessf l mx e h =
     (if e \<noteq> list_end l then do {
        let mx = (if lessf mx e then e else mx);
        e \<leftarrow> list_next e h;
        list_max_loop lessf l mx e h
      } else Some mx)"

definition list_max :: "(ptr \<Rightarrow> ptr \<Rightarrow> bool) \<Rightarrow> ptr \<Rightarrow> lheap \<Rightarrow> ptr option" where
  "list_max lessf l h = do {
     mx \<leftarrow> list_begin l h;
     if mx \<noteq> list_end l then do {
       e \<leftarrow> list_next mx h;
       list_max_loop lessf l mx e h
     } else Some mx
   }"

partial_function (option) list_min_loop ::
  "(ptr \<Rightarrow> ptr \<Rightarrow> bool) \<Rightarrow> ptr \<Rightarrow> ptr \<Rightarrow> ptr \<Rightarrow> lheap \<Rightarrow> ptr option" where
  "list_min_loop lessf l mn e h =
     (if e \<noteq> list_end l then do {
        let mn = (if lessf e mn then e else mn);
        e \<leftarrow> list_next e h;
        list_min_loop lessf l mn e h
      } else Some mn)"

definition list_min :: "(ptr \<Rightarrow> ptr \<Rightarrow> bool) \<Rightarrow> ptr \<Rightarrow> lheap \<Rightarrow> ptr option" where
  "list_min lessf l h = do {
     mn \<leftarrow> list_begin l h;
     if mn \<noteq> list_end l then do {
       e \<leftarrow> list_next mn h;
       list_min_loop lessf l mn e h
     } else Some mn
   }"

section \<open>Maximum and minimum\<close>

text \<open>The element that a left-to-right scan keeps, replacing it only by a strictly better one.\<close>

abbreviation first_best :: "('a \<Rightarrow> 'a \<Rightarrow> bool) \<Rightarrow> 'a \<Rightarrow> 'a list \<Rightarrow> 'a" where
  "first_best better \<equiv> foldl (\<lambda>m e. if better e m then e else m)"

lemma list_max_loop_spec:
  "is_list h l (pre @ ys) \<Longrightarrow>
   list_max_loop lessf l mx (hd (ys @ [list_tail l])) h = Some (first_best (\<lambda>a b. lessf b a) mx ys)"
proof (induction ys arbitrary: pre mx)
  case Nil
  then show ?case by (simp add: list_max_loop.simps list_end_def)
next
  case (Cons y ys)
  then show ?case
    using list_next_spec [of h l pre y ys] is_list_ends(8) [OF Cons.prems] Cons.IH [of "pre @ [y]"]
    by (subst list_max_loop.simps) (auto simp: list_end_def)
qed

lemma list_min_loop_spec:
  "is_list h l (pre @ ys) \<Longrightarrow>
   list_min_loop lessf l mn (hd (ys @ [list_tail l])) h = Some (first_best lessf mn ys)"
proof (induction ys arbitrary: pre mn)
  case Nil
  then show ?case by (simp add: list_min_loop.simps list_end_def)
next
  case (Cons y ys)
  then show ?case
    using list_next_spec [of h l pre y ys] is_list_ends(8) [OF Cons.prems] Cons.IH [of "pre @ [y]"]
    by (subst list_min_loop.simps) (auto simp: list_end_def)
qed

lemma list_max_spec:
  assumes "is_list h l (x # xs)"
  shows "list_max lessf l h = Some (first_best (\<lambda>a b. lessf b a) x xs)"
  using list_max_loop_spec [of h l "[x]" xs lessf x] list_next_spec [of h l "[]" x xs]
    is_list_ends(8) [OF assms] assms
  by (auto simp: list_max_def list_end_def)

lemma list_min_spec:
  assumes "is_list h l (x # xs)"
  shows "list_min lessf l h = Some (first_best lessf x xs)"
  using list_min_loop_spec [of h l "[x]" xs lessf x] list_next_spec [of h l "[]" x xs]
    is_list_ends(8) [OF assms] assms
  by (auto simp: list_min_def list_end_def)

lemma list_max_min_empty:
  assumes "is_list h l []"
  shows "list_max lessf l h = Some (list_tail l)" "list_min lessf l h = Some (list_tail l)"
  using assms by (simp_all add: list_max_def list_min_def list_end_def)

text \<open>
  Under a strict weak order the scan returns the earliest of the best elements:
  everything before it is strictly worse, nothing after it is better.
\<close>

context list_less
begin

lemma less_less_trans: "lessf a b \<Longrightarrow> lessf b c \<Longrightarrow> lessf a c"
  using not_less_trans less_asym by blast

lemma less_not_trans: "lessf a b \<Longrightarrow> \<not> lessf c b \<Longrightarrow> lessf a c"
  using not_less_trans by blast

lemma first_best_split:
  "\<exists>as bs. x # xs = as @ first_best lessf x xs # bs \<and>
     (\<forall>a\<in>set as. lessf (first_best lessf x xs) a) \<and> (\<forall>b\<in>set bs. \<not> lessf b (first_best lessf x xs))"
proof (induction xs rule: rev_induct)
  case (snoc y xs)
  let ?m = "first_best lessf x xs"
  from snoc obtain as bs where s: "x # xs = as @ ?m # bs"
    and a: "\<forall>a\<in>set as. lessf ?m a" and b: "\<forall>b\<in>set bs. \<not> lessf b ?m" by blast
  show ?case
  proof (cases "lessf y ?m")
    case True
    have "lessf y e" if "e \<in> set (as @ ?m # bs)" for e
      using that a b True less_less_trans [OF True] less_not_trans [OF True]
      unfolding set_append list.set by blast
    with True s show ?thesis
      by (intro exI [of _ "as @ ?m # bs"] exI [of _ "[]"]) simp
  next
    case False
    with s a b show ?thesis
      by (intro exI [of _ as] exI [of _ "bs @ [y]"]) simp
  qed
qed (auto intro: exI [of _ "[]"])

end

lemma list_less_flip: "list_less lessf \<Longrightarrow> list_less (\<lambda>a b. lessf b a)"
  unfolding list_less_def by blast

section \<open>Reversal\<close>

lemma list_reverse_loop_spec:
  assumes "successively (link h) (ys @ [list_tail l])" and "distinct (ys @ [list_tail l])"
  shows "list_reverse_loop l (hd (ys @ [list_tail l])) h =
    Some (\<lambda>p. if p \<in> set ys then \<lparr>le_prev = le_next (h p), le_next = le_prev (h p)\<rparr> else h p)"
  using assms
proof (induction ys arbitrary: h)
  case Nil
  then show ?case by (simp add: list_reverse_loop.simps list_end_def)
next
  case (Cons y ys)
  let ?h = "swap_links y h"
  have n: "le_next (h y) = hd (ys @ [list_tail l])"
    using Cons.prems(1) by (cases ys) (simp_all add: link_def)
  have "successively (link h) (ys @ [list_tail l])"
    using Cons.prems(1) by (cases ys) simp_all
  then have "successively (link ?h) (ys @ [list_tail l])"
    by (rule successively_link_frame) (use Cons.prems(2) in \<open>auto simp: swap_links_def dest: in_set_tlD\<close>)
  then have "list_reverse_loop l (hd (ys @ [list_tail l])) ?h =
    Some (\<lambda>p. if p \<in> set ys then \<lparr>le_prev = le_next (?h p), le_next = le_prev (?h p)\<rparr> else ?h p)"
    using Cons.IH [of ?h] Cons.prems(2) by simp
  also have "\<dots> = Some (\<lambda>p. if p \<in> set (y # ys)
      then \<lparr>le_prev = le_next (h p), le_next = le_prev (h p)\<rparr> else h p)"
    using Cons.prems(2) by (auto simp: swap_links_def)
  finally show ?case
    using Cons.prems(2) n by (subst list_reverse_loop.simps) (auto simp: list_end_def swap_links_def Let_def)
qed

lemma successively_ConsI: "xs \<noteq> [] \<Longrightarrow> P a (hd xs) \<Longrightarrow> successively P xs \<Longrightarrow> successively P (a # xs)"
  by (cases xs) auto

lemma successively_snocI: "xs \<noteq> [] \<Longrightarrow> P (last xs) a \<Longrightarrow> successively P xs \<Longrightarrow> successively P (xs @ [a])"
  by (auto simp: successively_append_iff)

lemma list_reverse_spec:
  assumes l: "is_list h l xs"
  shows "\<exists>h'. list_reverse l h = Some h' \<and> is_list h' l (rev xs) \<and>
    unchanged_outside (set (nodes l xs)) h h'"
proof (cases "xs = []")
  case True
  with l show ?thesis by (simp add: list_reverse_def)
next
  case False
  let ?H = "list_head l" and ?T = "list_tail l" and ?f = "hd xs" and ?z = "last xs"
  let ?h1 = "\<lambda>p. if p \<in> set xs then \<lparr>le_prev = le_next (h p), le_next = le_prev (h p)\<rparr> else h p"
  note e = is_list_ends [OF l]
  have ends: "?f \<in> set xs" "?z \<in> set xs" "?H \<notin> set xs" "?T \<notin> set xs" "?H \<noteq> ?T"
    using False e by (auto simp: list_head_def list_tail_def)
  have s: "successively (link h) (?H # xs @ [?T])"
    using l by (simp add: is_list_def nodes_def)
  then have f: "link h ?H ?f" and z: "link h ?z ?T" and mid: "successively (link h) xs"
    and sx: "successively (link h) (xs @ [?T])"
    using False by (auto simp: successively_append_iff successively_Cons hd_append)
  have loop: "list_reverse_loop l (hd (xs @ [?T])) h = Some ?h1"
    using list_reverse_loop_spec [OF sx] e(6,8) by simp
  define h' where "h' = set_next ?f ?T (set_prev ?z ?H (set_prev ?T ?f (set_next ?H ?z ?h1)))"
  have v: "le_next (h ?H) = ?f" "le_prev (h ?T) = ?z" "le_next (h ?z) = ?T" "le_prev (h ?f) = ?H"
    "?z \<noteq> ?H" "?z \<noteq> ?T" "?f \<noteq> ?H" "?f \<noteq> ?T"
    using f z ends by (auto simp: link_def)
  have r: "list_reverse l h = Some h'"
    using False by (simp add: list_reverse_def list_empty_spec [OF l] list_begin_spec [OF l] loop
        h'_def Let_def v ends ends(5) [symmetric] del: hd_append hd_append2)
  have "successively (\<lambda>p q. link h' q p) xs"
  proof (rule successively_mono [OF mid])
    fix p q assume "p \<in> set xs" "q \<in> set xs" "link h p q"
    moreover from this have "q \<noteq> ?f" "p \<noteq> ?z"
      using v ends by (auto simp: link_def)
    ultimately show "link h' q p"
      using ends by (auto simp: link_def h'_def)
  qed
  then have "successively (link h') (?H # rev xs @ [?T])"
    using False ends v
    by (intro successively_ConsI successively_snocI)
      (auto simp: link_def h'_def hd_append hd_rev last_rev)
  then have "is_list h' l (rev xs)"
    using l ends v by (simp add: is_list_def nodes_def h'_def)
  moreover have "unchanged_outside (set (nodes l xs)) h h'"
    using ends by (auto simp: h'_def set_nodes unchanged_outside_def set_next_def set_prev_def)
  ultimately show ?thesis using r by blast
qed

section \<open>Removal of adjacent duplicates\<close>

text \<open>What stays after \<open>e\<close>, and what is moved to the duplicates.\<close>

fun unique_rest :: "('a \<Rightarrow> 'a \<Rightarrow> bool) \<Rightarrow> 'a \<Rightarrow> 'a list \<Rightarrow> 'a list \<times> 'a list" where
  "unique_rest lessf e [] = ([], [])"
| "unique_rest lessf e (y # ys) =
     (if \<not> lessf e y \<and> \<not> lessf y e then let (ks, ds) = unique_rest lessf e ys in (ks, y # ds)
      else let (ks, ds) = unique_rest lessf y ys in (y # ks, ds))"

lemma unique_rest_successively:
  "successively (\<lambda>a b. lessf a b \<or> lessf b a) (e # fst (unique_rest lessf e ys))"
  by (induction ys arbitrary: e) (auto simp: case_prod_beta Let_def)

definition groups_of :: "('a \<Rightarrow> 'a \<Rightarrow> bool) \<Rightarrow> 'a list \<Rightarrow> 'a list \<Rightarrow> 'a list \<Rightarrow> ('a \<times> 'a list) list \<Rightarrow> bool" where
  "groups_of lessf xs ks rs gs \<longleftrightarrow> xs = concat (map (\<lambda>(k, rs). k # rs) gs) \<and> ks = map fst gs \<and> rs = concat (map snd gs) \<and>
     (\<forall>(k, rs) \<in> set gs. \<forall>r \<in> set rs. \<not> lessf k r \<and> \<not> lessf r k)"

lemma unique_rest_groups:
  "\<exists>gs. groups_of lessf (e # ys) (e # fst (unique_rest lessf e ys)) (snd (unique_rest lessf e ys)) gs"
proof (induction ys arbitrary: e)
  case Nil
  show ?case by (rule exI [of _ "[(e, [])]"]) (simp add: groups_of_def)
next
  case (Cons y ys)
  show ?case
  proof (cases "\<not> lessf e y \<and> \<not> lessf y e")
    case True
    from Cons.IH [of e] obtain gs where gs: "groups_of lessf (e # ys) (e # fst (unique_rest lessf e ys)) (snd (unique_rest lessf e ys)) gs" ..
    then obtain rs gs' where "gs = (e, rs) # gs'" by (cases gs) (auto simp: groups_of_def)
    with gs True show ?thesis
      by (intro exI [of _ "(e, y # rs) # gs'"]) (auto simp: groups_of_def case_prod_beta Let_def)
  next
    case False
    from Cons.IH [of y] obtain gs where "groups_of lessf (y # ys) (y # fst (unique_rest lessf y ys)) (snd (unique_rest lessf y ys)) gs" ..
    with False show ?thesis
      by (intro exI [of _ "(e, []) # gs"]) (auto simp: groups_of_def case_prod_beta Let_def)
  qed
qed

definition dup_list :: "lheap \<Rightarrow> ptr \<Rightarrow> ptr list \<Rightarrow> bool" where
  "dup_list h d ds \<longleftrightarrow> d = NULL \<or> is_list h d ds"

lemma list_unique_loop_spec:
  assumes "is_list h l (pre @ e # ys)" and "dup_list h d ds"
    and "d = NULL \<or> set (nodes l (pre @ e # ys)) \<inter> set (nodes d ds) = {}"
  shows "\<exists>h'. list_unique_loop lessf l d e h = Some h' \<and>
    is_list h' l (pre @ e # fst (unique_rest lessf e ys)) \<and>
    dup_list h' d (ds @ snd (unique_rest lessf e ys))"
  using assms
proof (induction ys arbitrary: pre e ds h)
  case Nil
  then show ?case
    using list_next_spec [of h l pre e "[]"] by (simp add: list_unique_loop.simps list_end_def)
next
  case (Cons y ys)
  have y: "y \<noteq> list_tail l" "y \<noteq> NULL"
    using is_list_ends(7,8) [OF Cons.prems(1)] by auto
  have next_e: "list_next e h = Some y"
    using list_next_spec [OF Cons.prems(1)] by simp
  show ?case
  proof (cases "\<not> lessf e y \<and> \<not> lessf y e")
    case True
    obtain h1 where r: "list_remove y h = Some (hd (ys @ [list_tail l]), h1)"
      and l1: "is_list h1 l (pre @ e # ys)" and u1: "unchanged_outside (set (nodes l (pre @ e # ys))) h h1"
      using list_remove_spec [of h l "pre @ [e]" y ys] Cons.prems(1) by auto
    have "\<exists>h2. (if d \<noteq> NULL then list_push_back d y h1 else Some h1) = Some h2 \<and>
      is_list h2 l (pre @ e # ys) \<and> dup_list h2 d (ds @ [y])"
    proof (cases "d = NULL")
      case d: False
      have disj: "set (nodes l (pre @ e # y # ys)) \<inter> set (nodes d ds) = {}"
        using Cons.prems(3) d by simp
      have "is_list h1 d ds"
        using Cons.prems(2) d u1 disj by (auto simp: dup_list_def set_nodes elim!: is_list_frame)
      then obtain h2 where "list_push_back d y h1 = Some h2" "is_list h2 d (ds @ [y])"
        and u2: "unchanged_outside (insert y (set (nodes d ds))) h1 h2"
        using list_push_back_spec [of h1 d ds y] y disj by (auto simp: set_nodes)
      moreover have "is_list h2 l (pre @ e # ys)"
        by (rule is_list_frame [OF l1 u2])
          (use disj is_list_ends(6,8,9) [OF Cons.prems(1)] in \<open>auto simp: set_nodes\<close>)
      ultimately show ?thesis using d by (simp add: dup_list_def)
    qed (use l1 in \<open>simp add: dup_list_def\<close>)
    then obtain h2 where p: "(if d \<noteq> NULL then list_push_back d y h1 else Some h1) = Some h2"
      and l2: "is_list h2 l (pre @ e # ys)" and d2: "dup_list h2 d (ds @ [y])" by blast
    have "d = NULL \<or> set (nodes l (pre @ e # ys)) \<inter> set (nodes d (ds @ [y])) = {}"
      using Cons.prems(3) is_list_ends(6,8,9) [OF Cons.prems(1)] by (auto simp: set_nodes)
    from Cons.IH [OF l2 d2 this] True next_e r p y show ?thesis
      by (subst list_unique_loop.simps) (auto simp: list_end_def case_prod_beta Let_def)
  next
    case False
    with Cons.IH [of h "pre @ [e]" y ds] Cons.prems next_e y show ?thesis
      by (subst list_unique_loop.simps) (auto simp: list_end_def case_prod_beta Let_def)
  qed
qed

lemma list_unique_spec:
  assumes "is_list h l (e # ys)" and "dup_list h d ds"
    and "d = NULL \<or> set (nodes l (e # ys)) \<inter> set (nodes d ds) = {}"
  shows "\<exists>h'. list_unique lessf l d h = Some h' \<and>
    is_list h' l (e # fst (unique_rest lessf e ys)) \<and>
    dup_list h' d (ds @ snd (unique_rest lessf e ys))"
  using list_unique_loop_spec [of h l "[]" e ys d ds lessf] assms is_list_ends(1) [OF assms(1)]
  by (simp add: list_unique_def)

section \<open>Elements that are in a list already\<close>

lemma is_list_next_closed:
  assumes "is_list h l zs" and "p \<in> set (nodes l zs)" and "p \<noteq> list_tail l"
  shows "le_next (h p) \<in> set (nodes l zs)"
proof -
  obtain xs ys where n: "nodes l zs = xs @ p # ys" using assms(2) by (auto simp: in_set_conv_decomp)
  have "last (nodes l zs) = list_tail l" by (simp add: nodes_def)
  with n assms(3) obtain y ys' where "ys = y # ys'" by (cases ys) auto
  then show ?thesis using assms(1) n by (auto simp: is_list_def successively_append_iff link_def)
qed

lemma is_list_prev_closed:
  assumes "is_list h l zs" and "p \<in> set (nodes l zs)" and "p \<noteq> list_head l"
  shows "le_prev (h p) \<in> set (nodes l zs)"
proof -
  obtain xs ys where n: "nodes l zs = xs @ p # ys" using assms(2) by (auto simp: in_set_conv_decomp)
  have "hd (nodes l zs) = list_head l" by (simp add: nodes_def)
  with n assms(3) obtain xs' x where "xs = xs' @ [x]" by (cases xs rule: rev_cases) auto
  then show ?thesis using assms(1) n by (auto simp: is_list_def successively_append_iff link_def)
qed

text \<open>Two lists that share an element have the same head.\<close>

lemma shared_node_same_head:
  assumes "is_list h l xs" and "is_list h m ys" and "p \<in> set (nodes l xs)" and "p \<in> set (nodes m ys)"
  shows "list_head l = list_head m"
proof -
  have "p \<in> set (nodes m ys) \<Longrightarrow> list_head l \<in> set (nodes m ys)" if "nodes l xs = pre @ p # post" for pre p post
    using that
  proof (induction pre arbitrary: p post rule: rev_induct)
    case Nil
    then show ?case by (simp add: nodes_def)
  next
    case (snoc q pre)
    then have "le_prev (h p) = q" using assms(1) by (simp add: is_list_def successively_append_iff link_def)
    moreover have "q \<noteq> NULL" using assms(1) snoc.prems(2) by (auto simp: is_list_def)
    then have "p \<noteq> list_head m" using \<open>le_prev (h p) = q\<close> assms(2) by (auto simp: is_list_def)
    ultimately have "q \<in> set (nodes m ys)" using is_list_prev_closed [OF assms(2) snoc.prems(1)] by simp
    then show ?case using snoc.IH [of q "p # post"] snoc.prems(2) by simp
  qed
  then have m: "list_head l \<in> set (nodes m ys)" using assms(3,4) split_list [OF assms(3)] by blast
  have "le_prev (h (list_head l)) = NULL" using assms(1) by (simp add: is_list_def)
  moreover have "NULL \<notin> set (nodes m ys)" using assms(2) by (simp add: is_list_def)
  ultimately show ?thesis using is_list_prev_closed [OF assms(2) m] by metis
qed

text \<open>Inserting an element of one list into another leaves the first without a list.\<close>

lemma insert_linked_breaks:
  assumes "is_list h l xs" and "e \<in> set xs" and "is_list h m ys" and "set (nodes l xs) \<inter> set (nodes m ys) = {}"
    and "list_insert_ordered lessf m e h = Some h'"
  shows "\<not> is_list h' l zs"
proof
  assume zs: "is_list h' l zs"
  have e: "e \<notin> set (nodes m ys)" "e \<noteq> NULL" "e \<noteq> list_head l" "e \<noteq> list_tail l"
    using assms(1,2,4) by (auto simp: is_list_def nodes_def)
  obtain m': "is_list h' m (insert_ordered lessf e ys)" "unchanged_outside (insert e (set (nodes m ys))) h h'"
    using list_insert_ordered_spec [OF assms(3) e(1,2), of lessf] assms(5) by auto
  have sub: "q \<in> set (nodes l zs)" if "nodes l xs = pre @ q # post" "e \<notin> set pre" for pre q post
    using that
  proof (induction pre arbitrary: q post rule: rev_induct)
    case Nil
    then show ?case by (simp add: nodes_def)
  next
    case (snoc r pre)
    then have r: "r \<in> set (nodes l zs)" by simp
    have d: "distinct (nodes l xs)" "last (nodes l xs) = list_tail l" using assms(1) by (simp_all add: is_list_def nodes_def)
    then have "r \<noteq> list_tail l" using snoc.prems(1) last_in_set [of "q # post"] by (auto simp: last_append split: if_splits)
    moreover have "r \<notin> insert e (set (nodes m ys))" using snoc.prems assms(4) by auto
    then have "h' r = h r" using m'(2) unfolding unchanged_outside_def by blast
    moreover have "le_next (h r) = q" using assms(1) snoc.prems(1) by (simp add: is_list_def successively_append_iff link_def)
    ultimately show ?case using is_list_next_closed [OF zs r] by simp
  qed
  obtain pre post where n: "nodes l xs = pre @ e # post" "e \<notin> set pre"
    using split_list_first [of e "nodes l xs"] assms(2) by (auto simp: nodes_def)
  have "list_head l = list_head m"
    using shared_node_same_head [OF zs m'(1) sub [OF n]] by (simp add: nodes_def)
  then show False using assms(4) by (auto simp: nodes_def)
qed

section \<open>Lists are determined by their links\<close>

lemma is_list_unique:
  assumes "is_list h l xs" and "is_list h' l xs" and "p \<in> set (nodes l xs)"
  shows "h p = h' p"
proof -
  consider "p = list_head l" | "p = list_tail l" | ys zs where "xs = ys @ p # zs"
    using assms(3) by (auto simp: set_nodes in_set_conv_decomp)
  then have "le_prev (h p) = le_prev (h' p) \<and> le_next (h p) = le_next (h' p)"
  proof cases
    case 3
    then show ?thesis
      using assms(1,2) is_list_interior(2,3) [of h l ys p zs] is_list_interior(2,3) [of h' l ys p zs] by simp
  qed (simp_all add: is_list_ends [OF assms(1)] is_list_ends [OF assms(2)])
  then show ?thesis by simp
qed

lemma is_list_restored:
  assumes "is_list h l xs" and "is_list h' l xs" and "unchanged_outside S h h'" and "S \<subseteq> set (nodes l xs) \<union> E"
  shows "unchanged_outside E h h'"
  using assms is_list_unique [of h l xs h'] unfolding unchanged_outside_def by (metis Un_iff subsetD)

context list_less
begin

lemma sorted_insert_ordered:
  "sorted_wrt (nless lessf) xs \<Longrightarrow> sorted_wrt (nless lessf) (insert_ordered lessf x xs)"
proof (induction xs)
  case (Cons y ys)
  then show ?case
    using less_asym [of x y] less_le_trans' [of x y] by auto
qed simp

lemma insert_ordered_equals:
  "sorted_wrt (nless lessf) xs \<Longrightarrow>
   filter (\<lambda>e. \<not> lessf e x \<and> \<not> lessf x e) (insert_ordered lessf x xs) =
   filter (\<lambda>e. \<not> lessf e x \<and> \<not> lessf x e) xs @ [x]"
proof (induction xs)
  case (Cons y ys)
  show ?case
  proof (cases "lessf x y")
    case True
    then have "lessf x e" if "e \<in> set (y # ys)" for e
      using Cons.prems that less_not_trans [OF True] by auto
    then have "filter (\<lambda>e. \<not> lessf e x \<and> \<not> lessf x e) (y # ys) = []"
      by (simp add: filter_empty_conv)
    with True less_asym [of x x] show ?thesis by auto
  qed (use Cons in auto)
qed (use less_asym [of x x] in auto)

end

section \<open>Properties\<close>

text \<open>A heap holding one list, for the instances below: the nodes linked in the given order.\<close>

fun chain :: "ptr \<Rightarrow> ptr list \<Rightarrow> lheap \<Rightarrow> lheap" where
  "chain p [] h = set_next p NULL h"
| "chain p (q # qs) h = chain q qs (set_prev q p (set_next p q h))"

definition list_heap :: "ptr \<Rightarrow> ptr list \<Rightarrow> lheap" where
  "list_heap l xs = chain (list_head l) (xs @ [list_tail l]) (\<lambda>_. \<lparr>le_prev = NULL, le_next = NULL\<rparr>)"

text \<open>
  C1. \<^verbatim>\<open>list_sort\<close> returns on every well-formed list, for every comparison that is a
  strict weak order: the list it leaves holds the same elements, no element is
  less than one before it, elements that compare equal keep their order, and no
  memory outside the list's nodes is written.
\<close>

theorem list_sort_correct:
  assumes "list_less lessf" and "is_list h l xs"
  shows "\<exists>h' ys. list_sort lessf l h = Some h' \<and> is_list h' l ys \<and>
     sorted_wrt (\<lambda>a b. \<not> lessf b a) ys \<and> mset ys = mset xs \<and>
     (\<forall>c. filter (\<lambda>e. \<not> lessf e c \<and> \<not> lessf c e) ys = filter (\<lambda>e. \<not> lessf e c \<and> \<not> lessf c e) xs) \<and>
     unchanged_outside (set (nodes l xs)) h h'"
  using list_sort_refines [OF assms] by (auto simp: stable_perm_def)

lemma list_less_key: "list_less (\<lambda>a b. key a < (key b :: nat))"
  by unfold_locales auto

theorem list_sort_correct_witness:
  "\<exists>h' ys. list_sort (\<lambda>a b. a mod 4 < b mod 4) 100 (list_heap 100 [7, 5, 6, 1]) = Some h' \<and> is_list h' 100 ys \<and>
     sorted_wrt (\<lambda>a b. \<not> b mod 4 < a mod 4) ys \<and> mset ys = mset [7, 5, 6, 1] \<and> filter (\<lambda>e. e mod 4 = 1) ys = [5, 1]"
proof -
  have "is_list (list_heap 100 [7, 5, 6, 1]) 100 [7, 5, 6, 1]"
    by (simp add: list_heap_def is_list_def nodes_def link_def list_head_def list_tail_def)
  from list_sort_correct [OF list_less_key this, of "\<lambda>x. x mod 4"] obtain h' ys where
    r: "list_sort (\<lambda>a b. a mod 4 < b mod 4) 100 (list_heap 100 [7, 5, 6, 1]) = Some h'" "is_list h' 100 ys"
      "sorted_wrt (\<lambda>a b. \<not> b mod 4 < a mod 4) ys" "mset ys = mset [7, 5, 6, 1]"
    and c: "\<forall>c. filter (\<lambda>e. \<not> e mod 4 < c mod 4 \<and> \<not> c mod 4 < e mod 4) ys =
      filter (\<lambda>e. \<not> e mod 4 < c mod 4 \<and> \<not> c mod 4 < e mod 4) [7, 5, 6, 1]"
    by blast
  have "(\<lambda>e. \<not> e mod 4 < (1::nat) mod 4 \<and> \<not> 1 mod 4 < e mod 4) = (\<lambda>e. e mod 4 = 1)"
    by (rule ext) auto
  with c [rule_format, of 1] have "filter (\<lambda>e. e mod 4 = 1) ys = [5, 1]" by simp
  with r show ?thesis by blast
qed

text \<open>
  C2. Inserting into a list kept in order by the comparison: \<^verbatim>\<open>list_insert_ordered\<close>
  returns, the list is in order again and holds exactly one element more, and
  the new element goes behind all elements it compares equal to.
\<close>

theorem list_insert_ordered_correct:
  assumes "list_less lessf" and "is_list h l xs" and "sorted_wrt (\<lambda>a b. \<not> lessf b a) xs"
    and "elem \<notin> set (nodes l xs)" and "elem \<noteq> NULL"
  shows "\<exists>h' ys. list_insert_ordered lessf l elem h = Some h' \<and> is_list h' l ys \<and>
     sorted_wrt (\<lambda>a b. \<not> lessf b a) ys \<and> mset ys = add_mset elem (mset xs) \<and>
     filter (\<lambda>e. \<not> lessf e elem \<and> \<not> lessf elem e) ys =
     filter (\<lambda>e. \<not> lessf e elem \<and> \<not> lessf elem e) xs @ [elem]"
  using list_insert_ordered_spec [OF assms(2,4,5), of lessf] mset_insert_ordered [of lessf elem xs]
    list_less.sorted_insert_ordered [OF assms(1,3), of elem]
    list_less.insert_ordered_equals [OF assms(1,3), of elem] by blast

theorem list_insert_ordered_correct_witness:
  "\<exists>h' ys. list_insert_ordered (\<lambda>a b. a mod 4 < b mod 4) 100 9 (list_heap 100 [5, 6, 7]) = Some h' \<and>
     is_list h' 100 ys \<and> mset ys = mset [9, 5, 6, 7]"
proof -
  have "is_list (list_heap 100 [5, 6, 7]) 100 [5, 6, 7]"
    by (simp add: list_heap_def is_list_def nodes_def link_def list_head_def list_tail_def)
  from list_insert_ordered_correct [OF list_less_key this, of "\<lambda>x. x mod 4" 9] show ?thesis
    by (auto simp: nodes_def list_head_def list_tail_def)
qed

text \<open>
  C3. \<^verbatim>\<open>list_remove\<close> undoes \<^verbatim>\<open>list_insert\<close>: after inserting an element anywhere in a list
  and removing it again every list node but the element itself holds the links
  it had before, and \<^verbatim>\<open>list_remove\<close> returns the node before which it was inserted.
\<close>

theorem list_remove_undoes_insert:
  assumes "is_list h l (xs @ ys)" and "elem \<notin> set (nodes l (xs @ ys))" and "elem \<noteq> NULL"
  shows "\<exists>h' h''. list_insert (hd (ys @ [list_tail l])) elem h = Some h' \<and>
     is_list h' l (xs @ elem # ys) \<and>
     list_remove elem h' = Some (hd (ys @ [list_tail l]), h'') \<and> (\<forall>p. p \<noteq> elem \<longrightarrow> h'' p = h p)"
proof -
  obtain h' where i: "list_insert (hd (ys @ [list_tail l])) elem h = Some h'" "is_list h' l (xs @ elem # ys)"
    "unchanged_outside (insert elem (set (nodes l (xs @ ys)))) h h'"
    using list_insert_spec [OF assms] by blast
  obtain h'' where r: "list_remove elem h' = Some (hd (ys @ [list_tail l]), h'')" "is_list h'' l (xs @ ys)"
    "unchanged_outside (set (nodes l (xs @ ys))) h' h''"
    using list_remove_spec [OF i(2)] by blast
  have "unchanged_outside (insert elem (set (nodes l (xs @ ys)))) h h''"
    using i(3) r(3) by (auto simp: unchanged_outside_def)
  then have "unchanged_outside {elem} h h''"
    by (rule is_list_restored [OF assms(1) r(2)]) auto
  with i r show ?thesis by (auto simp: unchanged_outside_def)
qed

theorem list_remove_undoes_insert_witness:
  "\<exists>h' h''. list_insert 6 9 (list_heap 100 [5, 6]) = Some h' \<and> list_remove 9 h' = Some (6, h'') \<and>
     h'' 5 = list_heap 100 [5, 6] 5"
proof -
  have "is_list (list_heap 100 [5, 6]) 100 ([5] @ [6])"
    by (simp add: list_heap_def is_list_def nodes_def link_def list_head_def list_tail_def)
  from list_remove_undoes_insert [OF this, of 9] show ?thesis
    by (auto simp: nodes_def list_head_def list_tail_def)
qed

text \<open>
  C4. \<^verbatim>\<open>list_reverse\<close> returns on every well-formed list, leaves exactly the reversed
  list and writes only to its nodes; reversing twice restores every link.
\<close>

theorem list_reverse_correct:
  assumes "is_list h l xs"
  shows "\<exists>h' h''. list_reverse l h = Some h' \<and> is_list h' l (rev xs) \<and>
     unchanged_outside (set (nodes l xs)) h h' \<and> list_reverse l h' = Some h'' \<and> h'' = h"
proof -
  obtain h' where r: "list_reverse l h = Some h'" "is_list h' l (rev xs)"
    "unchanged_outside (set (nodes l xs)) h h'"
    using list_reverse_spec [OF assms] by blast
  obtain h'' where r': "list_reverse l h' = Some h''" "is_list h'' l (rev (rev xs))"
    "unchanged_outside (set (nodes l (rev xs))) h' h''"
    using list_reverse_spec [OF r(2)] by blast
  have "unchanged_outside (set (nodes l xs)) h h''"
    using r(3) r'(3) by (auto simp: unchanged_outside_def set_nodes)
  then have "unchanged_outside {} h h''"
    by (rule is_list_restored [OF assms r'(2) [unfolded rev_rev_ident]]) simp
  then have "h'' = h" by (auto simp: unchanged_outside_def)
  with r r'(1) show ?thesis by (intro exI [of _ h'] exI [of _ h'']) simp
qed

theorem list_reverse_correct_witness:
  "\<exists>h'. list_reverse 100 (list_heap 100 [5, 6, 7]) = Some h' \<and> is_list h' 100 [7, 6, 5]"
proof -
  have "is_list (list_heap 100 [5, 6, 7]) 100 [5, 6, 7]"
    by (simp add: list_heap_def is_list_def nodes_def link_def list_head_def list_tail_def)
  from list_reverse_correct [OF this] show ?thesis by auto
qed

text \<open>
  C5. \<^verbatim>\<open>list_max\<close> returns the earliest of the largest elements, as its comment
  promises: every element before it is smaller, none after it is larger.
\<close>

theorem list_max_correct:
  assumes "list_less lessf" and "is_list h l xs" and "xs \<noteq> []"
  shows "\<exists>as m bs. xs = as @ m # bs \<and> list_max lessf l h = Some m \<and>
     (\<forall>a\<in>set as. lessf a m) \<and> (\<forall>b\<in>set bs. \<not> lessf m b)"
proof (cases xs)
  case (Cons y ys)
  then show ?thesis
    using list_less.first_best_split [OF list_less_flip [OF assms(1)], of y ys]
      list_max_spec [of h l y ys lessf] assms(2) by blast
qed (use assms(3) in simp)

theorem list_max_correct_witness:
  "\<exists>as m bs. [5, 3, 7] = as @ m # bs \<and>
     list_max (\<lambda>a b. a mod 4 < b mod 4) 100 (list_heap 100 [5, 3, 7]) = Some m \<and> (\<forall>a\<in>set as. a mod 4 < m mod 4)"
proof -
  have "is_list (list_heap 100 [5, 3, 7]) 100 [5, 3, 7]"
    by (simp add: list_heap_def is_list_def nodes_def link_def list_head_def list_tail_def)
  from list_max_correct [OF list_less_key this, of "\<lambda>x. x mod 4"] show ?thesis by blast
qed

text \<open>
  C6. \<^verbatim>\<open>list_unique\<close> returns. The elements of the list fall into groups of neighbours: the list keeps the first of each group,
  every other member of a group compares equal to that first element and is appended, in order, to \<^verbatim>\<open>duplicates\<close>, and the
  first elements of two successive groups compare different.
\<close>

theorem list_unique_correct:
  assumes "is_list h l (e # ys)" and "is_list h d ds"
    and "set (nodes l (e # ys)) \<inter> set (nodes d ds) = {}"
  shows "\<exists>h' gs. list_unique lessf l d h = Some h' \<and> e # ys = concat (map (\<lambda>(k, rs). k # rs) gs) \<and>
     is_list h' l (map fst gs) \<and> is_list h' d (ds @ concat (map snd gs)) \<and>
     (\<forall>(k, rs) \<in> set gs. \<forall>r \<in> set rs. \<not> lessf k r \<and> \<not> lessf r k) \<and>
     successively (\<lambda>a b. lessf a b \<or> lessf b a) (map fst gs)"
proof -
  obtain h' where "list_unique lessf l d h = Some h'" "is_list h' l (e # fst (unique_rest lessf e ys))"
    "is_list h' d (ds @ snd (unique_rest lessf e ys))"
    using list_unique_spec [OF assms(1), of d ds lessf] assms(2,3) is_list_ends(1) [OF assms(2)]
    unfolding dup_list_def by blast
  moreover obtain gs where "groups_of lessf (e # ys) (e # fst (unique_rest lessf e ys)) (snd (unique_rest lessf e ys)) gs"
    using unique_rest_groups ..
  ultimately show ?thesis using unique_rest_successively [of lessf e ys]
    by (intro exI [of _ h'] exI [of _ gs]) (simp only: groups_of_def simp_thms, elim conjE, assumption)
qed

theorem list_unique_correct_witness:
  "\<exists>h' gs. list_unique (\<lambda>a b. a mod 4 < b mod 4) 100 200
       (\<lambda>p. if p < 150 then list_heap 100 [5, 1, 7] p else list_heap 200 [] p) = Some h' \<and>
     is_list h' 100 (map fst gs) \<and> is_list h' 200 (concat (map snd gs)) \<and>
     [5, 1, 7] = concat (map (\<lambda>(k, rs). k # rs) gs)"
proof -
  have "is_list (\<lambda>p. if p < 150 then list_heap 100 [5, 1, 7] p else list_heap 200 [] p) 100 [5, 1, 7]"
    "is_list (\<lambda>p. if p < 150 then list_heap 100 [5, 1, 7] p else list_heap 200 [] p) 200 []"
    by (simp_all add: list_heap_def is_list_def nodes_def link_def list_head_def list_tail_def)
  from list_unique_correct [OF this, of "\<lambda>a b. a mod 4 < b mod 4"] show ?thesis
    by (auto simp: nodes_def list_head_def list_tail_def)
qed

end
