(* ===== verification/Kernel_Props.thy ===== *)
theory Kernel_Props
  imports Steps_Inv Kernel_List_Misc
begin

text \<open>
  The properties of the scheduler, the timer and the synchronization primitives, with sample
  states and runs on which they are evaluated.
\<close>

section \<open>Sample states\<close>

definition demo_thread :: "thread_status \<Rightarrow> int \<Rightarrow> queue_id option \<Rightarrow> thread" where
  "demo_thread st pri q = no_thread\<lparr>status := st, b_pri := pri, e_pri := pri, queue := q, elem_in := q, magic := True\<rparr>"

text \<open>
  Thread 1 is running and holds lock 9, threads 2 and 3 are ready, 3 holding lock 5, 4 sleeps,
  and 6 and 7 wait for condition 0.
\<close>

definition demo_kernel :: "sched_policy \<Rightarrow> kernel" where
  "demo_kernel policy = (boot_kernel policy (\<lambda>_. 0) 1)\<lparr>
     threads := (\<lambda>_. no_thread)(1 := (demo_thread THREAD_RUNNING 50 None)\<lparr>lock_queue := [9]\<rparr>,
       2 := demo_thread THREAD_READY 40 (Some ReadyQ),
       3 := (demo_thread THREAD_READY 20 (Some ReadyQ))\<lparr>lock_queue := [5]\<rparr>,
       4 := (demo_thread THREAD_BLOCKED 30 (Some SleepQ))\<lparr>wake_up := 3\<rparr>,
       6 := demo_thread THREAD_BLOCKED 10 (Some (CondQ 0)), 7 := demo_thread THREAD_BLOCKED 35 (Some (CondQ 0))),
     locks := (\<lambda>_. \<lparr>holder = None, lock_state = 1, lock_pri = 0\<rparr>)(5 := \<lparr>holder = Some 3, lock_state = 0, lock_pri = 20\<rparr>,
       9 := \<lparr>holder = Some 1, lock_state = 0, lock_pri = 50\<rparr>),
     sema_value := (\<lambda>_. 1)(LockSema 5 := 0, LockSema 9 := 0),
     queues := (\<lambda>_. [])(ReadyQ := [2, 3], SleepQ := [4], CondQ 0 := [6, 7]), all_list := [1, 2, 3, 4, 6, 7], ticks := 2\<rparr>"

lemmas demo_defs = demo_kernel_def demo_thread_def boot_kernel_def no_thread_def

lemma demo_kernel_ok: "kernel_ok (demo_kernel policy)"
proof -
  have "thread_ok (demo_kernel policy) t" for t
    by (auto simp: thread_ok_def demo_defs is_thread_def)
  moreover have "queues_ok (demo_kernel policy)" "sorted_ok (demo_kernel policy)" "locks_ok (demo_kernel policy)"
    by (auto simp: queues_ok_def sorted_ok_def locks_ok_def demo_defs)
  ultimately show ?thesis
    by (simp add: kernel_ok_def core_def) (simp add: demo_defs is_thread_def)
qed

interpretation thread_order: list_less "thread_before (grater_thread_pri k)" for k
  by unfold_locales (auto simp: thread_before_def grater_thread_pri_def)

text \<open>
  C16. Sorting the waiters of a condition variable the way \<^verbatim>\<open>cond_signal\<close> does, with \<^verbatim>\<open>list_sort\<close>
  on the linked list and \<^verbatim>\<open>thread_before\<close> as comparison, gives the list that the model of
  \<^verbatim>\<open>cond_signal\<close> continues with.
\<close>

theorem list_sort_waiters:
  assumes "is_list h l (queues k (CondQ c))"
  shows "\<exists>h'. list_sort (thread_before (grater_thread_pri k)) l h = Some h' \<and>
    is_list h' l (queues (sort_waiters c k) (CondQ c))"
proof -
  obtain h' ys where r: "list_sort (thread_before (grater_thread_pri k)) l h = Some h'" "is_list h' l ys"
    and sorted: "sorted_wrt (nless (thread_before (grater_thread_pri k))) ys"
    and perm: "stable_perm (thread_before (grater_thread_pri k)) (queues k (CondQ c)) ys"
    using list_sort_refines [OF thread_order.list_less_axioms assms] by blast
  have "sort_key (\<lambda>t. - prio k t) (queues k (CondQ c)) = ys"
  proof (rule properties_for_sort_key)
    show "mset ys = mset (queues k (CondQ c))" using perm by (simp add: stable_perm_def)
    show "filter (\<lambda>x. - prio k t = - prio k x) ys = filter (\<lambda>x. - prio k t = - prio k x) (queues k (CondQ c))" for t
    proof -
      have "(\<lambda>e. \<not> thread_before (grater_thread_pri k) e t \<and> \<not> thread_before (grater_thread_pri k) t e)
        = (\<lambda>x. - prio k t = - prio k x)"
        by (auto simp: thread_before_def grater_thread_pri_def fun_eq_iff)
      moreover have "filter (\<lambda>e. \<not> thread_before (grater_thread_pri k) e t \<and> \<not> thread_before (grater_thread_pri k) t e) ys
        = filter (\<lambda>e. \<not> thread_before (grater_thread_pri k) e t \<and> \<not> thread_before (grater_thread_pri k) t e) (queues k (CondQ c))"
        using perm unfolding stable_perm_def by blast
      ultimately show ?thesis by simp
    qed
    show "sorted (map (\<lambda>t. - prio k t) ys)"
      using sorted by (simp add: sorted_map thread_before_def grater_thread_pri_def not_less)
  qed
  with r show ?thesis by (auto simp: sort_waiters_def)
qed

theorem list_sort_waiters_witness:
  "\<exists>h'. list_sort (thread_before (grater_thread_pri (demo_kernel SCHED_FIFO))) 100 (list_heap 100 [3, 4, 2]) = Some h' \<and>
     is_list h' 100 [2, 4, 3]"
proof -
  let ?k = "upd_queue (CondQ 0) [3, 4, 2] (demo_kernel SCHED_FIFO)"
  have "is_list (list_heap 100 [3, 4, 2]) 100 [3, 4, 2]"
    by (simp add: list_heap_def is_list_def nodes_def link_def list_head_def list_tail_def)
  moreover have "queues (sort_waiters 0 ?k) (CondQ 0) = [2, 4, 3]"
    by (simp add: sort_waiters_def demo_defs sort_key_simps)
  moreover have "grater_thread_pri ?k = grater_thread_pri (demo_kernel SCHED_FIFO)"
    by (simp add: grater_thread_pri_def fun_eq_iff)
  ultimately show ?thesis
    using list_sort_waiters [of "list_heap 100 [3, 4, 2]" 100 ?k 0] by simp
qed

text \<open>
  C17. \<^verbatim>\<open>cond_signal\<close>, not interrupted, wakes a waiter of the highest priority and no other: the thread it returns leaves
  the waiters for the ready list, the rest keep waiting.
\<close>

theorem cond_signal_wakes_highest:
  assumes "kernel_ok k" and "cond_signal c l k = Some (k', Some t)"
  shows "t \<in> set (queues k (CondQ c)) \<and> (\<forall>u \<in> set (queues k (CondQ c)). e_pri (threads k u) \<le> e_pri (threads k t)) \<and>
     mset (queues k (CondQ c)) = add_mset t (mset (queues k' (CondQ c))) \<and>
     status (threads k' t) = THREAD_READY \<and> t \<in> set (queues k' ReadyQ)"
proof -
  let ?xs = "sort_key (\<lambda>t. - prio k t) (queues k (CondQ c))"
  obtain k1 where k1: "elem_pop_front (CondQ c) (sort_waiters c k) = Some (t, k1)"
      and k': "thread_unblock t (upd_thread t (queue_update (\<lambda>_. None)) k1) = Some k'"
    using assms(2) by (auto simp: cond_signal_def cond_pop_def bind_eq_Some_conv split: if_splits)
  note pop = elem_pop_front_core [OF kernel_ok_core [OF sort_waiters_ok [OF assms(1)]] k1]
  have xs: "?xs = t # queues k1 (CondQ c)" using pop(2) by (simp add: sort_waiters_def)
  have "cond_pop c (sort_waiters c k) = Some (t, k')"
    using k1 k' by (simp add: cond_pop_def)
  from cond_pop_ok(1) [OF sort_waiters_ok [OF assms(1)] this] have ok': "kernel_ok k'" .
  obtain ys where k'_eq: "k' = upd_queue ReadyQ ys (upd_thread t (\<lambda>th. th\<lparr>queue := Some ReadyQ,
      elem_in := Some ReadyQ, status := THREAD_READY\<rparr>) k1)"
    using k' by (auto simp: thread_unblock_def thread_enqueue_def bind_eq_Some_conv Let_def elem_push_back_def
      elem_insert_ordered_def link_elem_def split: sched_policy.splits)
  have "sorted (map (\<lambda>t. - prio k t) (t # queues k1 (CondQ c)))"
    unfolding xs [symmetric] by simp
  moreover have "mset (queues k (CondQ c)) = mset (t # queues k1 (CondQ c))"
    unfolding xs [symmetric] by simp
  moreover from this have "set (queues k (CondQ c)) = set (t # queues k1 (CondQ c))"
    by (metis set_mset_mset)
  moreover have "t \<in> set (queues k' ReadyQ)"
    using ok' by (simp add: kernel_ok_def core_def queues_ok_def) (simp add: k'_eq)
  ultimately show ?thesis by (auto simp: k'_eq)
qed

theorem cond_signal_wakes_highest_witness:
  "\<exists>k'. cond_signal 0 9 (demo_kernel SCHED_PRIO) = Some (k', Some 7) \<and> queues k' (CondQ 0) = [6] \<and>
     7 \<in> set (queues k' ReadyQ)"
proof -
  have "map_option snd (cond_signal 0 9 (demo_kernel SCHED_PRIO)) = Some (Some 7)"
    by code_simp
  then obtain k' where k': "cond_signal 0 9 (demo_kernel SCHED_PRIO) = Some (k', Some 7)"
    by (auto simp del: One_nat_def)
  from cond_signal_wakes_highest [OF demo_kernel_ok k'] show ?thesis
    using k' by (auto simp: demo_defs)
qed

lemma thread_switch_tail_keeps:
  assumes "thread_switch_tail prev k = Some k'"
  shows "running k' = running k" and "queues k' = queues k" and "idle_thread k' = idle_thread k"
    and "active_sched_policy k' = active_sched_policy k" and "in_external_intr k' = in_external_intr k"
    and "u \<noteq> running k \<Longrightarrow> magic (threads k u) \<Longrightarrow> status (threads k u) \<noteq> THREAD_DYING \<Longrightarrow> threads k' u = threads k u"
  using assms by (auto simp: thread_switch_tail_def Let_def running_thread_def bind_eq_Some_conv split: option.splits if_splits)

lemma schedule_running:
  assumes "schedule k = Some k'" and "queues k ReadyQ = t # ts"
  shows "running k' = t" and "queues k' = (queues k)(ReadyQ := ts)"
    and "idle_thread k' = idle_thread k" and "active_sched_policy k' = active_sched_policy k"
    and "in_external_intr k' = in_external_intr k"
proof -
  obtain prev k1 where "thread_switch_tail prev k1 = Some k'" "running k1 = t" "queues k1 = (queues k)(ReadyQ := ts)"
    "idle_thread k1 = idle_thread k" "active_sched_policy k1 = active_sched_policy k" "in_external_intr k1 = in_external_intr k"
    using assms by (auto simp: schedule_def Let_def bind_eq_Some_conv next_thread_to_run_def thread_schedule_fifo_def
      thread_schedule_prio_def elem_pop_front_def split: sched_policy.splits)
  with thread_switch_tail_keeps [OF this(1)]
  show "running k' = t" and "queues k' = (queues k)(ReadyQ := ts)"
    and "idle_thread k' = idle_thread k" and "active_sched_policy k' = active_sched_policy k"
    and "in_external_intr k' = in_external_intr k"
    by simp_all
qed

lemma schedule_returns:
  assumes "core k" and "queues k ReadyQ = t # ts" and "active_sched_policy k \<in> {SCHED_FIFO, SCHED_PRIO}"
    and "status (threads k (running k)) \<noteq> THREAD_RUNNING"
  shows "\<exists>k'. schedule k = Some k'"
proof -
  have "elem_in (threads k t) = Some ReadyQ"
    using assms(1,2) unfolding core_def queues_ok_def by (metis list.set_intros(1))
  then have "is_thread t k"
    using core_thread_ok [OF assms(1), of t] by (simp add: thread_ok_def)
  then show ?thesis
    using assms(2-4) by (auto simp: schedule_def Let_def running_thread_def next_thread_to_run_def thread_schedule_fifo_def
      thread_schedule_prio_def elem_pop_front_def thread_switch_tail_def is_thread_def split: option.splits)
qed

text \<open>
  C12. Under the priority scheduler the thread that \<^verbatim>\<open>schedule\<close> switches to has the highest
  effective priority of all ready threads, and \<^verbatim>\<open>schedule\<close> switches to a ready
  thread whenever there is one.
\<close>

theorem schedule_highest_priority:
  assumes "core k" and "queues k ReadyQ \<noteq> []" and "active_sched_policy k = SCHED_PRIO"
    and "status (threads k (running k)) \<noteq> THREAD_RUNNING"
  shows "\<exists>k'. schedule k = Some k' \<and> kernel_ok k' \<and> running k' \<in> set (queues k ReadyQ) \<and>
     (\<forall>u \<in> set (queues k ReadyQ). e_pri (threads k u) \<le> e_pri (threads k (running k'))) \<and>
     queues k' ReadyQ = remove1 (running k') (queues k ReadyQ)"
proof -
  obtain t ts where q: "queues k ReadyQ = t # ts" using assms(2) by (cases "queues k ReadyQ") auto
  obtain k' where k': "schedule k = Some k'"
    using schedule_returns [OF assms(1) q _ assms(4)] assms(3) by auto
  have "desc_by (prio k) (t # ts)"
    using assms(1,3) q by (auto simp: core_def sorted_ok_def)
  with k' schedule_ok [OF assms(1) k'] schedule_running [OF k' q] q show ?thesis
    by (auto dest: desc_by_head)
qed

theorem schedule_highest_priority_witness:
  "\<exists>k'. schedule (upd_thread 1 (status_update (\<lambda>_. THREAD_BLOCKED)) (demo_kernel SCHED_PRIO)) = Some k' \<and> kernel_ok k' \<and>
     running k' \<in> {2, 3} \<and> e_pri (threads (demo_kernel SCHED_PRIO) 2) \<le> e_pri (threads (demo_kernel SCHED_PRIO) (running k'))"
proof -
  let ?d = "demo_kernel SCHED_PRIO" and ?k = "upd_thread 1 (status_update (\<lambda>_. THREAD_BLOCKED)) (demo_kernel SCHED_PRIO)"
  have "core ?k"
    by (rule upd_thread_core [OF kernel_ok_core [OF demo_kernel_ok]])
      (simp_all add: thread_ok_def demo_defs is_thread_def)
  from schedule_highest_priority [OF this] show ?thesis
    by (fastforce simp: demo_defs)
qed

section \<open>Round robin\<close>

fun yields :: "nat \<Rightarrow> kernel \<Rightarrow> kernel option" where
  "yields 0 k = Some k"
| "yields (Suc n) k = do { k \<leftarrow> thread_yield k; yields n k }"

lemma thread_yield_fifo:
  assumes ok: "kernel_ok k" and fifo: "active_sched_policy k = SCHED_FIFO" and "\<not> in_external_intr k"
    and idle: "idle_thread k \<noteq> Some (running k)" and free: "elem_in (threads k (running k)) = None"
  shows "\<exists>k'. thread_yield k = Some k' \<and> running k' # queues k' ReadyQ = rotate1 (running k # queues k ReadyQ) \<and>
    kernel_ok k' \<and> active_sched_policy k' = SCHED_FIFO \<and> \<not> in_external_intr k' \<and> idle_thread k' = idle_thread k \<and>
    elem_in (threads k' (running k')) = None"
proof -
  let ?r = "running k"
  let ?k1 = "upd_queue ReadyQ (queues k ReadyQ @ [?r]) (upd_thread ?r (\<lambda>th. th\<lparr>queue := Some ReadyQ, elem_in := Some ReadyQ\<rparr>) k)"
  let ?k2 = "upd_thread ?r (status_update (\<lambda>_. THREAD_READY)) ?k1"
  have enq: "thread_enqueue ?r k = Some ?k1"
    using ok fifo free by (simp add: thread_enqueue_def kernel_ok_def is_thread_def elem_push_back_def link_elem_def)
  have y: "thread_yield k = schedule ?k2"
    using ok idle enq assms(3) by (simp add: thread_yield_def kernel_ok_current)
  have core: "core ?k2"
    by (rule yield_core [OF ok]) (use idle enq in simp)
  obtain t ts where q: "queues k ReadyQ @ [?r] = t # ts" by (cases "queues k ReadyQ") auto
  have q2: "queues ?k2 ReadyQ = t # ts" using q by simp
  obtain k' where k': "schedule ?k2 = Some k'"
    using schedule_returns [OF core q2] fifo by auto
  from y k' have yk: "thread_yield k = Some k'" by simp
  show ?thesis
    using yk thread_yield_ok [OF ok yk] thread_yield_same [OF ok yk] schedule_running [OF k' q2] q fifo assms(3)
    by (auto simp: same_sync_def)
qed

text \<open>
  C13. Under the FIFO scheduler threads that keep yielding take turns: if neither the running
  thread nor a ready one is the idle thread, \<open>n\<close> calls of \<^verbatim>\<open>thread_yield\<close> return and rotate the
  sequence of the running thread and the ready list by \<open>n\<close>, so that a thread at
  position \<open>n\<close> of that sequence is running after them.
\<close>

theorem yield_round_robin:
  assumes "kernel_ok k" and "active_sched_policy k = SCHED_FIFO" and "\<not> in_external_intr k"
    and "elem_in (threads k (running k)) = None"
    and "\<forall>i. idle_thread k = Some i \<longrightarrow> i \<notin> set (running k # queues k ReadyQ)"
  shows "\<exists>k'. yields n k = Some k' \<and> running k' # queues k' ReadyQ = rotate n (running k # queues k ReadyQ) \<and>
     (n < length (running k # queues k ReadyQ) \<longrightarrow> running k' = (running k # queues k ReadyQ) ! n)"
proof -
  have "\<exists>k'. yields n k = Some k' \<and> running k' # queues k' ReadyQ = rotate n (running k # queues k ReadyQ)"
    using assms
  proof (induction n arbitrary: k)
    case (Suc n)
    then have "idle_thread k \<noteq> Some (running k)" by auto
    from thread_yield_fifo [OF Suc.prems(1-3) this Suc.prems(4)] obtain k1 where k1: "thread_yield k = Some k1"
      "running k1 # queues k1 ReadyQ = rotate1 (running k # queues k ReadyQ)" "kernel_ok k1"
      "active_sched_policy k1 = SCHED_FIFO" "\<not> in_external_intr k1" "idle_thread k1 = idle_thread k"
      "elem_in (threads k1 (running k1)) = None" by blast
    have "set (running k1 # queues k1 ReadyQ) = set (running k # queues k ReadyQ)"
      by (simp only: k1(2) set_rotate1)
    then have "\<forall>i. idle_thread k1 = Some i \<longrightarrow> i \<notin> set (running k1 # queues k1 ReadyQ)"
      using Suc.prems(5) k1(6) by simp
    from Suc.IH [OF k1(3-5,7) this] k1(1,2) show ?case
      by (simp add: rotate1_rotate_swap)
  qed simp
  then obtain k' where k': "yields n k = Some k'" "running k' # queues k' ReadyQ = rotate n (running k # queues k ReadyQ)"
    by blast
  have "running k' = hd (rotate n (running k # queues k ReadyQ))" using k'(2) by (metis list.sel(1))
  then have "n < length (running k # queues k ReadyQ) \<longrightarrow> running k' = (running k # queues k ReadyQ) ! n"
    using hd_rotate_conv_nth [of "running k # queues k ReadyQ" n] by simp
  with k' show ?thesis by blast
qed

theorem yield_round_robin_witness:
  "\<exists>k'. yields 2 (demo_kernel SCHED_FIFO) = Some k' \<and> running k' = 3 \<and> queues k' ReadyQ = [1, 2]"
proof -
  have *: "running (demo_kernel SCHED_FIFO) # queues (demo_kernel SCHED_FIFO) ReadyQ = [1, 2, 3]"
    by (simp add: demo_defs)
  have "\<exists>k'. yields 2 (demo_kernel SCHED_FIFO) = Some k' \<and> running k' # queues k' ReadyQ = rotate 2 [1, 2, 3] \<and>
     (2 < length [1, 2, 3::nat] \<longrightarrow> running k' = [1, 2, 3] ! 2)"
    using yield_round_robin [OF demo_kernel_ok, of SCHED_FIFO 2] unfolding * by (simp add: demo_defs)
  then show ?thesis by (auto simp: rotate_def numeral_2_eq_2)
qed

section \<open>Timer\<close>

lemma while_sorted:
  assumes "sorted (map f xs)"
  shows "dropWhile (\<lambda>x. f x \<le> (c::'b::linorder)) xs = filter (\<lambda>x. \<not> f x \<le> c) xs"
    and "takeWhile (\<lambda>x. f x \<le> c) xs = filter (\<lambda>x. f x \<le> c) xs"
  using assms
proof (induction xs)
  case (Cons a xs)
  { case 1 then show ?case using Cons.IH(1) by (force simp: not_le intro: filter_True [symmetric]) }
  { case 2 then show ?case using Cons.IH(2) by (force simp: not_le intro: filter_False [symmetric]) }
qed simp_all

text \<open>
  C14. The timer interrupt returns in every state that satisfies the invariant of the kernel. If the list of sleepers is
  ordered by wake-up time, as \<^verbatim>\<open>timer_sleep\<close> leaves it, it moves exactly the threads whose time has come to the ready
  list and leaves the others asleep. A donation to a sleeping thread destroys that order.
\<close>

theorem timer_interrupt_wakes_due:
  assumes "kernel_ok k" and "active_sched_policy k \<in> {SCHED_FIFO, SCHED_PRIO}"
    and "sorted (map (\<lambda>t. wake_up (threads k t)) (queues k SleepQ))"
  shows "\<exists>k'. timer_interrupt k = Some k' \<and> kernel_ok k' \<and> running k' = running k \<and>
     queues k' SleepQ = filter (\<lambda>t. wake_up (threads k t) > ticks k + 1) (queues k SleepQ) \<and>
     set (queues k' ReadyQ) = set (queues k ReadyQ) \<union> {t \<in> set (queues k SleepQ). wake_up (threads k t) \<le> ticks k + 1}"
proof -
  from while_sorted [OF assms(3), of "ticks k + 1"] timer_interrupt_spec [OF assms(1,2)] show ?thesis
    by (auto simp: not_le)
qed

theorem timer_interrupt_wakes_due_witness:
  "\<exists>k'. timer_interrupt (demo_kernel SCHED_PRIO) = Some k' \<and> kernel_ok k' \<and> queues k' SleepQ = [] \<and>
     set (queues k' ReadyQ) = {2, 3, 4}"
  using timer_interrupt_wakes_due [OF demo_kernel_ok, of SCHED_PRIO]
  by (auto simp: demo_defs)

section \<open>Donation\<close>

text \<open>
  C11. \<^verbatim>\<open>donate_pri_acquire\<close> returns, though its loop follows the chain of holders without a
  bound: if every lock waited for is held and every holder that waits is linked into the
  list its \<open>queue\<close> names, it keeps the invariant of the kernel and, if only the
  caller's wait was not yet accounted for, afterwards no waiting thread has a
  higher priority than the lock it waits for or the thread that holds it.
\<close>

theorem donate_pri_acquire_correct:
  assumes "kernel_ok k" and "chain_ok k" and "donated_for (threads k (running k)) = Some l"
    and "holder (locks k l) = Some d" and "donation_ok_but (Some (running k)) k"
  shows "\<exists>k'. donate_pri_acquire (running k) l k = Some k' \<and> kernel_ok k' \<and>
     (\<forall>t m. donated_for (threads k' t) = Some m \<longrightarrow> (\<exists>h. holder (locks k' m) = Some h \<and>
        e_pri (threads k' t) \<le> lock_pri (locks k' m) \<and> e_pri (threads k' t) \<le> e_pri (threads k' h)))"
proof -
  obtain k' where k': "donate_loop (Some l) (Some d) (running k) k = Some k'"
    using donate_loop_returns [OF assms(1,2,4) refl] by blast
  have g: "kernel_ok k'" "donated (prio k (running k)) k k'" "donation_ok_but None k'"
    using donate_loop_goal [OF k'] assms by (auto simp: donate_goal_def)
  have "\<exists>h. holder (locks k' m) = Some h \<and> prio k' t \<le> lock_pri (locks k' m) \<and> prio k' t \<le> prio k' h"
    if m: "donated_for (threads k' t) = Some m" for t m
  proof -
    obtain h where h: "holder (locks k' m) = Some h"
      using m chain_ok_donated [OF assms(2) g(2)] unfolding chain_ok_def by blast
    have "prio k' t \<le> lock_pri (locks k' m)"
      using g(3) m h by (auto simp: donation_ok_but_def)
    moreover have "lock_pri (locks k' m) \<le> prio k' h"
      using g(1) h by (auto simp: kernel_ok_def core_def locks_ok_def)
    ultimately show ?thesis using h by auto
  qed
  with k' g(1) show ?thesis
    using assms(4) by (auto simp: donate_pri_acquire_def)
qed

theorem donate_pri_acquire_correct_witness:
  "\<exists>k'. donate_pri_acquire 1 5 (upd_thread 1 (donated_for_update (\<lambda>_. Some 5)) (demo_kernel SCHED_PRIO)) = Some k' \<and>
     kernel_ok k'"
proof -
  let ?k = "upd_thread 1 (donated_for_update (\<lambda>_. Some 5)) (demo_kernel SCHED_PRIO)"
  have "kernel_ok ?k"
    using demo_kernel_ok by (rule kernel_ok_upd_thread) simp_all
  moreover have "{l. holder (locks (demo_kernel SCHED_PRIO) l) \<noteq> None} = {5, 9}"
    by (auto simp: demo_defs split: if_splits)
  then have "chain_ok ?k"
    by (auto simp: chain_ok_def demo_defs split: if_splits)
  moreover have "donation_ok_but (Some 1) ?k"
    by (auto simp: donation_ok_but_def demo_defs split: if_splits)
  moreover have "running ?k = 1" "donated_for (threads ?k 1) = Some 5" "holder (locks ?k 5) = Some 3"
    by (simp_all add: demo_defs)
  ultimately show ?thesis
    using donate_pri_acquire_correct [of ?k 5 3] by auto
qed

text \<open>
  C15. \<^verbatim>\<open>lock_release\<close> gives back what was donated for the lock: afterwards the releasing thread
  has the highest priority of the locks it still holds, or its base priority if it
  holds none. (The comment on \<^verbatim>\<open>donate_pri_acquire\<close> says that it falls back to the base
  priority although other locks with donations remain.)
\<close>

theorem lock_release_restores_priority:
  assumes "kernel_ok k" and "lock_release_leave l k = Some k'"
  shows "(let rest = remove1 l (lock_queue (threads k (running k))) in
     lock_queue (threads k' (running k)) = rest \<and>
     e_pri (threads k' (running k)) = (if rest = [] then b_pri (threads k (running k))
       else Max ((\<lambda>m. lock_pri (locks k m)) ` set rest)))"
proof -
  note ok = lock_release_leave_ok [OF assms]
  let ?rest = "remove1 l (lock_queue (threads k (running k)))"
  have q: "lock_queue (threads k' (running k)) = ?rest"
    using assms by (auto simp: lock_release_leave_def Let_def bind_eq_Some_conv lock_queue_remove_def kernel_ok_current
      lock_held_by_current_thread_def)
  have "desc_by (\<lambda>m. lock_pri (locks k m)) ?rest"
    using assms(1) by (auto simp: kernel_ok_def core_def locks_ok_def intro: desc_by_remove1)
  then have "Max ((\<lambda>m. lock_pri (locks k m)) ` set ?rest) = lock_pri (locks k (hd ?rest))" if "?rest \<noteq> []"
    using that desc_by_head by (intro Max_eqI) (cases ?rest; force)+
  with ok(9) q show ?thesis
    by (auto simp: Let_def split: list.splits)
qed
lemma pending_0: "pending fs l = 0 \<longleftrightarrow> SemaUpF (LockSema l) \<notin> set fs"
  by (induction fs) auto

theorem lock_release_restores_priority_witness:
  "\<exists>k'. lock_release_leave 7 (lock_take 8 1 (lock_take 7 1 (demo_kernel SCHED_PRIO))) = Some k' \<and>
     lock_queue (threads k' 1) = [8, 9] \<and> e_pri (threads k' 1) = 50"
proof -
  let ?k = "lock_take 8 1 (lock_take 7 1 (demo_kernel SCHED_PRIO))"
  have r: "running (demo_kernel SCHED_PRIO) = 1" "running (lock_take 7 1 (demo_kernel SCHED_PRIO)) = 1" "running ?k = 1"
    by (simp_all add: lock_take_def lock_queue_insert_def demo_defs)
  have "kernel_ok ?k"
    using lock_take_ok [OF lock_take_ok [OF demo_kernel_ok], of SCHED_PRIO 7 8] r
    by (simp add: lock_take_def lock_queue_insert_def demo_defs)
  moreover have d: "lock_queue (threads ?k 1) = [8, 7, 9]" "holder (locks ?k 7) = Some 1" "lock_pri (locks ?k 8) = 50" "lock_pri (locks ?k 9) = 50"
    by (simp_all add: lock_take_def lock_queue_insert_def demo_defs lock_before_def insert_ordered_def)
  moreover obtain k' where "lock_release_leave 7 ?k = Some k'"
    using d r \<open>kernel_ok ?k\<close>
    by (auto simp: lock_release_leave_def lock_held_by_current_thread_def kernel_ok_current lock_queue_remove_def Let_def)
  ultimately show ?thesis
    using lock_release_restores_priority [of ?k 7 k'] r by (auto simp: Let_def)
qed

section \<open>Reachable configurations\<close>

text \<open>Scripted runs of the transition system.\<close>

datatype act = Run | Tick | Call api | Create ptr int | Sleep int | SetPri int

fun perform :: "act \<Rightarrow> config \<Rightarrow> config option" where
  "perform Run c = (case frames c (running (kern c)) of
     [] \<Rightarrow> None
   | f # fs \<Rightarrow> do {
       (k', fs') \<leftarrow> exec_frame f (kern c);
       Some (c\<lparr>kern := k', frames := (frames c)(running (kern c) := fs' @ fs)\<rparr>)
     })"
| "perform Tick c = (if frames c (running (kern c)) = [] \<or> intr_on (hd (frames c (running (kern c)))) then do {
     k' \<leftarrow> intr_handler_external timer_interrupt (kern c);
     Some (c\<lparr>kern := k'\<rparr>)
   } else None)"
| "perform (Call op) c = (if frames c (running (kern c)) = []
     then Some (c\<lparr>frames := (frames c)(running (kern c) := api_frames c op)\<rparr>) else None)"
| "perform (Create t p) c = (if frames c (running (kern c)) = [] \<and> \<not> magic (threads (kern c) t) \<and>
       idle_thread (kern c) \<noteq> Some t \<and> frames c t = []
     then thread_create t p [] c else None)"
| "perform (Sleep n) c = (if frames c (running (kern c)) = [] then do {
     k' \<leftarrow> timer_sleep n (kern c);
     Some (c\<lparr>kern := k'\<rparr>)
   } else None)"
| "perform (SetPri p) c = do {
     ASSERT (frames c (running (kern c)) = [] \<and> PRI_MIN \<le> p \<and> p \<le> PRI_MAX);
     (k', flag) \<leftarrow> thread_set_priority p (kern c);
     Some (c\<lparr>kern := k', frames := (frames c)(running (kern c) := if flag then [YieldF] else [])\<rparr>)
   }"

fun performs :: "act list \<Rightarrow> config \<Rightarrow> config option" where
  "performs [] c = Some c"
| "performs (a # as) c = do { c \<leftarrow> perform a c; performs as c }"

lemma perform_step: "perform a c = Some c' \<Longrightarrow> step c c'"
proof (cases a)
  case (SetPri p)
  then show "perform a c = Some c' \<Longrightarrow> step c c'"
    using step.set_priority by (fastforce simp: bind_eq_Some_conv simp del: if_split_asm)
qed (auto simp: bind_eq_Some_conv split: list.splits if_splits intro: step.intros)

lemma performs_steps: "performs as c = Some c' \<Longrightarrow> step\<^sup>*\<^sup>* c c'"
  by (induction as arbitrary: c) (auto simp: bind_eq_Some_conv dest: perform_step intro: converse_rtranclp_into_rtranclp)

definition boot :: "act list \<Rightarrow> config option" where
  "boot as = do {
     c \<leftarrow> thread_init SCHED_PRIO (\<lambda>_. 0) (\<lambda>_. rw_lock_init 0 0 0) 1;
     performs as c
   }"

definition reachable :: "config \<Rightarrow> bool" where
  "reachable c \<longleftrightarrow> (\<exists>policy v w main c\<^sub>0. policy \<in> {SCHED_FIFO, SCHED_PRIO} \<and>
     thread_init policy v w main = Some c\<^sub>0 \<and> step\<^sup>*\<^sup>* c\<^sub>0 c)"

lemma boot_reachable: "boot as = Some c \<Longrightarrow> reachable c"
  using performs_steps unfolding boot_def reachable_def bind_eq_Some_conv by blast

lemma reachable_ok: "reachable c \<Longrightarrow> config_ok c"
  using steps_config_ok thread_init_ok unfolding reachable_def by blast

lemma demo_run:
  "\<exists>c. reachable c \<and> lock_queue (threads (kern c) 1) = [0]"
proof -
  have "map_option (\<lambda>c. lock_queue (threads (kern c) 1)) (boot [Run, Run]) = Some [0]"
  by code_simp
  then show ?thesis using boot_reachable by blast
qed

text \<open>
  C9. Priorities are in order in every configuration that the transition system reaches, whatever kernel functions the
  threads call and whenever the timer interrupts: the waiters of every semaphore and, under the priority scheduler, the
  ready list are ordered by effective priority, the highest first; the locks of a thread are ordered by the priority
  donated through them, and the effective priority of a thread is at least that of each lock it holds. The transition
  system ends a run at the first element that is linked into a second list, and lets a thread exit only when
  it holds no lock.
\<close>

theorem reachable_priority_order:
  assumes "reachable c"
  shows "(\<forall>s. sorted_wrt (\<lambda>t u. e_pri (threads (kern c) t) \<ge> e_pri (threads (kern c) u)) (queues (kern c) (SemaQ s))) \<and>
    (active_sched_policy (kern c) = SCHED_PRIO \<longrightarrow>
      sorted_wrt (\<lambda>t u. e_pri (threads (kern c) t) \<ge> e_pri (threads (kern c) u)) (queues (kern c) ReadyQ)) \<and>
    (\<forall>t. sorted_wrt (\<lambda>l m. lock_pri (locks (kern c) l) \<ge> lock_pri (locks (kern c) m)) (lock_queue (threads (kern c) t))) \<and>
    (\<forall>l t. holder (locks (kern c) l) = Some t \<longrightarrow> lock_pri (locks (kern c) l) \<le> e_pri (threads (kern c) t))"
proof -
  have s: "sorted_ok (kern c)" and l: "locks_ok (kern c)"
    using reachable_ok [OF assms] by (simp_all add: config_ok_def kernel_ok_def core_def)
  have "\<forall>l t. holder (locks (kern c) l) = Some t \<longrightarrow> lock_pri (locks (kern c) l) \<le> e_pri (threads (kern c) t)"
    using l unfolding locks_ok_def by blast
  moreover have "\<forall>t. desc_by (\<lambda>l. lock_pri (locks (kern c) l)) (lock_queue (threads (kern c) t))"
    using l unfolding locks_ok_def by blast
  ultimately show ?thesis using s unfolding sorted_ok_def desc_by_def by blast
qed

theorem reachable_priority_order_witness:
  "\<exists>c :: config. holder (locks (kern c) 0) = Some 1 \<and> lock_pri (locks (kern c) 0) \<le> e_pri (threads (kern c) 1)"
proof -
  obtain c where c: "reachable c" "lock_queue (threads (kern c) 1) = [0]" using demo_run by blast
  have "locks_ok (kern c)" using reachable_ok [OF c(1)] by (simp add: config_ok_def kernel_ok_iff)
  then have "0 \<in> set (lock_queue (threads (kern c) 1)) \<longleftrightarrow> holder (locks (kern c) 0) = Some 1"
    unfolding locks_ok_def by blast
  with c(2) have "holder (locks (kern c) 0) = Some 1" by simp
  with reachable_priority_order [OF c(1)] show ?thesis by blast
qed

text \<open>
  C10. Locks are mutually exclusive: in every reachable configuration a lock is held by at most
  one thread, in its queue alone, and while it is held its semaphore is zero and nobody is
  about to increment it. A run ends at the first element that is linked into a second list, and a thread exits only
  when it holds no lock.
\<close>

theorem lock_mutual_exclusion:
  assumes "reachable c" and "l \<in> set (lock_queue (threads (kern c) t))"
  shows "holder (locks (kern c) l) = Some t \<and> sema_value (kern c) (LockSema l) = 0 \<and>
     (\<forall>u. SemaUpF (LockSema l) \<notin> set (frames c u)) \<and>
     (\<forall>u. l \<in> set (lock_queue (threads (kern c) u)) \<longrightarrow> u = t)"
proof -
  have ok: "config_ok c"
    using reachable_ok [OF assms(1)] .
  then have "locks_ok (kern c)" by (simp add: config_ok_def kernel_ok_iff)
  then have h: "m \<in> set (lock_queue (threads (kern c) u)) \<longleftrightarrow> holder (locks (kern c) m) = Some u" for m u
    by (simp add: locks_ok_def)
  then have "token (kern c) l = sema_value (kern c) (LockSema l) + 1"
    using assms(2) by (simp add: token_def)
  with config_token [OF ok, of l] have "sema_value (kern c) (LockSema l) = 0" "\<And>u. pending (frames c u) l = 0"
    by auto
  with h assms(2) show ?thesis by (auto simp: pending_0)
qed

theorem lock_mutual_exclusion_witness:
  "\<exists>c :: config. lock_queue (threads (kern c) 1) = [0] \<and> holder (locks (kern c) 0) = Some 1 \<and> sema_value (kern c) (LockSema 0) = 0"
proof -
  obtain c where "reachable c" "lock_queue (threads (kern c) 1) = [0]"
    using demo_run by blast
  then show ?thesis
    using lock_mutual_exclusion [of c 0 1] by (intro exI [of _ c]) simp
qed

end
