(* ===== verification/Kernel_Faults.thy ===== *)
theory Kernel_Faults
  imports Kernel_Props "HOL-Library.Code_Target_Nat"
begin

text \<open>
  Runs of the transition system in which the kernel does what it should not: the effective
  priority of a thread falls below its base priority, a thread sleeps past its time, and a correct
  sequence of calls ends in a corrupted list or a failed assertion (\<^const>\<open>None\<close>).
\<close>

declare donate_loop.simps [code] wake_sleepers.simps [code]

lemma boot_map: "map_option f (boot as) = Some y \<Longrightarrow> \<exists>c. reachable c \<and> f c = y"
  using boot_reachable by auto

definition boot_runs :: "act list" where
  "boot_runs = replicate 5 Run"

definition create_runs :: "ptr \<Rightarrow> int \<Rightarrow> act list" where
  "create_runs t p = Create t p # replicate 7 Run"

definition acquire_runs :: "nat \<Rightarrow> act list" where
  "acquire_runs l = [Call (LockAcquire l), Run, Run]"

text \<open>
  C21. A thread that raises its own priority while it holds two locks loses the new priority when it
  releases one of them: \<^verbatim>\<open>lock_release\<close> sets \<^verbatim>\<open>e_pri\<close> to the priority that the other
  lock had when it was taken, without regard to \<^verbatim>\<open>b_pri\<close>.
\<close>

theorem lock_release_below_base:
  "\<exists>c. reachable c \<and> (e_pri (threads (kern c) 1), b_pri (threads (kern c) 1)) = (31, 50)"
  by (rule boot_map [where as = "boot_runs @ acquire_runs 1 @ acquire_runs 2 @ [SetPri 50, Call (LockRelease 2), Run]"])
    code_simp

text \<open>
  C19. \<^verbatim>\<open>cond_wait\<close> links the caller into the waiters before it releases the lock. When a thread of higher
  priority waits for the lock, \<^verbatim>\<open>lock_release\<close> yields: a reachable configuration has thread 1 running, its list element
  among the waiters of the condition, and about to yield to thread 2, which puts the same element into the ready
  list. On the linked lists this insertion destroys the list of waiters: whatever sequence one takes, the
  links from the head of the waiters no longer form a list of it.
\<close>

theorem cond_wait_corrupts_list:
  "\<exists>c. reachable c \<and>
     (running (kern c), frames c 1, queues (kern c) (CondQ 0), queues (kern c) ReadyQ,
       e_pri (threads (kern c) 1) < e_pri (threads (kern c) 2)) =
     (1, [YieldIfF 2, CondBlockF 0, LockAcquireF 1], [1], [2], True) \<and>
     (\<forall>h waiters ready h' zs. is_list h waiters (queues (kern c) (CondQ 0)) \<longrightarrow> is_list h ready (queues (kern c) ReadyQ) \<longrightarrow>
        set (nodes waiters (queues (kern c) (CondQ 0))) \<inter> set (nodes ready (queues (kern c) ReadyQ)) = {} \<longrightarrow>
        list_insert_ordered (thread_before (grater_thread_pri (kern c))) ready 1 h = Some h' \<longrightarrow>
        \<not> is_list h' waiters zs)"
proof -
  have "\<exists>c. reachable c \<and>
     (running (kern c), frames c 1, queues (kern c) (CondQ 0), queues (kern c) ReadyQ,
       e_pri (threads (kern c) 1) < e_pri (threads (kern c) 2)) =
     (1, [YieldIfF 2, CondBlockF 0, LockAcquireF 1], [1], [2], True)"
    by (rule boot_map [where as = "boot_runs @ acquire_runs 1 @ create_runs 2 40 @ acquire_runs 1 @
        [Call (CondWait 0 1), Run, Run, Run]"]) code_simp
  then obtain c where c: "reachable c"
     "(running (kern c), frames c 1, queues (kern c) (CondQ 0), queues (kern c) ReadyQ,
       e_pri (threads (kern c) 1) < e_pri (threads (kern c) 2)) =
     (1, [YieldIfF 2, CondBlockF 0, LockAcquireF 1], [1], [2], True)" by blast
  then have "1 \<in> set (queues (kern c) (CondQ 0))" by simp
  with c insert_linked_breaks [of _ _ "queues (kern c) (CondQ 0)" 1] show ?thesis by blast
qed

theorem cond_wait_corrupts_list_witness:
  "\<exists>c h'. reachable c \<and> list_insert_ordered (thread_before (grater_thread_pri (kern c))) 200 1
       (\<lambda>p. if p \<in> {1, 100, 108} then list_heap 100 [1] p else list_heap 200 [2] p) = Some h' \<and>
     (\<forall>zs. \<not> is_list h' 100 zs)"
proof -
  let ?h = "\<lambda>p. if p \<in> {1, 100, 108} then list_heap 100 [1] p else list_heap 200 [2] p"
  have l: "is_list ?h 100 [1]" "is_list ?h 200 [2]" "set (nodes 100 [1]) \<inter> set (nodes 200 [2]) = {}"
    by (simp_all add: list_heap_def is_list_def nodes_def link_def list_head_def list_tail_def)
  from cond_wait_corrupts_list obtain c where c: "reachable c" "queues (kern c) (CondQ 0) = [1]" "queues (kern c) ReadyQ = [2]"
    "\<forall>h waiters ready h' zs. is_list h waiters [1] \<longrightarrow> is_list h ready [2] \<longrightarrow>
        set (nodes waiters [1]) \<inter> set (nodes ready [2]) = {} \<longrightarrow>
        list_insert_ordered (thread_before (grater_thread_pri (kern c))) ready 1 h = Some h' \<longrightarrow> \<not> is_list h' waiters zs"
    by (auto simp only: prod.inject)
  have "1 \<notin> set (nodes 200 [2])" by (simp add: nodes_def list_head_def list_tail_def)
  moreover have "(1::ptr) \<noteq> NULL" by simp
  ultimately obtain h' where "list_insert_ordered (thread_before (grater_thread_pri (kern c))) 200 1 ?h = Some h'"
    using list_insert_ordered_spec [OF l(2)] by blast
  with c l show ?thesis by blast
qed

text \<open>
  C20. A donation can make the timer forget a sleeper. Thread 2 holds lock 1 and sleeps until tick 20, thread 3 until
  tick 5; when thread 4 asks for the lock, \<^verbatim>\<open>donate_pri_acquire\<close> moves thread 2 to the front of the list of sleepers,
  because it orders the list that \<^verbatim>\<open>queue\<close> points to by priority. At tick 6 thread 3 is still asleep.
\<close>

theorem timer_forgets_sleeper:
  "\<exists>c. reachable c \<and> (ticks (kern c), queues (kern c) SleepQ, wake_up (threads (kern c) 2), wake_up (threads (kern c) 3)) =
     (6, [2, 3], 20, 5)"
  by (rule boot_map [where as = "boot_runs @ create_runs 2 40 @ acquire_runs 1 @ [Sleep 20] @ create_runs 3 35 @ [Sleep 5] @
      create_runs 4 50 @ acquire_runs 1 @ replicate 6 Tick"])
    code_simp

text \<open>
  C18. A thread that has been given no lock yet keeps \<^verbatim>\<open>donated_for\<close>, also when the holder of that lock
  has released it. A donation that reaches such a thread panics in
  \<^verbatim>\<open>ASSERT(donee != NULL)\<close>: thread 1 releases lock 2, which thread 2 waits for, and before
  thread 1 has called \<^verbatim>\<open>sema_up\<close> its time slice ends and thread 3 asks for lock 1, held by thread 2.
\<close>

theorem donation_panics:
  "\<exists>c. reachable c \<and> (frames c (running (kern c)) = [LockAcquireF 1] \<and> running (kern c) = 3 \<and>
     holder (locks (kern c) 1) = Some 2 \<and> exec_frame (LockAcquireF 1) (kern c) = None) = True"
  by (rule boot_map [where as = "boot_runs @ acquire_runs 2 @ create_runs 2 40 @ acquire_runs 1 @ acquire_runs 2 @
      create_runs 3 50 @ [Sleep 1, Call (LockRelease 2), Run, Tick, Tick, Tick, Tick, Call (LockAcquire 1)]"])
    code_simp

end
