(* ===== verification/Hash_Table.thy ===== *)
theory Hash_Table
  imports Pintos_Prelude
begin

text \<open>
  The hash tables of \<^verbatim>\<open>lib/kernel/hash.c\<close>. The buckets are sequences of elements, which the
  operations of \<^verbatim>\<open>lib/kernel/list.c\<close> implement; an element is in at most one of them, as it has one
  \<^verbatim>\<open>list_elem\<close>. The functions \<open>hash_hash\<close> and \<open>hash_less\<close> are the client's, with the auxiliary
  data already applied. Whether \<^verbatim>\<open>malloc\<close> succeeds is the argument \<open>mem\<close>. An access outside
  the array of buckets has no value (\<^const>\<open>None\<close>).
\<close>

unbundle bit_operations_syntax

section \<open>The code\<close>

record 'e hash =
  hash_elem_cnt :: u32
  hash_bucket_cnt :: u32
  hash_buckets :: "'e list list"
  hash_hash :: "'e \<Rightarrow> u32"
  hash_less :: "'e \<Rightarrow> 'e \<Rightarrow> bool"

definition get_bucket :: "'e hash \<Rightarrow> nat \<Rightarrow> 'e list option" where
  "get_bucket h i = do { ASSERT (i < length (hash_buckets h)); Some (hash_buckets h ! i) }"

definition set_bucket :: "'e hash \<Rightarrow> nat \<Rightarrow> 'e list \<Rightarrow> 'e hash option" where
  "set_bucket h i b = do { ASSERT (i < length (hash_buckets h)); Some (h\<lparr>hash_buckets := (hash_buckets h)[i := b]\<rparr>) }"

text \<open>The loop over the buckets in \<^verbatim>\<open>hash_clear\<close>; the result lists the calls of the destructor.\<close>

fun clear_loop :: "nat \<Rightarrow> bool \<Rightarrow> 'e hash \<Rightarrow> ('e list \<times> 'e hash) option" where
  "clear_loop 0 destructor h = Some ([], h)"
| "clear_loop (Suc n) destructor h = do {
     let i = unat (hash_bucket_cnt h) - Suc n;
     b \<leftarrow> get_bucket h i;
     h \<leftarrow> set_bucket h i [];
     (calls, h) \<leftarrow> clear_loop n destructor h;
     Some ((if destructor then b else []) @ calls, h)
   }"

definition hash_clear :: "bool \<Rightarrow> 'e hash \<Rightarrow> ('e list \<times> 'e hash) option" where
  "hash_clear destructor h = do {
     (calls, h) \<leftarrow> clear_loop (unat (hash_bucket_cnt h)) destructor h;
     Some (calls, h\<lparr>hash_elem_cnt := 0\<rparr>)
   }"

text \<open>\<^verbatim>\<open>hash_init\<close>: the table, when memory for it could be had. \<open>junk\<close> is what that memory holds.\<close>

definition hash_init :: "'e list list option \<Rightarrow> ('e \<Rightarrow> u32) \<Rightarrow> ('e \<Rightarrow> 'e \<Rightarrow> bool) \<Rightarrow> 'e hash option option" where
  "hash_init mem hashf lessf = (case mem of
      None \<Rightarrow> Some None
    | Some junk \<Rightarrow> do {
        (_, h) \<leftarrow> hash_clear False \<lparr>hash_elem_cnt = 0, hash_bucket_cnt = 4, hash_buckets = junk,
          hash_hash = hashf, hash_less = lessf\<rparr>;
        Some (Some h)
      })"

definition hash_destroy :: "bool \<Rightarrow> 'e hash \<Rightarrow> 'e list option" where
  "hash_destroy destructor h = (if destructor then map_option fst (hash_clear True h) else Some [])"

definition find_bucket :: "'e hash \<Rightarrow> 'e \<Rightarrow> nat" where
  "find_bucket h e = unat (hash_hash h e AND (hash_bucket_cnt h - 1))"

fun find_elem :: "'e hash \<Rightarrow> 'e list \<Rightarrow> 'e \<Rightarrow> 'e option" where
  "find_elem h [] e = None"
| "find_elem h (hi # bucket) e =
     (if \<not> hash_less h hi e \<and> \<not> hash_less h e hi then Some hi else find_elem h bucket e)"

definition insert_elem :: "'e hash \<Rightarrow> nat \<Rightarrow> 'e \<Rightarrow> 'e hash option" where
  "insert_elem h i e = do {
     let h = h\<lparr>hash_elem_cnt := hash_elem_cnt h + 1\<rparr>;
     b \<leftarrow> get_bucket h i;
     set_bucket h i (e # b)
   }"

definition remove_elem :: "'e hash \<Rightarrow> 'e \<Rightarrow> 'e hash" where
  "remove_elem h e = h\<lparr>hash_elem_cnt := hash_elem_cnt h - 1, hash_buckets := map (remove1 e) (hash_buckets h)\<rparr>"

definition turn_off_least_1bit :: "u32 \<Rightarrow> u32" where
  "turn_off_least_1bit x = x AND (x - 1)"

definition is_power_of_2 :: "u32 \<Rightarrow> bool" where
  "is_power_of_2 x \<longleftrightarrow> x \<noteq> 0 \<and> turn_off_least_1bit x = 0"

partial_function (option) round_bucket_cnt :: "u32 \<Rightarrow> u32 option" where
  "round_bucket_cnt n = (if \<not> is_power_of_2 n then round_bucket_cnt (turn_off_least_1bit n) else Some n)"

text \<open>The loop of \<^verbatim>\<open>rehash\<close> that moves the elements of one old bucket, and the loop over the buckets.\<close>

fun move_elems :: "'e list \<Rightarrow> 'e hash \<Rightarrow> 'e hash option" where
  "move_elems [] h = Some h"
| "move_elems (e # es) h = do {
     let i = find_bucket h e;
     b \<leftarrow> get_bucket h i;
     h \<leftarrow> set_bucket h i (e # b);
     move_elems es h
   }"

fun move_buckets :: "'e list list \<Rightarrow> 'e hash \<Rightarrow> 'e hash option" where
  "move_buckets [] h = Some h"
| "move_buckets (b # bs) h = do { h \<leftarrow> move_elems b h; move_buckets bs h }"

definition rehash :: "bool \<Rightarrow> 'e hash \<Rightarrow> 'e hash option" where
  "rehash mem h = do {
     let old_buckets = hash_buckets h;
     let old_bucket_cnt = hash_bucket_cnt h;
     let n = hash_elem_cnt h div 2;
     n \<leftarrow> round_bucket_cnt (if n < 4 then 4 else n);
     if n = old_bucket_cnt \<or> \<not> mem then Some h
     else move_buckets (take (unat old_bucket_cnt) old_buckets)
       (h\<lparr>hash_buckets := replicate (unat n) [], hash_bucket_cnt := n\<rparr>)
   }"

definition hash_insert :: "bool \<Rightarrow> 'e hash \<Rightarrow> 'e \<Rightarrow> ('e hash \<times> 'e option) option" where
  "hash_insert mem h e = do {
     let i = find_bucket h e;
     bucket \<leftarrow> get_bucket h i;
     let old = find_elem h bucket e;
     h \<leftarrow> (if old = None then insert_elem h i e else Some h);
     h \<leftarrow> rehash mem h;
     Some (h, old)
   }"

definition hash_replace :: "bool \<Rightarrow> 'e hash \<Rightarrow> 'e \<Rightarrow> ('e hash \<times> 'e option) option" where
  "hash_replace mem h e = do {
     let i = find_bucket h e;
     bucket \<leftarrow> get_bucket h i;
     let old = find_elem h bucket e;
     let h = (case old of None \<Rightarrow> h | Some e' \<Rightarrow> remove_elem h e');
     h \<leftarrow> insert_elem h i e;
     h \<leftarrow> rehash mem h;
     Some (h, old)
   }"

definition hash_find :: "'e hash \<Rightarrow> 'e \<Rightarrow> 'e option option" where
  "hash_find h e = do {
     bucket \<leftarrow> get_bucket h (find_bucket h e);
     Some (find_elem h bucket e)
   }"

definition hash_delete :: "bool \<Rightarrow> 'e hash \<Rightarrow> 'e \<Rightarrow> ('e hash \<times> 'e option) option" where
  "hash_delete mem h e = do {
     bucket \<leftarrow> get_bucket h (find_bucket h e);
     case find_elem h bucket e of
       None \<Rightarrow> Some (h, None)
     | Some found \<Rightarrow> do {
         h \<leftarrow> rehash mem (remove_elem h found);
         Some (h, Some found)
       }
   }"

text \<open>
  \<^verbatim>\<open>hash_apply\<close>: the loop over the elements of a bucket within the loop over the buckets. The result is the
  sequence of the elements that \<^verbatim>\<open>action\<close> has been called with.
\<close>

fun apply_bucket :: "'e list \<Rightarrow> 'e list \<Rightarrow> 'e list" where
  "apply_bucket [] calls = calls"
| "apply_bucket (e # es) calls = apply_bucket es (calls @ [e])"

fun apply_loop :: "'e list list \<Rightarrow> 'e list \<Rightarrow> 'e list" where
  "apply_loop [] calls = calls"
| "apply_loop (b # bs) calls = apply_loop bs (apply_bucket b calls)"

definition hash_apply :: "'e hash \<Rightarrow> 'e list" where
  "hash_apply h = apply_loop (take (unat (hash_bucket_cnt h)) (hash_buckets h)) []"

text \<open>
  An iterator: the index of the current bucket, and the position of the current element in its
  list, 0 being the list head; \<^const>\<open>None\<close> is the null pointer.
\<close>

record hash_iterator =
  iter_bucket :: nat
  iter_elem :: "nat option"

definition hash_first :: "hash_iterator" where
  "hash_first = \<lparr>iter_bucket = 0, iter_elem = Some 0\<rparr>"

definition iter_at :: "'e hash \<Rightarrow> hash_iterator \<Rightarrow> 'e option" where
  "iter_at h i = (case iter_elem i of None \<Rightarrow> None | Some p \<Rightarrow> Some (hash_buckets h ! iter_bucket i ! (p - 1)))"

function next_bucket :: "'e hash \<Rightarrow> hash_iterator \<Rightarrow> hash_iterator" where
  "next_bucket h i = (case iter_elem i of None \<Rightarrow> i | Some p \<Rightarrow>
     if iter_bucket i < length (hash_buckets h) \<and> p = length (hash_buckets h ! iter_bucket i) + 1 then
       let i = i\<lparr>iter_bucket := iter_bucket i + 1\<rparr> in
       if iter_bucket i \<ge> unat (hash_bucket_cnt h) then i\<lparr>iter_elem := None\<rparr>
       else next_bucket h (i\<lparr>iter_elem := Some 1\<rparr>)
     else i)"
  by pat_completeness auto
termination
  by (relation "measure (\<lambda>(h, i). length (hash_buckets h) - iter_bucket i)") (auto simp: Let_def)

declare next_bucket.simps [simp del]

definition hash_next :: "'e hash \<Rightarrow> hash_iterator \<Rightarrow> (hash_iterator \<times> 'e option) option" where
  "hash_next h i = do {
     p \<leftarrow> iter_elem i;
     ASSERT (iter_bucket i < length (hash_buckets h) \<and> p \<le> length (hash_buckets h ! iter_bucket i));
     let i = next_bucket h (i\<lparr>iter_elem := Some (p + 1)\<rparr>);
     Some (i, iter_at h i)
   }"

definition hash_cur :: "'e hash \<Rightarrow> hash_iterator \<Rightarrow> 'e option" where
  "hash_cur h i = iter_at h i"

definition hash_size :: "'e hash \<Rightarrow> u32" where
  "hash_size h = hash_elem_cnt h"

definition hash_empty :: "'e hash \<Rightarrow> bool" where
  "hash_empty h \<longleftrightarrow> hash_elem_cnt h = 0"

subsection \<open>Hash functions\<close>

definition FNV_32_PRIME :: u32 where "FNV_32_PRIME = 16777619"
definition FNV_32_BASIS :: u32 where "FNV_32_BASIS = 2166136261"

fun fnv_loop :: "u32 \<Rightarrow> u8 list \<Rightarrow> u32" where
  "fnv_loop hash [] = hash"
| "fnv_loop hash (b # buf) = fnv_loop ((hash * FNV_32_PRIME) XOR ucast b) buf"

definition hash_bytes :: "u8 list \<Rightarrow> nat \<Rightarrow> u32 option" where
  "hash_bytes buf sz = do {
     ASSERT (sz \<le> length buf);
     Some (fnv_loop FNV_32_BASIS (take sz buf))
   }"

text \<open>\<^verbatim>\<open>hash_string\<close> reads memory up to a null byte; without one it leaves the buffer.\<close>

fun hash_string_loop :: "u32 \<Rightarrow> u8 list \<Rightarrow> u32 option" where
  "hash_string_loop hash [] = None"
| "hash_string_loop hash (b # s) =
     (if b \<noteq> 0 then hash_string_loop ((hash * FNV_32_PRIME) XOR ucast b) s else Some hash)"

definition hash_string :: "u8 list \<Rightarrow> u32 option" where
  "hash_string s = hash_string_loop FNV_32_BASIS s"

text \<open>The bytes of an integer in memory, the least significant first.\<close>

definition int_bytes :: "u32 \<Rightarrow> u8 list" where
  "int_bytes i = [ucast i, ucast (drop_bit 8 i), ucast (drop_bit 16 i), ucast (drop_bit 24 i)]"

definition hash_int :: "u32 \<Rightarrow> u32 option" where
  "hash_int i = hash_bytes (int_bytes i) 4"

section \<open>Powers of two\<close>

lemma turn_off_less: "x \<noteq> 0 \<Longrightarrow> turn_off_least_1bit x < x"
  using word_and_le2 [of "x - 1" x] measure_unat [of x]
  by (simp add: turn_off_least_1bit_def word_less_nat_alt word_le_nat_alt and.commute)

lemma is_power_of_2_iff: "is_power_of_2 x \<longleftrightarrow> (\<exists>n < 32. x = 2 ^ n)"
proof
  assume x: "is_power_of_2 x"
  then have "1 \<le> unat x" by (simp add: is_power_of_2_def unat_gt_0 Suc_leI)
  then obtain n where n: "2 ^ n \<le> unat x" "unat x < 2 ^ Suc n"
    using ex_power_ivl1 [of 2 "unat x"] by auto
  have "2 ^ n < (2 ^ 32 :: nat)" using n(1) unat_less_32 [of x] by (rule order_le_less_trans)
  then have n32: "n < 32" by (rule power_less_imp_less_exp [rotated]) simp
  have "unat x = 2 ^ n"
  proof (rule ccontr)
    assume "unat x \<noteq> 2 ^ n"
    moreover have "unat (x - 1) = unat x - 1"
      using x unfolding is_power_of_2_def by (intro unat_minus_one) blast
    ultimately have "2 ^ n \<le> unat (x - 1)" "unat (x - 1) < 2 ^ Suc n"
      using n by linarith+
    then have "bit (x AND (x - 1)) n" using bit_top n by (simp add: bit_and_iff)
    with x show False unfolding is_power_of_2_def turn_off_least_1bit_def by (metis bit_0_eq bot_apply bot_bool_def)
  qed
  with n32 have "x = 2 ^ n" by (metis unat_exp unsigned_word_eqI)
  with n32 show "\<exists>n < 32. x = 2 ^ n" by blast
next
  assume "\<exists>n < 32. x = 2 ^ n"
  then obtain n where "n < 32" "x = 2 ^ n" by blast
  moreover have "take_bit n (2 ^ n :: u32) = 0"
    by (simp add: take_bit_eq_0_iff)
  moreover have "2 ^ n \<noteq> (0 :: u32)"
    using unat_exp [OF \<open>n < 32\<close>] by (metis power_not_zero unsigned_0 zero_neq_numeral)
  ultimately show "is_power_of_2 x"
    by (simp only: is_power_of_2_def turn_off_least_1bit_def and_exp_minus_1) simp
qed

lemma round_bucket_cnt_returns:
  "x \<noteq> 0 \<Longrightarrow> \<exists>n < 32. round_bucket_cnt x = Some (2 ^ n) \<and> 2 ^ n \<le> unat x"
proof (induction "unat x" arbitrary: x rule: less_induct)
  case less
  show ?case
  proof (cases "is_power_of_2 x")
    case True
    then show ?thesis
      using unat_exp by (subst round_bucket_cnt.simps) (auto simp: is_power_of_2_iff)
  next
    case False
    let ?y = "turn_off_least_1bit x"
    have "unat ?y < unat x"
      using turn_off_less [OF less.prems] by (simp only: word_less_nat_alt)
    moreover have "?y \<noteq> 0"
      using False less.prems unfolding is_power_of_2_def by blast
    ultimately obtain n where "n < 32" "round_bucket_cnt ?y = Some (2 ^ n)" "2 ^ n \<le> unat ?y"
      using less.hyps by blast
    moreover from this have "round_bucket_cnt x = Some (2 ^ n)"
      using False by (subst round_bucket_cnt.simps) simp
    ultimately show ?thesis
      using \<open>unat ?y < unat x\<close> by (intro exI [of _ n]) linarith
  qed
qed

section \<open>The invariant\<close>

text \<open>
  A client's elements have keys: two elements are equal for \<open>hash_less\<close> when their keys are, and
  elements of equal key have equal hash values.
\<close>

definition keyed :: "('e \<Rightarrow> 'k) \<Rightarrow> 'e hash \<Rightarrow> bool" where
  "keyed key h \<longleftrightarrow> (\<forall>a b. (\<not> hash_less h a b \<and> \<not> hash_less h b a) = (key a = key b)) \<and>
     (\<forall>a b. key a = key b \<longrightarrow> hash_hash h a = hash_hash h b)"

definition shape_ok :: "'e hash \<Rightarrow> bool" where
  "shape_ok h \<longleftrightarrow> (\<exists>n < 32. hash_bucket_cnt h = 2 ^ n \<and> length (hash_buckets h) = 2 ^ n) \<and>
     (\<forall>i < length (hash_buckets h). \<forall>e \<in> set (hash_buckets h ! i). find_bucket h e = i)"

definition hash_elems :: "'e hash \<Rightarrow> 'e list" where
  "hash_elems h = concat (hash_buckets h)"

definition hash_ok :: "('e \<Rightarrow> 'k) \<Rightarrow> 'e hash \<Rightarrow> bool" where
  "hash_ok key h \<longleftrightarrow> keyed key h \<and> shape_ok h \<and> distinct (map key (hash_elems h)) \<and>
     unat (hash_elem_cnt h) = length (hash_elems h)"

text \<open>The map that a table stands for.\<close>

definition hash_map :: "('e \<Rightarrow> 'k) \<Rightarrow> 'e hash \<Rightarrow> 'k \<Rightarrow> 'e option" where
  "hash_map key h = map_of (map (\<lambda>e. (key e, e)) (hash_elems h))"

lemma find_bucket_less: "shape_ok h \<Longrightarrow> find_bucket h e < length (hash_buckets h)"
  unfolding shape_ok_def find_bucket_def
  by (auto simp: and_exp_minus_1 unsigned_take_bit_eq take_bit_nat_less_exp)

lemma get_bucket_eq [simp]: "i < length (hash_buckets h) \<Longrightarrow> get_bucket h i = Some (hash_buckets h ! i)"
  by (simp add: get_bucket_def)

lemma set_bucket_eq [simp]:
  "i < length (hash_buckets h) \<Longrightarrow> set_bucket h i b = Some (h\<lparr>hash_buckets := (hash_buckets h)[i := b]\<rparr>)"
  by (simp add: set_bucket_def)

lemma keyed_less: "keyed key h \<Longrightarrow> \<not> hash_less h a b \<and> \<not> hash_less h b a \<longleftrightarrow> key a = key b"
  by (simp add: keyed_def)

lemma find_elem_eq: "keyed key h \<Longrightarrow> find_elem h bucket e = List.find (\<lambda>e'. key e' = key e) bucket"
  by (induction bucket) (simp_all only: find_elem.simps find.simps keyed_less)

text \<open>What the internal operations do to the elements.\<close>

definition same_funs :: "'e hash \<Rightarrow> 'e hash \<Rightarrow> bool" where
  "same_funs h h' \<longleftrightarrow> hash_hash h' = hash_hash h \<and> hash_less h' = hash_less h"

lemma same_funs_trans: "same_funs h h' \<Longrightarrow> same_funs h' h'' \<Longrightarrow> same_funs h h''"
  by (simp add: same_funs_def)

lemma keyed_same: "same_funs h h' \<Longrightarrow> keyed key h' = keyed key h"
  by (simp add: same_funs_def keyed_def)

lemma find_bucket_upd [simp]:
  "find_bucket (h\<lparr>hash_buckets := bs\<rparr>) e = find_bucket h e"
  "find_bucket (h\<lparr>hash_elem_cnt := c\<rparr>) e = find_bucket h e"
  by (simp_all add: find_bucket_def)

lemma shape_ok_push:
  assumes "shape_ok h"
  shows "shape_ok (h\<lparr>hash_buckets := (hash_buckets h)[find_bucket h e := e # hash_buckets h ! find_bucket h e]\<rparr>)"
  using assms find_bucket_less [OF assms, of e] by (auto simp: shape_ok_def nth_list_update split: if_splits)

lemma insert_elem_ok:
  assumes "shape_ok h"
  shows "\<exists>h'. insert_elem h (find_bucket h e) e = Some h' \<and> shape_ok h' \<and> same_funs h h' \<and>
    hash_elem_cnt h' = hash_elem_cnt h + 1 \<and> mset (hash_elems h') = add_mset e (mset (hash_elems h))"
proof -
  let ?h = "h\<lparr>hash_elem_cnt := hash_elem_cnt h + 1\<rparr>"
  have "shape_ok ?h" using assms by (simp add: shape_ok_def)
  from shape_ok_push [OF this, of e] find_bucket_less [OF assms, of e] show ?thesis
    by (simp add: insert_elem_def Let_def same_funs_def hash_elems_def mset_concat_push)
qed

lemma remove_elem_ok:
  assumes "shape_ok h" and "distinct (hash_elems h)"
  shows "shape_ok (remove_elem h e)" and "same_funs h (remove_elem h e)"
    and "hash_elem_cnt (remove_elem h e) = hash_elem_cnt h - 1"
    and "hash_elems (remove_elem h e) = remove1 e (hash_elems h)"
proof -
  have "find_bucket (remove_elem h e) x = find_bucket h x" for x
    by (simp add: find_bucket_def remove_elem_def)
  then show "shape_ok (remove_elem h e)"
    using assms(1) set_remove1_subset unfolding shape_ok_def by (fastforce simp: remove_elem_def)
qed (use assms(2) in \<open>simp_all add: remove_elem_def same_funs_def hash_elems_def concat_map_remove1\<close>)

lemma move_elems_ok:
  "shape_ok h \<Longrightarrow> \<exists>h'. move_elems es h = Some h' \<and> shape_ok h' \<and> same_funs h h' \<and>
     hash_elem_cnt h' = hash_elem_cnt h \<and> mset (hash_elems h') = mset es + mset (hash_elems h)"
proof (induction es arbitrary: h)
  case (Cons e es)
  let ?h = "h\<lparr>hash_buckets := (hash_buckets h)[find_bucket h e := e # hash_buckets h ! find_bucket h e]\<rparr>"
  have i: "find_bucket h e < length (hash_buckets h)" using find_bucket_less [OF Cons.prems] .
  from Cons.IH [OF shape_ok_push [OF Cons.prems, of e]] obtain h' where
    "move_elems es ?h = Some h'" "shape_ok h'" "same_funs ?h h'" "hash_elem_cnt h' = hash_elem_cnt h"
    "mset (hash_elems h') = mset es + mset (hash_elems ?h)" by auto
  with i show ?case
    by (simp add: same_funs_def hash_elems_def mset_concat_push)
qed (simp add: same_funs_def)

lemma move_buckets_ok:
  "shape_ok h \<Longrightarrow> \<exists>h'. move_buckets bs h = Some h' \<and> shape_ok h' \<and> same_funs h h' \<and>
     hash_elem_cnt h' = hash_elem_cnt h \<and> mset (hash_elems h') = mset (concat bs) + mset (hash_elems h)"
proof (induction bs arbitrary: h)
  case (Cons b bs)
  obtain h1 where h1: "move_elems b h = Some h1" "shape_ok h1" "same_funs h h1" "hash_elem_cnt h1 = hash_elem_cnt h"
    "mset (hash_elems h1) = mset b + mset (hash_elems h)" using move_elems_ok [OF Cons.prems, of b] by blast
  from Cons.IH [OF h1(2)] h1 show ?case
    by (auto simp: ac_simps intro: same_funs_trans)
qed (simp add: same_funs_def)

lemma rehash_ok:
  assumes "shape_ok h"
  shows "\<exists>h'. rehash mem h = Some h' \<and> shape_ok h' \<and> same_funs h h' \<and>
    hash_elem_cnt h' = hash_elem_cnt h \<and> mset (hash_elems h') = mset (hash_elems h)"
proof -
  let ?c = "hash_elem_cnt h div 2"
  obtain n where n: "n < 32" "round_bucket_cnt (if ?c < 4 then 4 else ?c) = Some (2 ^ n)"
  proof -
    have "(if ?c < 4 then 4 else ?c) \<noteq> 0" by (cases "?c = 0") simp_all
    from round_bucket_cnt_returns [OF this] that show ?thesis by blast
  qed
  let ?h = "h\<lparr>hash_buckets := replicate (2 ^ n) [], hash_bucket_cnt := 2 ^ n\<rparr>"
  have "shape_ok ?h" using n(1) by (auto simp: shape_ok_def)
  from move_buckets_ok [OF this, of "hash_buckets h"] obtain h' where
    h': "move_buckets (hash_buckets h) ?h = Some h'" "shape_ok h'" "same_funs ?h h'" "hash_elem_cnt h' = hash_elem_cnt h"
      "mset (hash_elems h') = mset (hash_elems h)"
    by (auto simp: hash_elems_def)
  have "take (unat (hash_bucket_cnt h)) (hash_buckets h) = hash_buckets h"
    using assms unat_exp by (auto simp: shape_ok_def)
  then show ?thesis
    using n h' assms unat_exp [OF n(1)] unfolding rehash_def Let_def same_funs_def by simp
qed

section \<open>The operations\<close>

lemma hash_map_Some:
  "distinct (map key (hash_elems h)) \<Longrightarrow> hash_map key h k = Some e \<longleftrightarrow> e \<in> set (hash_elems h) \<and> key e = k"
  unfolding hash_map_def by (subst map_of_eq_Some_iff) (auto simp: comp_def)

lemma hash_map_eqI:
  assumes "distinct (map key (hash_elems h))" and "\<And>k e. m k = Some e \<longleftrightarrow> e \<in> set (hash_elems h) \<and> key e = k"
  shows "hash_map key h = m"
proof
  fix k
  show "hash_map key h k = m k"
    using hash_map_Some [OF assms(1), of k] assms(2) [of k] by (cases "hash_map key h k"; cases "m k") auto
qed

lemma find_in_bucket:
  assumes "hash_ok key h"
  shows "get_bucket h (find_bucket h e) = Some (hash_buckets h ! find_bucket h e)"
    and "find_elem h (hash_buckets h ! find_bucket h e) e = hash_map key h (key e)"
proof -
  have sh: "shape_ok h" and k: "keyed key h" using assms by (auto simp: hash_ok_def)
  have i: "find_bucket h e < length (hash_buckets h)" using find_bucket_less [OF sh] .
  then show "get_bucket h (find_bucket h e) = Some (hash_buckets h ! find_bucket h e)" by simp
  have "find_bucket h e' = find_bucket h e" if "key e' = key e" for e'
    using k that unfolding keyed_def find_bucket_def by metis
  then have "List.find (\<lambda>e'. key e' = key e) (concat (hash_buckets h)) =
      List.find (\<lambda>e'. key e' = key e) (hash_buckets h ! find_bucket h e)"
    using sh unfolding shape_ok_def by (intro find_concat_bucket [OF i]) metis
  then show "find_elem h (hash_buckets h ! find_bucket h e) e = hash_map key h (key e)"
    by (simp add: find_elem_eq [OF k] hash_map_def map_of_keys hash_elems_def)
qed

lemma hash_ok_distinct: "hash_ok key h \<Longrightarrow> distinct (map key (hash_elems h))"
  by (simp add: hash_ok_def)

lemma hash_change:
  assumes "hash_ok key h" and "shape_ok h'" and "same_funs h h'" and m: "mset (hash_elems h') = mset xs"
    and d: "distinct (map key xs)" and "unat (hash_elem_cnt h') = length xs"
  shows "hash_ok key h'" and "hash_map key h' = map_of (map (\<lambda>e. (key e, e)) xs)"
proof -
  have d': "distinct (map key (hash_elems h'))"
    using d m mset_eq_imp_distinct_iff [of "map key (hash_elems h')" "map key xs"] by simp
  with assms show "hash_ok key h'"
    by (simp add: hash_ok_def keyed_same mset_eq_length [OF m])
  show "hash_map key h' = map_of (map (\<lambda>e. (key e, e)) xs)"
  proof (rule hash_map_eqI [OF d'])
    show "map_of (map (\<lambda>e. (key e, e)) xs) k = Some e \<longleftrightarrow> e \<in> set (hash_elems h') \<and> key e = k" for k e
      unfolding mset_eq_setD [OF m] using d by (subst map_of_eq_Some_iff) (auto simp: comp_def)
  qed
qed

lemma hash_okD:
  assumes "hash_ok key h"
  shows "shape_ok h" and "distinct (map key (hash_elems h))" and "unat (hash_elem_cnt h) = length (hash_elems h)"
    and "distinct (hash_elems h)"
  using assms by (auto simp: hash_ok_def simp: distinct_map)

text \<open>Inserting an element whose key is not in the table, and removing an element of the table.\<close>

lemma insert_new:
  assumes "hash_ok key h" and "length (hash_elems h) + 1 < 2 ^ 32" and "hash_map key h (key e) = None"
  shows "\<exists>h\<^sub>1 h'. insert_elem h (find_bucket h e) e = Some h\<^sub>1 \<and> rehash mem h\<^sub>1 = Some h' \<and> hash_ok key h' \<and>
    hash_map key h' = (hash_map key h)(key e \<mapsto> e)"
proof -
  note ok = hash_okD [OF assms(1)]
  obtain h1 where h1: "insert_elem h (find_bucket h e) e = Some h1" "shape_ok h1" "same_funs h h1"
    "hash_elem_cnt h1 = hash_elem_cnt h + 1" "mset (hash_elems h1) = add_mset e (mset (hash_elems h))"
    using insert_elem_ok [OF ok(1)] by blast
  obtain h2 where h2: "rehash mem h1 = Some h2" "shape_ok h2" "same_funs h1 h2" "hash_elem_cnt h2 = hash_elem_cnt h1"
    "mset (hash_elems h2) = mset (hash_elems h1)"
    using rehash_ok [OF h1(2)] by blast
  have d: "distinct (map key (e # hash_elems h))"
    using ok(2) assms(3) hash_map_Some [OF ok(2), of "key e"] by force
  have len: "unat (hash_elem_cnt h2) = length (e # hash_elems h)"
    using h1(4) h2(4) unat_plus_1 [of "hash_elem_cnt h"] ok(3) assms(2) by simp
  have "mset (hash_elems h2) = mset (e # hash_elems h)"
    using h1(5) h2(5) by simp
  from hash_change [OF assms(1) h2(2) same_funs_trans [OF h1(3) h2(3)] this d len] h1(1) h2(1) show ?thesis
    by (auto simp: hash_map_def)
qed

lemma remove_old:
  assumes "hash_ok key h" and "hash_map key h k = Some e"
  shows "hash_ok key (remove_elem h e)" and "hash_map key (remove_elem h e) = (hash_map key h)(k := None)"
    and "length (hash_elems (remove_elem h e)) + 1 = length (hash_elems h)"
proof -
  note ok = hash_okD [OF assms(1)]
  note rem = remove_elem_ok [OF ok(1,4), of e]
  have e: "e \<in> set (hash_elems h)" "key e = k" using assms(2) hash_map_Some [OF ok(2)] by auto
  then have len: "length (remove1 e (hash_elems h)) + 1 = length (hash_elems h)"
    by (auto simp: length_remove1 dest: length_pos_if_in_set)
  then show "length (hash_elems (remove_elem h e)) + 1 = length (hash_elems h)" using rem(4) by simp
  have "hash_elem_cnt h \<noteq> 0" using len ok(3) by (metis add_is_0 unat_0 one_neq_zero)
  then have "unat (hash_elem_cnt (remove_elem h e)) = length (remove1 e (hash_elems h))"
    using rem(3) ok(3) len by (simp add: unat_minus_one)
  from hash_change [OF assms(1) rem(1,2) _ distinct_map_remove1 [OF ok(2)] this] rem(4) e
  show "hash_ok key (remove_elem h e)" "hash_map key (remove_elem h e) = (hash_map key h)(k := None)"
    by (simp_all add: map_of_remove1 [OF ok(2)] hash_map_def)
qed

text \<open>A sample table: numbers hashed to themselves, the elements 5 and 9 in one bucket.\<close>

definition demo_hash :: "nat hash" where
  "demo_hash = \<lparr>hash_elem_cnt = 2, hash_bucket_cnt = 4, hash_buckets = [[], [9, 5], [], []], hash_hash = of_nat,
     hash_less = (<)\<rparr>"

lemma demo_hash_ok: "hash_ok id demo_hash"
proof -
  have "\<exists>n < 32. (4 :: u32) = 2 ^ n \<and> 4 = (2 ^ n :: nat)" by (intro exI [of _ 2]) simp
  then have "shape_ok demo_hash"
    by (auto simp: shape_ok_def demo_hash_def find_bucket_def less_Suc_eq numeral_eq_Suc)
  moreover have "keyed id demo_hash" by (auto simp: keyed_def demo_hash_def)
  ultimately show ?thesis by (simp add: hash_ok_def demo_hash_def hash_elems_def)
qed

lemma demo_hash_simps: "hash_elems demo_hash = [9, 5]" "hash_map id demo_hash = [9 \<mapsto> 9, 5 \<mapsto> 5]"
  by (simp_all add: hash_elems_def hash_map_def demo_hash_def fun_upd_twist)

text \<open>
  C22. \<^verbatim>\<open>hash_insert\<close> returns whether or not memory for a larger table can be had, keeps the table
  well-formed (every element in the bucket of its hash value, the number of buckets a power of
  two, no two elements of equal key, the count right), returns the element of equal key that was
  there before, and otherwise adds the new one to the map that the table stands for.
\<close>

theorem hash_insert_refines:
  assumes "hash_ok key h" and "length (hash_elems h) + 1 < 2 ^ 32"
  shows "\<exists>h'. hash_insert mem h e = Some (h', hash_map key h (key e)) \<and> hash_ok key h' \<and>
     hash_map key h' = (if hash_map key h (key e) = None then (hash_map key h)(key e \<mapsto> e) else hash_map key h)"
proof (cases "hash_map key h (key e)")
  case None
  then show ?thesis
    using insert_new [OF assms, of e mem] find_in_bucket [OF assms(1), of e] by (auto simp: hash_insert_def Let_def)
next
  case (Some e')
  note ok = hash_okD [OF assms(1)]
  obtain h' where h': "rehash mem h = Some h'" "shape_ok h'" "same_funs h h'" "hash_elem_cnt h' = hash_elem_cnt h"
    "mset (hash_elems h') = mset (hash_elems h)"
    using rehash_ok [OF ok(1)] by blast
  from hash_change [OF assms(1) h'(2,3,5) ok(2)] h'(1,4) ok(3) Some find_in_bucket [OF assms(1), of e] show ?thesis
    by (auto simp: hash_insert_def Let_def hash_map_def)
qed

theorem hash_insert_refines_witness:
  "\<exists>h'. hash_insert True demo_hash 13 = Some (h', None) \<and> hash_ok id h' \<and> hash_map id h' = [9 \<mapsto> 9, 5 \<mapsto> 5, 13 \<mapsto> 13]"
  using hash_insert_refines [OF demo_hash_ok, of True 13] by (simp add: demo_hash_simps)

text \<open>
  C23. \<^verbatim>\<open>hash_replace\<close> returns the element of equal key that was in the table, if any, and afterwards the
  table stands for the map in which the key has the new element.
\<close>

theorem hash_replace_refines:
  assumes "hash_ok key h" and "length (hash_elems h) + 1 < 2 ^ 32"
  shows "\<exists>h'. hash_replace mem h e = Some (h', hash_map key h (key e)) \<and> hash_ok key h' \<and>
     hash_map key h' = (hash_map key h)(key e \<mapsto> e)"
proof (cases "hash_map key h (key e)")
  case None
  then show ?thesis
    using insert_new [OF assms, of e mem] find_in_bucket [OF assms(1), of e] by (auto simp: hash_replace_def Let_def)
next
  case (Some e')
  note rem = remove_old [OF assms(1) Some]
  have "find_bucket (remove_elem h e') e = find_bucket h e"
    by (simp add: find_bucket_def remove_elem_def)
  with insert_new [OF rem(1), of e mem] rem(2,3) assms(2) Some find_in_bucket [OF assms(1), of e] show ?thesis
    by (auto simp: hash_replace_def Let_def)
qed

theorem hash_replace_refines_witness:
  "\<exists>h'. hash_replace False demo_hash 9 = Some (h', Some 9) \<and> hash_ok id h'"
  using hash_replace_refines [OF demo_hash_ok, of False 9] by (auto simp: demo_hash_simps)

text \<open>
  C24. \<^verbatim>\<open>hash_find\<close> returns what the map has for the key, and \<^verbatim>\<open>hash_delete\<close> returns the same and removes
  it from the map.
\<close>

theorem hash_delete_refines:
  assumes "hash_ok key h"
  shows "hash_find h e = Some (hash_map key h (key e)) \<and>
     (\<exists>h'. hash_delete mem h e = Some (h', hash_map key h (key e)) \<and> hash_ok key h' \<and>
        hash_map key h' = (hash_map key h)(key e := None))"
proof (cases "hash_map key h (key e)")
  case None
  with find_in_bucket [OF assms, of e] assms show ?thesis by (auto simp: hash_find_def hash_delete_def)
next
  case (Some e')
  note rem = remove_old [OF assms Some] and ok = hash_okD [OF remove_old(1) [OF assms Some]]
  obtain h' where h': "rehash mem (remove_elem h e') = Some h'" "shape_ok h'" "same_funs (remove_elem h e') h'"
    "hash_elem_cnt h' = hash_elem_cnt (remove_elem h e')" "mset (hash_elems h') = mset (hash_elems (remove_elem h e'))"
    using rehash_ok [OF ok(1)] by blast
  from hash_change [OF rem(1) h'(2,3,5) ok(2)] h'(1,4) ok(3) rem(2) Some find_in_bucket [OF assms, of e] show ?thesis
    by (auto simp: hash_find_def hash_delete_def hash_map_def)
qed

theorem hash_delete_refines_witness:
  "hash_find demo_hash 5 = Some (Some 5) \<and> (\<exists>h'. hash_delete True demo_hash 5 = Some (h', Some 5) \<and> hash_map id h' = [9 \<mapsto> 9])"
  using hash_delete_refines [OF demo_hash_ok, of 5 True] by (auto simp: demo_hash_simps)

section \<open>Initialization and clearing\<close>

lemma clear_loop_spec:
  assumes "unat (hash_bucket_cnt h) = length (hash_buckets h)" and "n \<le> length (hash_buckets h)"
  shows "clear_loop n d h = Some (if d then concat (drop (length (hash_buckets h) - n) (hash_buckets h)) else [],
    h\<lparr>hash_buckets := take (length (hash_buckets h) - n) (hash_buckets h) @ replicate n []\<rparr>)"
  using assms
proof (induction n arbitrary: h)
  case (Suc n)
  let ?l = "length (hash_buckets h)" and ?i = "length (hash_buckets h) - Suc n"
  let ?h = "h\<lparr>hash_buckets := (hash_buckets h)[?i := []]\<rparr>"
  have i: "?i < ?l" "?l - n = Suc ?i" using Suc.prems(2) by simp_all
  have "clear_loop n d ?h = Some (if d then concat (drop (?l - n) (hash_buckets h)) else [],
      h\<lparr>hash_buckets := take (?l - n) ((hash_buckets h)[?i := []]) @ replicate n []\<rparr>)"
    using Suc.IH [of ?h] Suc.prems i by simp
  moreover have "take (?l - n) ((hash_buckets h)[?i := []]) @ replicate n [] = take ?i (hash_buckets h) @ replicate (Suc n) []"
    unfolding i(2) using i(1) by (simp add: take_Suc_conv_app_nth replicate_append_same)
  moreover have "concat (drop ?i (hash_buckets h)) = hash_buckets h ! ?i @ concat (drop (?l - n) (hash_buckets h))"
    using i by (metis Cons_nth_drop_Suc concat.simps(2))
  ultimately show ?case
    using Suc.prems i by (simp add: Let_def)
qed simp

lemma hash_clear_spec:
  assumes "unat (hash_bucket_cnt h) = length (hash_buckets h)"
  shows "hash_clear d h = Some (if d then hash_elems h else [],
    h\<lparr>hash_buckets := replicate (length (hash_buckets h)) [], hash_elem_cnt := 0\<rparr>)"
  using clear_loop_spec [OF assms order_refl, of d] assms by (simp add: hash_clear_def hash_elems_def)

lemma hash_ok_empty:
  assumes "keyed key h" and "n < 32" and "hash_bucket_cnt h = 2 ^ n" and "hash_buckets h = replicate (2 ^ n) []"
    and "hash_elem_cnt h = 0"
  shows "hash_ok key h" and "hash_map key h = Map.empty"
proof -
  have e: "hash_elems h = []" using assms(4) by (simp add: hash_elems_def)
  moreover have "shape_ok h" using assms(2-4) by (auto simp: shape_ok_def)
  ultimately show "hash_ok key h" using assms(1,5) by (simp add: hash_ok_def)
  show "hash_map key h = Map.empty" using e by (simp add: hash_map_def)
qed

text \<open>
  C26. \<^verbatim>\<open>hash_init\<close> gives an empty table whatever the memory held that it got for its buckets, and \<^verbatim>\<open>hash_clear\<close>
  makes a table empty, calling the destructor for each element once.
\<close>

theorem hash_init_clear_empty:
  assumes "length junk = 4" and "hash_ok key h"
  shows "(\<exists>h\<^sub>0. hash_init (Some junk) (hash_hash h) (hash_less h) = Some (Some h\<^sub>0) \<and> hash_ok key h\<^sub>0 \<and> hash_map key h\<^sub>0 = Map.empty) \<and>
     (\<exists>h'. hash_clear True h = Some (hash_elems h, h') \<and> hash_ok key h' \<and> hash_map key h' = Map.empty)"
proof -
  obtain n where n: "n < 32" "hash_bucket_cnt h = 2 ^ n" "length (hash_buckets h) = 2 ^ n"
    using hash_okD(1) [OF assms(2)] by (auto simp: shape_ok_def)
  have key: "keyed key h" using assms(2) by (simp add: hash_ok_def)
  let ?h = "h\<lparr>hash_buckets := replicate (2 ^ n) [], hash_elem_cnt := 0\<rparr>"
  have "hash_clear True h = Some (hash_elems h, ?h)"
    using hash_clear_spec [of h True] n unat_exp by simp
  moreover have "hash_ok key ?h" "hash_map key ?h = Map.empty"
    using hash_ok_empty [of key ?h n] keyed_same [of h ?h key] key n by (simp_all add: same_funs_def)
  moreover let ?h\<^sub>0 = "\<lparr>hash_elem_cnt = 0, hash_bucket_cnt = 4, hash_buckets = replicate 4 [], hash_hash = hash_hash h,
    hash_less = hash_less h\<rparr>"
  have "hash_init (Some junk) (hash_hash h) (hash_less h) = Some (Some ?h\<^sub>0)"
    using assms(1) by (simp add: hash_init_def hash_clear_spec)
  moreover have "hash_ok key ?h\<^sub>0" "hash_map key ?h\<^sub>0 = Map.empty"
    using hash_ok_empty [of key ?h\<^sub>0 2] keyed_same [of h ?h\<^sub>0 key] key by (simp_all add: same_funs_def)
  ultimately show ?thesis by blast
qed

theorem hash_init_clear_empty_witness:
  "\<exists>h'. hash_clear True demo_hash = Some ([9, 5], h') \<and> hash_map id h' = Map.empty"
  using hash_init_clear_empty [OF _ demo_hash_ok, of "replicate 4 []"] by (auto simp: demo_hash_simps)

section \<open>Iteration\<close>

text \<open>The elements from the position of an iterator on.\<close>

definition iter_rest :: "'e hash \<Rightarrow> hash_iterator \<Rightarrow> 'e list" where
  "iter_rest h i = (case iter_elem i of
      None \<Rightarrow> []
    | Some p \<Rightarrow> drop p (hash_buckets h ! iter_bucket i) @ concat (drop (Suc (iter_bucket i)) (hash_buckets h)))"

definition iter_ok :: "'e hash \<Rightarrow> hash_iterator \<Rightarrow> bool" where
  "iter_ok h i \<longleftrightarrow> (\<forall>p. iter_elem i = Some p \<longrightarrow>
     iter_bucket i < length (hash_buckets h) \<and> p \<le> length (hash_buckets h ! iter_bucket i))"

lemma next_bucket_spec:
  assumes "length (hash_buckets h) = unat (hash_bucket_cnt h)" and "iter_bucket i < length (hash_buckets h)"
    and "iter_elem i = Some (Suc p)" and "p \<le> length (hash_buckets h ! iter_bucket i)"
  shows "iter_ok h (next_bucket h i) \<and>
    drop p (hash_buckets h ! iter_bucket i) @ concat (drop (Suc (iter_bucket i)) (hash_buckets h)) =
       (case iter_at h (next_bucket h i) of None \<Rightarrow> [] | Some e \<Rightarrow> e # iter_rest h (next_bucket h i))"
  using assms
proof (induction h i arbitrary: p rule: next_bucket.induct)
  case (1 h i)
  let ?b = "hash_buckets h ! iter_bucket i" and ?j = "Suc (iter_bucket i)"
  consider (inside) "p < length ?b" | (last) "p = length ?b" "?j = length (hash_buckets h)"
    | (more) "p = length ?b" "?j < length (hash_buckets h)"
    using "1.prems" by linarith
  then show "iter_ok h (next_bucket h i) \<and> drop p ?b @ concat (drop ?j (hash_buckets h)) =
       (case iter_at h (next_bucket h i) of None \<Rightarrow> [] | Some e \<Rightarrow> e # iter_rest h (next_bucket h i))"
  proof cases
    case inside
    then have "next_bucket h i = i"
      using "1.prems" by (subst next_bucket.simps) simp
    with inside "1.prems" show ?thesis
      by (simp add: iter_ok_def iter_at_def iter_rest_def Cons_nth_drop_Suc)
  next
    case last
    then have "next_bucket h i = i\<lparr>iter_bucket := ?j, iter_elem := None\<rparr>"
      using "1.prems" by (subst next_bucket.simps) simp
    with last show ?thesis
      by (simp add: iter_ok_def iter_at_def)
  next
    case more
    let ?i = "i\<lparr>iter_bucket := ?j, iter_elem := Some 1\<rparr>"
    have n: "next_bucket h i = next_bucket h ?i"
      using more "1.prems" by (subst next_bucket.simps) simp
    have "concat (drop ?j (hash_buckets h)) = hash_buckets h ! ?j @ concat (drop (Suc ?j) (hash_buckets h))"
      using more(2) by (metis Cons_nth_drop_Suc concat.simps(2))
    with more n show ?thesis
      using "1.IH" [of "Suc p" "i\<lparr>iter_bucket := ?j\<rparr>" 0] "1.prems"
      by (simp cong: option.case_cong)
  qed
qed

text \<open>The loop of the iteration idiom: the elements that successive calls of \<^verbatim>\<open>hash_next\<close> return.\<close>

fun hash_iterate :: "nat \<Rightarrow> 'e hash \<Rightarrow> hash_iterator \<Rightarrow> 'e list option" where
  "hash_iterate 0 h i = None"
| "hash_iterate (Suc n) h i = do {
     (i, e) \<leftarrow> hash_next h i;
     case e of None \<Rightarrow> Some [] | Some e \<Rightarrow> do { es \<leftarrow> hash_iterate n h i; Some (e # es) }
   }"

lemma hash_iterate_rest:
  assumes "length (hash_buckets h) = unat (hash_bucket_cnt h)"
  shows "iter_ok h i \<Longrightarrow> iter_elem i \<noteq> None \<Longrightarrow> length (iter_rest h i) < n \<Longrightarrow> hash_iterate n h i = Some (iter_rest h i)"
proof (induction n arbitrary: i)
  case (Suc n)
  obtain p where p: "iter_elem i = Some p" "iter_bucket i < length (hash_buckets h)" "p \<le> length (hash_buckets h ! iter_bucket i)"
    using Suc.prems by (auto simp: iter_ok_def)
  let ?i = "next_bucket h (i\<lparr>iter_elem := Some (Suc p)\<rparr>)"
  have spec: "iter_ok h ?i" "iter_rest h i = (case iter_at h ?i of None \<Rightarrow> [] | Some e \<Rightarrow> e # iter_rest h ?i)"
    using next_bucket_spec [OF assms, of "i\<lparr>iter_elem := Some (Suc p)\<rparr>" p] p by (simp_all add: iter_rest_def)
  have "iter_at h ?i \<noteq> None \<Longrightarrow> iter_elem ?i \<noteq> None" by (auto simp: iter_at_def split: option.splits)
  with spec p Suc show ?case
    by (auto simp: hash_next_def Let_def split: option.splits)
qed simp

lemma apply_bucket_eq [simp]: "apply_bucket b calls = calls @ b"
  by (induction b arbitrary: calls) simp_all

lemma apply_loop_eq [simp]: "apply_loop bs calls = calls @ concat bs"
  by (induction bs arbitrary: calls) simp_all

text \<open>
  C25. Iterating over a table with \<^verbatim>\<open>hash_first\<close> and \<^verbatim>\<open>hash_next\<close> ends and returns every element once, in
  the order in which \<^verbatim>\<open>hash_apply\<close> visits them.
\<close>

theorem hash_iteration_complete:
  assumes "hash_ok key h"
  shows "hash_iterate (length (hash_elems h) + 1) h hash_first = Some (hash_elems h) \<and> hash_apply h = hash_elems h \<and>
     distinct (hash_elems h) \<and> unat (hash_size h) = length (hash_elems h)"
proof -
  note ok = hash_okD [OF assms]
  have len: "length (hash_buckets h) = unat (hash_bucket_cnt h)" "hash_buckets h \<noteq> []"
    using ok(1) unat_exp by (auto simp: shape_ok_def)
  then have "iter_rest h hash_first = hash_elems h"
    by (cases "hash_buckets h") (simp_all add: iter_rest_def hash_first_def hash_elems_def)
  moreover have "iter_ok h hash_first" "iter_elem hash_first \<noteq> None"
    using len(2) by (simp_all add: iter_ok_def hash_first_def)
  ultimately have "hash_iterate (length (hash_elems h) + 1) h hash_first = Some (hash_elems h)"
    using hash_iterate_rest [OF len(1), of hash_first "length (hash_elems h) + 1"] by simp
  with len ok show ?thesis
    by (simp add: hash_apply_def hash_elems_def hash_size_def)
qed

theorem hash_iteration_complete_witness: "hash_iterate 3 demo_hash hash_first = Some [9, 5]"
  using hash_iteration_complete [OF demo_hash_ok] by (simp add: demo_hash_simps numeral_3_eq_3)

end
