(* ===== verification/Arith64.thy ===== *)
theory Arith64
  imports Pintos_Prelude
begin

text \<open>
  The 64-bit division routines of \<^verbatim>\<open>lib/arithmetic.c\<close>. Unsigned numbers are natural numbers, reduced
  modulo \<open>2 ^ 64\<close> or \<open>2 ^ 32\<close> where the code computes at that width; signed 64-bit numbers are integers
  between \<open>- 2 ^ 63\<close> and \<open>2 ^ 63 - 1\<close>. A divide error is \<^const>\<open>None\<close>.
\<close>

section \<open>The code\<close>

abbreviation (input) u32n :: "nat \<Rightarrow> nat" where "u32n x \<equiv> x mod 2 ^ 32"
abbreviation (input) u64n :: "nat \<Rightarrow> nat" where "u64n x \<equiv> x mod 2 ^ 64"

text \<open>The difference of unsigned 64-bit numbers.\<close>

definition sub64 :: "nat \<Rightarrow> nat \<Rightarrow> nat" where
  "sub64 a b = u64n (a + (2 ^ 64 - u64n b))"

definition divl :: "nat \<Rightarrow> nat \<Rightarrow> nat option" where
  "divl n d = do {
     ASSERT (d \<noteq> 0 \<and> n div d < 2 ^ 32);
     Some (n div d)
   }"

definition nlz_step :: "nat \<Rightarrow> nat \<Rightarrow> nat \<times> nat \<Rightarrow> nat \<times> nat" where
  "nlz_step limit k = (\<lambda>(n, x). if x \<le> limit then (n + k, u32n (x * 2 ^ k)) else (n, x))"

definition nlz :: "nat \<Rightarrow> nat" where
  "nlz x = (let
      (n, x) = nlz_step 0x0000FFFF 16 (0, x);
      (n, x) = nlz_step 0x00FFFFFF 8 (n, x);
      (n, x) = nlz_step 0x0FFFFFFF 4 (n, x);
      (n, x) = nlz_step 0x3FFFFFFF 2 (n, x)
    in if x \<le> 0x7FFFFFFF then n + 1 else n)"

definition udiv64 :: "nat \<Rightarrow> nat \<Rightarrow> nat option" where
  "udiv64 n d =
     (if d div 2 ^ 32 = 0 then do {
        let b = 2 ^ 32;
        let n1 = u32n (n div 2 ^ 32);
        let n0 = u32n n;
        let d0 = u32n d;
        ASSERT (d0 \<noteq> 0);
        q \<leftarrow> divl (u64n (b * (n1 mod d0) + n0)) d0;
        Some (u64n (q + b * (n1 div d0)))
      } else if n < d then Some 0
      else do {
        let d1 = u32n (d div 2 ^ 32);
        let s = nlz d1;
        q \<leftarrow> divl (n div 2) (u32n (u64n (d * 2 ^ s) div 2 ^ 32));
        let q = q div 2 ^ (31 - s);
        Some (if sub64 n (u64n (sub64 q 1 * d)) < d then sub64 q 1 else q)
      })"

definition umod64 :: "nat \<Rightarrow> nat \<Rightarrow> nat option" where
  "umod64 n d = do {
     q \<leftarrow> udiv64 n d;
     Some (u32n (sub64 n (u64n (d * q))))
   }"

text \<open>Conversions between signed and unsigned numbers of the same width.\<close>

definition to_u64 :: "int \<Rightarrow> nat" where
  "to_u64 i = nat (i mod 2 ^ 64)"

definition to_s64 :: "int \<Rightarrow> int" where
  "to_s64 n = (n + 2 ^ 63) mod 2 ^ 64 - 2 ^ 63"

definition to_s32 :: "int \<Rightarrow> int" where
  "to_s32 n = (n + 2 ^ 31) mod 2 ^ 32 - 2 ^ 31"

text \<open>The absolute value as the code computes it, \<^verbatim>\<open>n >= 0 ? (uint64_t)n : -(uint64_t)n\<close>.\<close>

definition abs64 :: "int \<Rightarrow> nat" where
  "abs64 n = (if n \<ge> 0 then to_u64 n else sub64 0 (to_u64 n))"

text \<open>Negating the smallest number is signed overflow, which has no value.\<close>

definition neg64 :: "int \<Rightarrow> int option" where
  "neg64 i = do { ASSERT (i \<noteq> - (2 ^ 63)); Some (- i) }"

definition sdiv64 :: "int \<Rightarrow> int \<Rightarrow> int option" where
  "sdiv64 n d = do {
     q_abs \<leftarrow> udiv64 (abs64 n) (abs64 d);
     let q = to_s64 (int q_abs);
     if (n < 0) = (d < 0) then Some q else neg64 q
   }"

definition smod64 :: "int \<Rightarrow> int \<Rightarrow> int option" where
  "smod64 n d = do {
     q \<leftarrow> sdiv64 n d;
     ASSERT (- (2 ^ 63) \<le> d * q \<and> d * q < 2 ^ 63 \<and> - (2 ^ 63) \<le> n - d * q \<and> n - d * q < 2 ^ 63);
     Some (to_s32 (n - d * q))
   }"

section \<open>Leading zeros\<close>

lemma nlz_spec:
  assumes "0 < x" and "x < 2 ^ 32"
  shows "nlz x < 32" and "2 ^ 31 \<le> x * 2 ^ nlz x" and "x * 2 ^ nlz x < 2 ^ 32"
proof -
  have "nlz x < 32 \<and> 2 ^ 31 \<le> x * 2 ^ nlz x \<and> x * 2 ^ nlz x < 2 ^ 32"
    using assms by (simp add: nlz_def nlz_step_def Let_def)
  then show "nlz x < 32" and "2 ^ 31 \<le> x * 2 ^ nlz x" and "x * 2 ^ nlz x < 2 ^ 32" by auto
qed

section \<open>Division\<close>

text \<open>The estimate behind the second case: the quotient by the truncated divisor is at most one too large.\<close>

lemma square_bound: "4 * (K - 1) \<le> K * (K :: nat)"
proof (cases "K \<le> 1")
  case False
  then obtain m where "K = 2 + m" using le_Suc_ex [of 2 K] by auto
  then show ?thesis by (simp add: algebra_simps)
qed simp

lemma div_estimate:
  fixes n d D e k :: nat
  assumes d: "d = D + e" and e: "e < 2 ^ k" and D: "2 ^ (31 + k) \<le> D" and n: "n < 2 ^ 64"
  shows "n div d \<le> n div D" and "n div D \<le> n div d + 1"
proof -
  have pos: "0 < D" using D by (metis gr0I not_le zero_less_numeral zero_less_power)
  show "n div d \<le> n div D" using pos d by (simp add: div_le_mono2)
  have ne: "n * e < d * D"
  proof (cases "e = 0")
    case False
    have "n * e < 2 ^ 64 * e" using n False by (intro mult_strict_right_mono) simp_all
    also have "\<dots> \<le> 2 ^ 64 * (2 ^ k - 1)" using e by (intro mult_le_mono2) linarith
    also have "\<dots> = 2 ^ 62 * (4 * (2 ^ k - 1))" by simp
    also have "\<dots> \<le> 2 ^ 62 * (2 ^ k * 2 ^ k)" by (intro mult_le_mono2 square_bound)
    also have "\<dots> = 2 ^ (31 + k) * 2 ^ (31 + k)" by (simp add: power_add)
    also have "\<dots> \<le> d * D" using D d by (intro mult_le_mono) linarith+
    finally show ?thesis .
  qed (use pos d in simp)
  have n_less: "n < d * (n div d + 1)" using pos d by (simp add: dividend_less_times_div)
  have "d * n = D * n + n * e" using d by (simp add: algebra_simps)
  also have "\<dots> < D * n + D * d" using ne by (simp add: mult.commute)
  also have "\<dots> \<le> D * (d * (n div d + 1) + d)" using n_less by (simp add: add_mult_distrib2 [symmetric] mult_le_mono2)
  also have "\<dots> = d * (D * (n div d + 2))" by (simp add: algebra_simps)
  finally have "n < (n div d + 2) * D" by (simp add: mult.commute)
  then have "n div D < n div d + 2" using pos by (simp add: div_less_iff_less_mult)
  then show "n div D \<le> n div d + 1" by simp
qed

lemma sub64_eq: "b \<le> a \<Longrightarrow> a < 2 ^ 64 \<Longrightarrow> sub64 a b = a - b"
  by (simp add: sub64_def mod_if)

lemma udiv64_small:
  assumes "n < 2 ^ 64" and "0 < d" and "d < 2 ^ 32"
  shows "udiv64 n d = Some (n div d)"
proof -
  define n1 n0 where "n1 = n div 2 ^ 32" and "n0 = n mod 2 ^ 32"
  have n: "n = 2 ^ 32 * n1 + n0" "n0 < 2 ^ 32" by (simp_all add: n1_def n0_def)
  have n1: "n1 < 2 ^ 32" using assms(1) by (simp add: n1_def less_mult_imp_div_less)
  let ?r = "2 ^ 32 * (n1 mod d) + n0"
  have "n1 mod d + 1 \<le> d" using assms(2) by (simp add: Suc_le_eq)
  then have "2 ^ 32 * (n1 mod d + 1) \<le> 2 ^ 32 * d" by (rule mult_le_mono2)
  then have r: "?r < 2 ^ 32 * d" using n(2) by simp
  have "?r + d * (2 ^ 32 * (n1 div d)) = 2 ^ 32 * (n1 mod d + d * (n1 div d)) + n0" by (simp only: algebra_simps)
  also have "\<dots> = n" by (simp add: n(1))
  finally have "n div d = (?r + d * (2 ^ 32 * (n1 div d))) div d" by (simp only:)
  also have "\<dots> = ?r div d + 2 ^ 32 * (n1 div d)" using assms(2) by (subst div_mult_self2) simp_all
  finally have eq: "n div d = ?r div d + 2 ^ 32 * (n1 div d)" .
  have "?r < 2 ^ 64" using r assms(3) by simp
  moreover have "?r div d < 2 ^ 32" using r by (rule less_mult_imp_div_less)
  moreover have "n div d < 2 ^ 64" using assms(1) div_le_dividend by (rule le_less_trans [rotated])
  ultimately show ?thesis
    unfolding udiv64_def Let_def n1_def [symmetric] n0_def [symmetric] using assms n1 eq by (simp add: divl_def)
qed

lemma udiv64_large:
  assumes "n < 2 ^ 64" and "2 ^ 32 \<le> d" and "d < 2 ^ 64"
  shows "udiv64 n d = Some (n div d)"
proof (cases "n < d")
  case False
  define d1 where "d1 = d div 2 ^ 32"
  define s where "s = nlz d1"
  have d1: "0 < d1" "d1 < 2 ^ 32" using assms by (simp_all add: d1_def div_greater_zero_iff less_mult_imp_div_less)
  note s = nlz_spec [OF d1, folded s_def]
  define k where "k = 32 - s"
  have sk: "s + k = 32" "31 - s = k - 1" "1 \<le> k" using s(1) by (simp_all add: k_def)
  define v where "v = d div 2 ^ k"
  have dv: "d = v * 2 ^ k + d mod 2 ^ k" by (simp add: v_def div_mult_mod_eq)
  have pow: "2 ^ 32 = 2 ^ k * (2 ^ s :: nat)" using sk(1) by (simp add: power_add [symmetric] add.commute)
  have "d1 * 2 ^ s < 2 ^ k * 2 ^ s" using s(3) pow by metis
  then have d1k: "d1 + 1 \<le> 2 ^ k" by simp
  have "d < 2 ^ 32 * (d1 + 1)" by (simp add: d1_def dividend_less_times_div)
  also have "\<dots> \<le> 2 ^ 32 * 2 ^ k" using d1k by (rule mult_le_mono2)
  finally have "d * 2 ^ s < 2 ^ 32 * 2 ^ k * 2 ^ s" by simp
  also have "\<dots> = 2 ^ 64" using pow by (simp add: mult.assoc)
  finally have ds: "d * 2 ^ s < 2 ^ 64" .
  have v: "d * 2 ^ s div 2 ^ 32 = v" unfolding v_def pow by simp
  have "2 ^ 31 * 2 ^ 32 \<le> d1 * 2 ^ s * 2 ^ 32" using s(2) by (rule mult_le_mono1)
  also have "\<dots> \<le> d * 2 ^ s" by (simp add: d1_def mult.commute mult.left_commute)
  finally have v31: "2 ^ 31 \<le> v" using v by (metis div_le_mono div_mult_self_is_m zero_less_numeral zero_less_power)
  have v32: "v < 2 ^ 32" using ds v by (simp add: less_mult_imp_div_less flip: v)
  have q32: "n div 2 div v < 2 ^ 32"
    using assms(1) v31 by (intro less_mult_imp_div_less) simp
  have q: "n div 2 div v div 2 ^ (k - 1) = n div (v * 2 ^ k)"
  proof -
    have "2 * v * 2 ^ (k - 1) = v * 2 ^ k" using sk(3) by (cases k) simp_all
    then show ?thesis by (metis div_mult2_eq)
  qed
  have est: "n div d \<le> n div (v * 2 ^ k)" "n div (v * 2 ^ k) \<le> n div d + 1"
    using div_estimate [OF dv _ _ assms(1), of k] v31 by (simp_all add: power_add)
  let ?q = "n div (v * 2 ^ k)"
  have "0 < n div d" using False assms(2) by (simp add: div_greater_zero_iff)
  then have q1: "sub64 ?q 1 = ?q - 1" using est assms(1) by (intro sub64_eq) (auto intro: le_less_trans [OF div_le_dividend])
  have "(?q - 1) * d \<le> n div d * d" using est(2) by (intro mult_le_mono1) simp
  also have "\<dots> \<le> n" by simp
  finally have le: "(?q - 1) * d \<le> n" .
  then have sub: "sub64 n (u64n ((?q - 1) * d)) = n - (?q - 1) * d"
    using assms(1) by (simp add: sub64_eq)
  have r: "n div d * d + n mod d = n" "n mod d < d" using assms(2) by simp_all
  have "(if n - (?q - 1) * d < d then ?q - 1 else ?q) = n div d"
  proof (cases "?q = n div d")
    case True
    have "n - (n div d - 1) * d = n mod d + d"
      using r \<open>0 < n div d\<close> by (cases "n div d") (simp_all add: algebra_simps)
    with True show ?thesis by simp
  next
    case False
    with est have "?q = n div d + 1" by simp
    moreover have "n - n div d * d = n mod d" using r(1) by linarith
    ultimately show ?thesis using r(2) by simp
  qed
  moreover have "u32n (d div 2 ^ 32) = d1" "u32n (u64n (d * 2 ^ s) div 2 ^ 32) = v" "d div 2 ^ 32 \<noteq> 0"
    using d1 ds v v32 by (simp_all add: d1_def)
  moreover have "divl (n div 2) v = Some (n div 2 div v)"
    using q32 v31 by (simp add: divl_def)
  ultimately show ?thesis
    unfolding udiv64_def Let_def using False by (simp only: s_def [symmetric] sk(2) q q1 sub if_False bind.bind_lunit)
qed (use assms in \<open>auto simp: udiv64_def div_eq_0_iff\<close>)

lemma udiv64_eq:
  assumes "n < 2 ^ 64" and "0 < d" and "d < 2 ^ 64"
  shows "udiv64 n d = Some (n div d)"
  using udiv64_small [OF assms(1,2)] udiv64_large [OF assms(1) _ assms(3)] by (cases "d < 2 ^ 32") (simp_all only: not_less)

text \<open>
  C27. \<^verbatim>\<open>udiv64\<close> never traps for a divisor other than zero and returns the quotient, also where it estimates it
  from the upper half of the divisor; \<^verbatim>\<open>umod64\<close>, whose result has type \<^verbatim>\<open>uint32_t\<close>, returns the remainder only up
  to its lower 32 bits, where its comment promises the remainder.
\<close>

theorem udiv64_correct:
  assumes "n < 2 ^ 64" and "0 < d" and "d < 2 ^ 64"
  shows "udiv64 n d = Some (n div d) \<and> umod64 n d = Some (n mod d mod 2 ^ 32)"
proof -
  have q: "udiv64 n d = Some (n div d)"
    using udiv64_eq [OF assms] .
  have le: "d * (n div d) \<le> n" by (simp add: mult.commute)
  then have "u64n (d * (n div d)) = d * (n div d)" using assms(1) by (intro mod_less) (rule le_less_trans)
  then have "sub64 n (u64n (d * (n div d))) = n mod d"
    using sub64_eq [OF le assms(1)] by (simp only: minus_mult_div_eq_mod)
  with q show ?thesis by (simp only: umod64_def bind.bind_lunit)
qed

theorem udiv64_correct_witness:
  "udiv64 (2 ^ 64 - 1) (3 * 2 ^ 32) = Some 1431655765 \<and> umod64 (2 ^ 64 - 1) (3 * 2 ^ 32) = Some 4294967295"
  using udiv64_correct [of "2 ^ 64 - 1" "3 * 2 ^ 32"] by simp

lemma abs64_eq: "- (2 ^ 63) \<le> n \<Longrightarrow> n < 2 ^ 63 \<Longrightarrow> abs64 n = nat \<bar>n\<bar>"
proof (cases "n \<ge> 0")
  case False
  assume "- (2 ^ 63) \<le> n" "n < 2 ^ 63"
  with False have "(n + 2 ^ 64) mod 2 ^ 64 = n + 2 ^ 64" by (intro mod_pos_pos_trivial) simp_all
  then have "to_u64 n = nat (n + 2 ^ 64)" unfolding to_u64_def by (simp only: mod_add_self2)
  with False \<open>- (2 ^ 63) \<le> n\<close> show ?thesis
    by (simp add: abs64_def sub64_def nat_less_iff nat_diff_distrib' [symmetric])
qed (simp add: abs64_def to_u64_def)

text \<open>
  C28. \<^verbatim>\<open>sdiv64\<close> divides signed numbers with truncation towards zero, as C does, and \<^verbatim>\<open>smod64\<close>, whose result has type
  \<^verbatim>\<open>int32_t\<close>, returns the remainder, which has the sign of the dividend, reduced to 32 bits, where its comment promises the
  remainder. Left out is the division of the smallest number by 1 or -1, whose quotient has no signed absolute value.
\<close>

theorem sdiv64_correct:
  assumes "- (2 ^ 63) \<le> n" and "n < 2 ^ 63" and "- (2 ^ 63) \<le> d" and "d < 2 ^ 63" and "d \<noteq> 0"
    and "n \<noteq> - (2 ^ 63) \<or> 1 < \<bar>d\<bar>"
  shows "sdiv64 n d = Some (sgn n * sgn d * (\<bar>n\<bar> div \<bar>d\<bar>)) \<and> smod64 n d = Some (to_s32 (sgn n * (\<bar>n\<bar> mod \<bar>d\<bar>)))"
proof -
  let ?q = "\<bar>n\<bar> div \<bar>d\<bar>"
  have "nat \<bar>n\<bar> < 2 ^ 64" "0 < nat \<bar>d\<bar>" "nat \<bar>d\<bar> < 2 ^ 64" using assms by auto
  from udiv64_eq [OF this] have u: "udiv64 (abs64 n) (abs64 d) = Some (nat ?q)"
    using assms by (simp add: abs64_eq nat_div_distrib)
  have q: "0 \<le> ?q" "?q \<le> \<bar>n\<bar>"
    using assms(5) zdiv_mono2 [of "\<bar>n\<bar>" 1 "\<bar>d\<bar>"] by (auto simp: pos_imp_zdiv_nonneg_iff)
  have "?q < 2 ^ 63"
  proof (cases "n = - (2 ^ 63)")
    case True
    then have "?q \<le> \<bar>n\<bar> div 2" using assms(6) by (intro zdiv_mono2) auto
    with True show ?thesis by simp
  qed (use q assms(1,2) in linarith)
  with q have s: "to_s64 (int (nat ?q)) = ?q" by (simp add: to_s64_def mod_pos_pos_trivial)
  have q0: "?q = 0" if "n = 0" using that by simp
  have div: "sdiv64 n d = Some (sgn n * sgn d * ?q)"
  proof (cases "(n < 0) = (d < 0)")
    case True
    have "sgn n * sgn d * ?q = ?q" using True assms(5) q0 by (cases "n = 0") (auto simp: sgn_if)
    with True u s show ?thesis by (simp only: sdiv64_def Let_def bind.bind_lunit simp_thms if_True)
  next
    case False
    have "sgn n * sgn d * ?q = - ?q" using False assms(5) q0 by (cases "n = 0") (auto simp: sgn_if)
    moreover have "neg64 ?q = Some (- ?q)" using q by (simp add: neg64_def)
    ultimately show ?thesis using False u s by (simp only: sdiv64_def Let_def bind.bind_lunit if_False)
  qed
  have "d * (sgn n * sgn d * ?q) = sgn n * (\<bar>d\<bar> * ?q)"
    by (simp add: abs_sgn mult.commute mult.left_commute)
  moreover have "n = sgn n * \<bar>n\<bar>" "\<bar>n\<bar> = \<bar>d\<bar> * ?q + \<bar>n\<bar> mod \<bar>d\<bar>" by (simp_all add: sgn_mult_abs)
  ultimately have rem: "n - d * (sgn n * sgn d * ?q) = sgn n * (\<bar>n\<bar> mod \<bar>d\<bar>)"
    by (metis add_diff_cancel_left' right_diff_distrib')
  have b: "0 \<le> \<bar>d\<bar> * ?q" "0 \<le> \<bar>n\<bar> mod \<bar>d\<bar>"
    using assms(5) q(1) by simp_all
  moreover have "\<bar>d\<bar> * ?q \<le> \<bar>n\<bar>" "\<bar>n\<bar> mod \<bar>d\<bar> \<le> \<bar>n\<bar>"
    using b \<open>\<bar>n\<bar> = \<bar>d\<bar> * ?q + \<bar>n\<bar> mod \<bar>d\<bar>\<close> by linarith+
  moreover have "- (2 ^ 63) \<le> sgn n * x \<and> sgn n * x < 2 ^ 63" if "0 \<le> x" "x \<le> \<bar>n\<bar>" for x
    using that assms(1,2) by (auto simp: sgn_if)
  ultimately have "- (2 ^ 63) \<le> d * (sgn n * sgn d * ?q) \<and> d * (sgn n * sgn d * ?q) < 2 ^ 63 \<and>
      - (2 ^ 63) \<le> sgn n * (\<bar>n\<bar> mod \<bar>d\<bar>) \<and> sgn n * (\<bar>n\<bar> mod \<bar>d\<bar>) < 2 ^ 63"
    unfolding \<open>d * (sgn n * sgn d * ?q) = sgn n * (\<bar>d\<bar> * ?q)\<close> by blast
  with div rem show ?thesis by (simp add: smod64_def)
qed

theorem sdiv64_correct_witness: "sdiv64 (- 7) 2 = Some (- 3) \<and> smod64 (- 7) 2 = Some (- 1)"
  using sdiv64_correct [of "- 7" 2] by (simp add: to_s32_def)

end
