(* ===== verification/Stdlib.thy ===== *)
theory Stdlib
  imports Pintos_Prelude
begin

text \<open>
  \<^verbatim>\<open>lib/stdlib.c\<close>: \<^verbatim>\<open>atoi\<close>, heap sort and binary search. An array is the sequence of its elements, each of \<^verbatim>\<open>size\<close> bytes;
  indexes are natural numbers reduced modulo \<open>2 ^ 32\<close> where the code computes them. An access outside of the
  array has no value (\<^const>\<open>None\<close>). The comparison function is the client's and returns an integer as \<^verbatim>\<open>strcmp\<close> does.
\<close>

section \<open>The code\<close>

subsection \<open>Numbers\<close>

type_synonym bytes = "u8 list"

definition isspace :: "u8 \<Rightarrow> bool" where
  "isspace c \<longleftrightarrow> c = 32 \<or> c = 12 \<or> c = 10 \<or> c = 13 \<or> c = 9 \<or> c = 11"

definition isdigit :: "u8 \<Rightarrow> bool" where
  "isdigit c \<longleftrightarrow> 48 \<le> c \<and> c \<le> 57"

text \<open>Reading a string leaves it where no null byte ends it; signed overflow has no value either.\<close>

definition deref :: "bytes \<Rightarrow> u8 option" where
  "deref s = (case s of [] \<Rightarrow> None | c # _ \<Rightarrow> Some c)"

fun skip_space :: "bytes \<Rightarrow> bytes option" where
  "skip_space [] = None"
| "skip_space (c # s) = (if isspace c then skip_space s else Some (c # s))"

definition int32 :: "int \<Rightarrow> int option" where
  "int32 i = do { ASSERT (- (2 ^ 31) \<le> i \<and> i < 2 ^ 31); Some i }"

fun parse_digits :: "int \<Rightarrow> bytes \<Rightarrow> int option" where
  "parse_digits v [] = None"
| "parse_digits v (c # s) = (if isdigit c then do {
       v \<leftarrow> int32 (v * 10);
       v \<leftarrow> int32 (v - (uint c - 48));
       parse_digits v s
     } else Some v)"

definition atoi :: "bytes \<Rightarrow> int option" where
  "atoi s = do {
     s \<leftarrow> skip_space s;
     c \<leftarrow> deref s;
     let negative = (c = 45);
     v \<leftarrow> parse_digits 0 (if c = 43 \<or> c = 45 then tl s else s);
     if negative then Some v else int32 (- v)
   }"

subsection \<open>Sorting\<close>

text \<open>Elements have indexes from 1 on.\<close>

definition elem_at :: "'a list \<Rightarrow> nat \<Rightarrow> 'a option" where
  "elem_at xs i = do { ASSERT (1 \<le> i \<and> i \<le> length xs); Some (xs ! (i - 1)) }"

definition do_swap :: "'a list \<Rightarrow> nat \<Rightarrow> nat \<Rightarrow> 'a list option" where
  "do_swap xs a b = do {
     x \<leftarrow> elem_at xs a;
     y \<leftarrow> elem_at xs b;
     Some (xs[a - 1 := y, b - 1 := x])
   }"

definition do_compare :: "('a \<Rightarrow> 'a \<Rightarrow> int) \<Rightarrow> 'a list \<Rightarrow> nat \<Rightarrow> nat \<Rightarrow> int option" where
  "do_compare compare xs a b = do {
     x \<leftarrow> elem_at xs a;
     y \<leftarrow> elem_at xs b;
     Some (compare x y)
   }"

definition pick_max :: "('a \<Rightarrow> 'a \<Rightarrow> int) \<Rightarrow> 'a list \<Rightarrow> nat \<Rightarrow> nat \<Rightarrow> nat \<Rightarrow> nat option" where
  "pick_max compare xs cnt child m =
     (if child \<le> cnt then do {
        c \<leftarrow> do_compare compare xs child m;
        Some (if c > 0 then child else m)
      } else Some m)"

partial_function (option) heapify :: "('a \<Rightarrow> 'a \<Rightarrow> int) \<Rightarrow> nat \<Rightarrow> nat \<Rightarrow> 'a list \<Rightarrow> 'a list option" where
  "heapify compare i cnt xs = do {
     let left = 2 * i mod 2 ^ 32;
     let right = (2 * i + 1) mod 2 ^ 32;
     m \<leftarrow> pick_max compare xs cnt left i;
     m \<leftarrow> pick_max compare xs cnt right m;
     if m = i then Some xs
     else do {
       xs \<leftarrow> do_swap xs i m;
       heapify compare m cnt xs
     }
   }"

fun build_heap :: "('a \<Rightarrow> 'a \<Rightarrow> int) \<Rightarrow> nat \<Rightarrow> nat \<Rightarrow> 'a list \<Rightarrow> 'a list option" where
  "build_heap compare 0 cnt xs = Some xs"
| "build_heap compare (Suc i) cnt xs = do {
     xs \<leftarrow> heapify compare (Suc i) cnt xs;
     build_heap compare i cnt xs
   }"

fun sort_heap :: "('a \<Rightarrow> 'a \<Rightarrow> int) \<Rightarrow> nat \<Rightarrow> 'a list \<Rightarrow> 'a list option" where
  "sort_heap compare (Suc (Suc i)) xs = do {
     xs \<leftarrow> do_swap xs 1 (Suc (Suc i));
     xs \<leftarrow> heapify compare 1 (Suc i) xs;
     sort_heap compare (Suc i) xs
   }"
| "sort_heap compare _ xs = Some xs"

definition sort_array :: "('a \<Rightarrow> 'a \<Rightarrow> int) \<Rightarrow> 'a list \<Rightarrow> nat \<Rightarrow> 'a list option" where
  "sort_array compare xs cnt = do {
     xs \<leftarrow> build_heap compare (cnt div 2) cnt xs;
     sort_heap compare cnt xs
   }"

definition qsort :: "('a \<Rightarrow> 'a \<Rightarrow> int) \<Rightarrow> 'a list \<Rightarrow> nat \<Rightarrow> 'a list option" where
  "qsort compare xs cnt = sort_array compare xs cnt"

subsection \<open>Searching\<close>

text \<open>The pointers into the array are indexes from 0 on.\<close>

partial_function (option) search_loop :: "('a \<Rightarrow> 'a \<Rightarrow> int) \<Rightarrow> 'a \<Rightarrow> 'a list \<Rightarrow> nat \<Rightarrow> nat \<Rightarrow> nat option option" where
  "search_loop compare key xs first lim =
     (if first < lim then do {
        let range = lim - first;
        let middle = first + range div 2;
        ASSERT (middle < length xs);
        let cmp = compare key (xs ! middle);
        if cmp < 0 then search_loop compare key xs first middle
        else if cmp > 0 then search_loop compare key xs (middle + 1) lim
        else Some (Some middle)
      } else Some None)"

definition binary_search :: "('a \<Rightarrow> 'a \<Rightarrow> int) \<Rightarrow> 'a \<Rightarrow> 'a list \<Rightarrow> nat \<Rightarrow> nat option option" where
  "binary_search compare key xs cnt = search_loop compare key xs 0 cnt"

definition bsearch :: "('a \<Rightarrow> 'a \<Rightarrow> int) \<Rightarrow> 'a \<Rightarrow> 'a list \<Rightarrow> nat \<Rightarrow> nat option option" where
  "bsearch compare key xs cnt = binary_search compare key xs cnt"

section \<open>Comparison functions\<close>

definition strcmp_type :: "('a \<Rightarrow> 'a \<Rightarrow> int) \<Rightarrow> bool" where
  "strcmp_type compare \<longleftrightarrow> (\<forall>a b. compare a b > 0 \<longleftrightarrow> compare b a < 0) \<and>
     (\<forall>a b c. compare a b \<le> 0 \<longrightarrow> compare b c \<le> 0 \<longrightarrow> compare a c \<le> 0)"

lemma strcmp_type_total: "strcmp_type compare \<Longrightarrow> compare a b > 0 \<Longrightarrow> compare b a \<le> 0"
  unfolding strcmp_type_def by (meson less_imp_le)

lemma strcmp_type_trans: "strcmp_type compare \<Longrightarrow> compare a b \<le> 0 \<Longrightarrow> compare b c \<le> 0 \<Longrightarrow> compare a c \<le> 0"
  unfolding strcmp_type_def by blast

lemma strcmp_type_refl: "strcmp_type compare \<Longrightarrow> compare a a \<le> 0"
  unfolding strcmp_type_def by (meson less_asym not_le)

section \<open>Heaps\<close>

text \<open>The element at index \<open>i\<close>, for the statement of invariants.\<close>

abbreviation at :: "'a list \<Rightarrow> nat \<Rightarrow> 'a" where "at xs i \<equiv> xs ! (i - 1)"

text \<open>
  Every node from \<open>lo\<close> on, apart from \<open>h\<close>, is not less than its children, and a parent of \<open>h\<close>
  from \<open>lo\<close> on is not less than the children of \<open>h\<close>.
\<close>

definition heap_but :: "('a \<Rightarrow> 'a \<Rightarrow> int) \<Rightarrow> nat \<Rightarrow> nat \<Rightarrow> nat \<Rightarrow> 'a list \<Rightarrow> bool" where
  "heap_but compare h lo cnt xs \<longleftrightarrow> (\<forall>c. 2 \<le> c \<and> c \<le> cnt \<longrightarrow>
     (lo \<le> c div 2 \<and> c div 2 \<noteq> h \<longrightarrow> compare (at xs c) (at xs (c div 2)) \<le> 0) \<and>
     (c div 2 = h \<and> lo \<le> h div 2 \<and> 2 \<le> h \<longrightarrow> compare (at xs c) (at xs (h div 2)) \<le> 0))"

definition heap_from :: "('a \<Rightarrow> 'a \<Rightarrow> int) \<Rightarrow> nat \<Rightarrow> nat \<Rightarrow> 'a list \<Rightarrow> bool" where
  "heap_from compare lo cnt xs \<longleftrightarrow>
     (\<forall>c. 2 \<le> c \<and> c \<le> cnt \<and> lo \<le> c div 2 \<longrightarrow> compare (at xs c) (at xs (c div 2)) \<le> 0)"

lemma pick_max_spec:
  assumes "1 \<le> m" and "m \<le> length xs" and "cnt \<le> length xs" and "1 \<le> child"
  shows "pick_max compare xs cnt child m = Some (if child \<le> cnt \<and> compare (at xs child) (at xs m) > 0 then child else m)"
  using assms by (simp add: pick_max_def do_compare_def elem_at_def)

lemma do_swap_spec:
  assumes "1 \<le> a" "a \<le> length xs" "1 \<le> b" "b \<le> length xs"
  shows "do_swap xs a b = Some (xs[a - 1 := at xs b, b - 1 := at xs a])"
  using assms by (simp add: do_swap_def elem_at_def)

lemma at_swap:
  assumes "1 \<le> a" "a \<le> length xs" "1 \<le> b" "b \<le> length xs" "1 \<le> i"
  shows "at (xs[a - 1 := at xs b, b - 1 := at xs a]) i = (if i = b then at xs a else if i = a then at xs b else at xs i)"
  using assms by (auto simp: nth_list_update)

text \<open>What a run of \<open>heapify\<close> on the first \<open>cnt\<close> elements may change.\<close>

definition rearranged :: "nat \<Rightarrow> 'a list \<Rightarrow> 'a list \<Rightarrow> bool" where
  "rearranged cnt xs ys \<longleftrightarrow> mset (take cnt ys) = mset (take cnt xs) \<and> drop cnt ys = drop cnt xs"

lemma rearranged_refl [simp]: "rearranged cnt xs xs"
  by (simp add: rearranged_def)

lemma rearranged_trans: "rearranged cnt xs ys \<Longrightarrow> rearranged cnt ys zs \<Longrightarrow> rearranged cnt xs zs"
  by (simp add: rearranged_def)

lemma rearranged_length: "rearranged cnt xs ys \<Longrightarrow> length ys = length xs"
  by (metis append_take_drop_id length_append mset_eq_length rearranged_def)

lemma rearranged_mset: "rearranged cnt xs ys \<Longrightarrow> mset ys = mset xs"
  unfolding rearranged_def by (metis append_take_drop_id mset_append)

lemma rearranged_swap:
  assumes "1 \<le> a" "a \<le> cnt" "1 \<le> b" "b \<le> cnt" "cnt \<le> length xs"
  shows "rearranged cnt xs (xs[a - 1 := at xs b, b - 1 := at xs a])"
proof -
  have "take cnt (xs[a - 1 := at xs b, b - 1 := at xs a]) = (take cnt xs)[a - 1 := take cnt xs ! (b - 1), b - 1 := take cnt xs ! (a - 1)]"
    using assms by (simp add: take_update_swap)
  then have "mset (take cnt (xs[a - 1 := at xs b, b - 1 := at xs a])) = mset (take cnt xs)"
    using assms by (simp only:) (intro mset_swap, simp_all)
  then show ?thesis
    using assms by (simp add: rearranged_def drop_update_cancel)
qed

lemma sift_step:
  assumes cmp: "strcmp_type compare" and i: "1 \<le> i" "lo \<le> i" and m: "m = 2 * i \<or> m = 2 * i + 1" "m \<le> cnt" "cnt \<le> length xs"
    and heap: "heap_but compare i lo cnt xs" and up: "compare (at xs i) (at xs m) \<le> 0"
    and max: "\<And>c. c div 2 = i \<Longrightarrow> c \<le> cnt \<Longrightarrow> compare (at xs c) (at xs m) \<le> 0"
  shows "heap_but compare m lo cnt (xs[i - 1 := at xs m, m - 1 := at xs i])" (is "heap_but _ _ _ _ ?ys")
  unfolding heap_but_def
proof (intro allI impI conjI)
  fix c assume c: "2 \<le> c \<and> c \<le> cnt"
  have mi: "m div 2 = i" "m \<noteq> i" "1 \<le> m" using m(1) i by auto
  have ys: "at ?ys j = (if j = m then at xs i else if j = i then at xs m else at xs j)" if "1 \<le> j" for j
    using at_swap [of i xs m j] i m mi that by simp
  have c2: "1 \<le> c div 2" "c div 2 < c" using c by auto
  show "compare (at ?ys c) (at ?ys (c div 2)) \<le> 0" if p: "lo \<le> c div 2 \<and> c div 2 \<noteq> m"
  proof (cases "c div 2 = i")
    case True
    with c c2 ys [of c] ys [of "c div 2"] mi up max [of c] show ?thesis by simp
  next
    case False
    then have "c \<noteq> m" using mi by auto
    show ?thesis
    proof (cases "c = i")
      case True
      then have "compare (at xs m) (at xs (i div 2)) \<le> 0"
        using heap c p m mi unfolding heap_but_def by (metis le_trans mult_2 trans_le_add1)
      with True p False c c2 ys [of c] ys [of "c div 2"] mi show ?thesis by simp
    next
      case ni: False
      have "compare (at xs c) (at xs (c div 2)) \<le> 0"
        using heap c p False unfolding heap_but_def by blast
      with ni False p \<open>c \<noteq> m\<close> c c2 ys [of c] ys [of "c div 2"] show ?thesis by simp
    qed
  qed
  show "compare (at ?ys c) (at ?ys (m div 2)) \<le> 0" if p: "c div 2 = m \<and> lo \<le> m div 2 \<and> 2 \<le> m"
  proof -
    have "compare (at xs c) (at xs m) \<le> 0"
      using heap c p i mi unfolding heap_but_def by (metis div_le_dividend le_trans)
    moreover have "c \<noteq> m" "c \<noteq> i" using p mi c2 m(1) by auto
    ultimately show ?thesis using ys [of c] ys [of i] mi c i by simp
  qed
qed

lemma heapify_spec:
  assumes "strcmp_type compare" and "cnt < 2 ^ 31" and "cnt \<le> length xs" and "1 \<le> i" and "i \<le> cnt" and "lo \<le> i"
    and "heap_but compare i lo cnt xs"
  shows "\<exists>ys. heapify compare i cnt xs = Some ys \<and> heap_from compare lo cnt ys \<and> rearranged cnt xs ys"
  using assms
proof (induction "cnt - i" arbitrary: i xs rule: less_induct)
  case less
  note cmp = \<open>strcmp_type compare\<close> and i = \<open>1 \<le> i\<close> \<open>i \<le> cnt\<close> and len = \<open>cnt \<le> length xs\<close>
  let ?l = "2 * i" and ?r = "2 * i + 1"
  define m1 where "m1 = (if ?l \<le> cnt \<and> compare (at xs ?l) (at xs i) > 0 then ?l else i)"
  define m where "m = (if ?r \<le> cnt \<and> compare (at xs ?r) (at xs m1) > 0 then ?r else m1)"
  have small: "?l mod 2 ^ 32 = ?l" "?r mod 2 ^ 32 = ?r" using i \<open>cnt < 2 ^ 31\<close> by simp_all
  have m1: "1 \<le> m1" "m1 \<le> cnt" using i by (auto simp: m1_def)
  have pick: "pick_max compare xs cnt ?l i = Some m1" "pick_max compare xs cnt ?r m1 = Some m"
    using pick_max_spec [of i xs cnt ?l compare] pick_max_spec [of m1 xs cnt ?r compare] i len m1
    by (simp_all add: m1_def m_def)
  have max1: "compare (at xs i) (at xs m1) \<le> 0" "?l \<le> cnt \<Longrightarrow> compare (at xs ?l) (at xs m1) \<le> 0"
    using strcmp_type_refl [OF cmp] strcmp_type_total [OF cmp, of "at xs ?l" "at xs i"] by (auto simp: m1_def not_less)
  have up: "compare (at xs m1) (at xs m) \<le> 0"
    using strcmp_type_refl [OF cmp] strcmp_type_total [OF cmp, of "at xs ?r" "at xs m1"] by (auto simp: m_def)
  have max_i: "compare (at xs i) (at xs m) \<le> 0" using strcmp_type_trans [OF cmp max1(1) up] .
  have max: "compare (at xs c) (at xs m) \<le> 0" if "c div 2 = i" "c \<le> cnt" for c
  proof -
    from that(1) consider "c = ?l" | "c = ?r" by linarith
    then show ?thesis
      using that(2) strcmp_type_trans [OF cmp max1(2) up] strcmp_type_refl [OF cmp] by cases (auto simp: m_def not_less)
  qed
  show ?case
  proof (cases "m = i")
    case True
    have "heap_from compare lo cnt xs"
      using less.prems(7) max True unfolding heap_from_def heap_but_def by metis
    then show ?thesis
      using True pick small by (subst heapify.simps) (auto simp: Let_def)
  next
    case False
    then have m: "m = ?l \<or> m = ?r" "m \<le> cnt" "i < m" using i by (auto simp: m_def m1_def split: if_splits)
    let ?ys = "xs[i - 1 := at xs m, m - 1 := at xs i]"
    have sw: "do_swap xs i m = Some ?ys" using do_swap_spec [of i xs m] i m len by simp
    have "heap_but compare m lo cnt ?ys"
      using sift_step [OF cmp i(1) less.prems(6) m(1,2) len less.prems(7) max_i max] .
    moreover have "cnt - m < cnt - i" "lo \<le> m" "1 \<le> m" "cnt \<le> length ?ys"
      using m i len less.prems(6) by auto
    ultimately obtain zs where zs: "heapify compare m cnt ?ys = Some zs" "heap_from compare lo cnt zs" "rearranged cnt ?ys zs"
      using less.hyps [OF _ cmp less.prems(2) _ _ m(2)] by blast
    have "rearranged cnt xs zs"
      using rearranged_trans [OF rearranged_swap zs(3)] i m len by simp
    then show ?thesis
      using False pick small sw zs by (subst heapify.simps) (auto simp: Let_def)
  qed
qed

section \<open>Heap sort\<close>

lemma build_heap_spec:
  assumes "strcmp_type compare" and "cnt < 2 ^ 31"
  shows "cnt \<le> length xs \<Longrightarrow> i \<le> cnt \<Longrightarrow> heap_from compare (i + 1) cnt xs \<Longrightarrow>
    \<exists>ys. build_heap compare i cnt xs = Some ys \<and> heap_from compare 1 cnt ys \<and> rearranged cnt xs ys"
proof (induction i arbitrary: xs)
  case (Suc i)
  have "heap_but compare (Suc i) (Suc i) cnt xs"
    unfolding heap_but_def
  proof (intro allI impI conjI)
    fix c assume c: "2 \<le> c \<and> c \<le> cnt"
    show "compare (at xs c) (at xs (c div 2)) \<le> 0" if "Suc i \<le> c div 2 \<and> c div 2 \<noteq> Suc i"
      using Suc.prems(3) c that by (simp add: heap_from_def)
  qed auto
  then obtain ys where ys: "heapify compare (Suc i) cnt xs = Some ys" "heap_from compare (Suc i) cnt ys" "rearranged cnt xs ys"
    using heapify_spec [OF assms Suc.prems(1), of "Suc i" "Suc i"] Suc.prems(2) by auto
  with Suc.IH [of ys] Suc.prems rearranged_length [OF ys(3)] show ?case
    by (auto intro: rearranged_trans)
qed auto

lemma heap_root_max:
  assumes "strcmp_type compare" and "heap_from compare 1 cnt xs"
  shows "1 \<le> c \<Longrightarrow> c \<le> cnt \<Longrightarrow> compare (at xs c) (at xs 1) \<le> 0"
proof (induction c rule: less_induct)
  case (less c)
  show ?case
  proof (cases "c = 1")
    case False
    then have "compare (at xs c) (at xs (c div 2)) \<le> 0" "compare (at xs (c div 2)) (at xs 1) \<le> 0"
      using less assms(2) by (auto simp: heap_from_def)
    then show ?thesis using strcmp_type_trans [OF assms(1)] by blast
  qed (simp add: strcmp_type_refl [OF assms(1)])
qed

definition sorted_part :: "('a \<Rightarrow> 'a \<Rightarrow> int) \<Rightarrow> nat \<Rightarrow> 'a list \<Rightarrow> bool" where
  "sorted_part compare n xs \<longleftrightarrow> sorted_wrt (\<lambda>a b. compare a b \<le> 0) (drop n xs) \<and>
     (\<forall>x \<in> set (take n xs). \<forall>y \<in> set (drop n xs). compare x y \<le> 0)"

lemma sorted_part_1: "sorted_part compare (Suc 0) xs \<Longrightarrow> sorted_wrt (\<lambda>a b. compare a b \<le> 0) xs"
  by (cases xs) (auto simp: sorted_part_def)

lemma extract_max:
  assumes cmp: "strcmp_type compare" and len: "Suc (Suc i) \<le> length xs" "length xs < 2 ^ 31"
    and heap: "heap_from compare 1 (Suc (Suc i)) xs" and sorted: "sorted_part compare (Suc (Suc i)) xs"
  shows "\<exists>ys zs. do_swap xs 1 (Suc (Suc i)) = Some ys \<and> heapify compare 1 (Suc i) ys = Some zs \<and>
    heap_from compare 1 (Suc i) zs \<and> sorted_part compare (Suc i) zs \<and> mset zs = mset xs \<and> length zs = length xs"
proof -
  let ?n = "Suc (Suc i)"
  let ?ys = "xs[1 - 1 := at xs ?n, ?n - 1 := at xs 1]"
  have sw: "do_swap xs 1 ?n = Some ?ys" using do_swap_spec [of 1 xs ?n] len(1) by simp
  have re: "rearranged ?n xs ?ys" using rearranged_swap [of 1 ?n ?n xs] len(1) by simp
  have ys: "at ?ys j = (if j = ?n then at xs 1 else if j = 1 then at xs ?n else at xs j)" if "1 \<le> j" for j
    using at_swap [of 1 xs ?n j] len(1) that by simp
  have "heap_but compare 1 1 (Suc i) ?ys"
    unfolding heap_but_def
  proof (intro allI impI conjI)
    fix c assume c: "2 \<le> c \<and> c \<le> Suc i" and p: "1 \<le> c div 2 \<and> c div 2 \<noteq> 1"
    have "at ?ys c = at xs c" "at ?ys (c div 2) = at xs (c div 2)" using ys [of c] ys [of "c div 2"] c p by auto
    moreover have "compare (at xs c) (at xs (c div 2)) \<le> 0" using heap c p unfolding heap_from_def by auto
    ultimately show "compare (at ?ys c) (at ?ys (c div 2)) \<le> 0" by simp
  qed auto
  then obtain zs where zs: "heapify compare 1 (Suc i) ?ys = Some zs" "heap_from compare 1 (Suc i) zs" "rearranged (Suc i) ?ys zs"
    using heapify_spec [of compare "Suc i" ?ys 1 1] cmp len by auto
  have "drop (Suc i) ?ys = at xs 1 # drop ?n xs"
    using len(1) ys [of ?n] Cons_nth_drop_Suc [of "Suc i" ?ys] by simp
  then have drop: "drop (Suc i) zs = at xs 1 # drop ?n xs" using zs(3) by (simp add: rearranged_def)
  have "set (take (Suc i) zs) = set (take (Suc i) ?ys)" using zs(3) by (metis mset_eq_setD rearranged_def)
  also have "\<dots> \<subseteq> set (take ?n ?ys)" by (rule set_take_subset_set_take) simp
  also have "\<dots> = set (take ?n xs)" using re by (metis mset_eq_setD rearranged_def)
  finally have sub: "set (take (Suc i) zs) \<subseteq> set (take ?n xs)" .
  have root: "compare x (at xs 1) \<le> 0" if x: "x \<in> set (take ?n xs)" for x
  proof -
    obtain j where "j < ?n" "x = xs ! j" using x len(1) by (auto simp: in_set_conv_nth)
    then show ?thesis using heap_root_max [OF cmp heap, of "Suc j"] by simp
  qed
  have first: "at xs 1 \<in> set (take ?n xs)" using len(1) by (cases xs) auto
  have "sorted_part compare (Suc i) zs"
    unfolding sorted_part_def drop
  proof (intro conjI ballI)
    show "sorted_wrt (\<lambda>a b. compare a b \<le> 0) (at xs 1 # drop ?n xs)"
      using sorted first by (auto simp: sorted_part_def)
    fix x y assume "x \<in> set (take (Suc i) zs)" "y \<in> set (at xs 1 # drop ?n xs)"
    with sub root sorted show "compare x y \<le> 0" unfolding sorted_part_def by (metis set_ConsD subsetD)
  qed
  moreover have "mset zs = mset xs"
    using rearranged_mset [OF zs(3)] rearranged_mset [OF re] by (rule trans)
  ultimately show ?thesis
    using sw zs mset_eq_length by blast
qed

lemma sort_heap_spec:
  assumes cmp: "strcmp_type compare"
  shows "n \<le> length xs \<Longrightarrow> length xs < 2 ^ 31 \<Longrightarrow> heap_from compare 1 n xs \<Longrightarrow> sorted_part compare n xs \<Longrightarrow>
    \<exists>ys. sort_heap compare n xs = Some ys \<and> sorted_wrt (\<lambda>a b. compare a b \<le> 0) ys \<and> mset ys = mset xs"
proof (induction n arbitrary: xs)
  case (Suc n)
  show ?case
  proof (cases n)
    case 0
    with Suc.prems sorted_part_1 show ?thesis by auto
  next
    case (Suc i)
    with extract_max [OF cmp, of i xs] Suc.prems obtain ys zs where
      "do_swap xs 1 (Suc (Suc i)) = Some ys" "heapify compare 1 (Suc i) ys = Some zs" "heap_from compare 1 (Suc i) zs"
      "sorted_part compare (Suc i) zs" "mset zs = mset xs" "length zs = length xs" by blast
    with Suc.IH [of zs] Suc.prems Suc show ?thesis by auto
  qed
qed (simp add: sorted_part_def)

text \<open>
  C29. \<^verbatim>\<open>sort\<close> (heap sort) returns for every array of less than \<open>2 ^ 31\<close> elements and every \<^verbatim>\<open>strcmp\<close>-type comparison, and
  leaves the elements it was given in ascending order.
\<close>

theorem sort_array_correct:
  assumes "strcmp_type compare" and "length xs < 2 ^ 31"
  shows "\<exists>ys. sort_array compare xs (length xs) = Some ys \<and> sorted_wrt (\<lambda>a b. compare a b \<le> 0) ys \<and> mset ys = mset xs"
proof -
  let ?n = "length xs"
  have "heap_from compare (?n div 2 + 1) ?n xs" by (auto simp: heap_from_def)
  then obtain ys where ys: "build_heap compare (?n div 2) ?n xs = Some ys" "heap_from compare 1 ?n ys" "rearranged ?n xs ys"
    using build_heap_spec [OF assms, of xs "?n div 2"] by auto
  have "mset ys = mset xs" "length ys = ?n" using ys(3) rearranged_length [OF ys(3)] by (auto simp: rearranged_def)
  with sort_heap_spec [OF assms(1), of ?n ys] ys assms(2) show ?thesis
    by (auto simp: sort_array_def sorted_part_def)
qed

theorem sort_array_correct_witness:
  "\<exists>ys. sort_array (\<lambda>a b. a - b) [3, 1, 2, 1] (length [3, 1, 2, 1 :: int]) = Some ys \<and>
     sorted_wrt (\<lambda>a b. a - b \<le> 0) ys \<and> mset ys = mset [3, 1, 2, 1]"
proof -
  have "strcmp_type (\<lambda>a b. a - b)" by (simp add: strcmp_type_def)
  then show ?thesis by (rule sort_array_correct) simp
qed

section \<open>Binary search\<close>

lemma compare_less_mono:
  assumes "strcmp_type compare" and "compare x y \<le> 0"
  shows "compare key x < 0 \<Longrightarrow> compare key y < 0" and "compare key y > 0 \<Longrightarrow> compare key x > 0"
  using assms unfolding strcmp_type_def by (meson not_le)+

lemma search_loop_spec:
  assumes "strcmp_type compare" and "sorted_wrt (\<lambda>a b. compare a b \<le> 0) xs"
  shows "lim \<le> length xs \<Longrightarrow> (\<And>j. j < first \<Longrightarrow> j < length xs \<Longrightarrow> compare key (xs ! j) > 0) \<Longrightarrow>
    (\<And>j. lim \<le> j \<Longrightarrow> j < length xs \<Longrightarrow> compare key (xs ! j) < 0) \<Longrightarrow>
    (\<exists>i < length xs. search_loop compare key xs first lim = Some (Some i) \<and> compare key (xs ! i) = 0) \<or>
    search_loop compare key xs first lim = Some None \<and> (\<forall>x \<in> set xs. compare key x \<noteq> 0)"
proof (induction "lim - first" arbitrary: first lim rule: less_induct)
  case less
  have le: "compare (xs ! i) (xs ! j) \<le> 0" if "i \<le> j" "j < length xs" for i j
    using assms(2) that strcmp_type_refl [OF assms(1)] by (cases "i = j") (auto simp: sorted_wrt_iff_nth_less)
  show ?case
  proof (cases "first < lim")
    case False
    then have "compare key (xs ! j) \<noteq> 0" if "j < length xs" for j
      using less.prems(2) [of j] less.prems(3) [of j] that by (cases "j < first") force+
    then show ?thesis
      using False by (subst (2) search_loop.simps) (auto simp: in_set_conv_nth)
  next
    case True
    let ?m = "first + (lim - first) div 2"
    have m: "first \<le> ?m" "?m < lim" "?m < length xs" using True less.prems(1) by auto
    consider (lt) "compare key (xs ! ?m) < 0" | (gt) "compare key (xs ! ?m) > 0" | (eq) "compare key (xs ! ?m) = 0" by linarith
    then show ?thesis
    proof cases
      case lt
      have "compare key (xs ! j) < 0" if "?m \<le> j" "j < length xs" for j
        using compare_less_mono(1) [OF assms(1) le [OF that] lt] .
      moreover have "search_loop compare key xs first lim = search_loop compare key xs first ?m"
        using True m lt by (subst search_loop.simps) (simp add: Let_def)
      ultimately show ?thesis
        using less.hyps [of ?m first] m True less.prems(2) by simp
    next
      case gt
      have "compare key (xs ! j) > 0" if "j < ?m + 1" "j < length xs" for j
        using compare_less_mono(2) [OF assms(1) le [of j ?m] gt] that m by simp
      moreover have "search_loop compare key xs first lim = search_loop compare key xs (?m + 1) lim"
        using True m gt by (subst search_loop.simps) (simp add: Let_def)
      ultimately show ?thesis
        using less.hyps [of lim "?m + 1"] m True less.prems(1,3) by simp
    next
      case eq
      then have "search_loop compare key xs first lim = Some (Some ?m)"
        using True m by (subst search_loop.simps) (simp add: Let_def)
      then show ?thesis using eq m by blast
    qed
  qed
qed

text \<open>
  C30. \<^verbatim>\<open>binary_search\<close> returns on every sorted array: the position of an element that compares equal to the key, or a null
  pointer, and then there is none.
\<close>

theorem binary_search_correct:
  assumes "strcmp_type compare" and "sorted_wrt (\<lambda>a b. compare a b \<le> 0) xs"
  shows "(\<exists>i < length xs. binary_search compare key xs (length xs) = Some (Some i) \<and> compare key (xs ! i) = 0) \<or>
     binary_search compare key xs (length xs) = Some None \<and> (\<forall>x \<in> set xs. compare key x \<noteq> 0)"
  using search_loop_spec [OF assms, of "length xs" 0 key] by (simp add: binary_search_def)

theorem binary_search_correct_witness:
  "\<exists>i < 3. binary_search (\<lambda>a b. a - b) 7 [2, 7, 9] 3 = Some (Some i) \<and> [2, 7, 9 :: int] ! i = 7"
proof -
  have "strcmp_type (\<lambda>a b :: int. a - b)" "sorted_wrt (\<lambda>a b. a - b \<le> 0) [2, 7, 9 :: int]"
    by (simp_all add: strcmp_type_def)
  from binary_search_correct [OF this, of 7] show ?thesis by (auto simp: numeral_3_eq_3)
qed

section \<open>Decimal numbers\<close>

text \<open>The usual decimal notation of a number.\<close>

fun decimal :: "nat \<Rightarrow> bytes" where
  "decimal n = (if n < 10 then [of_nat (48 + n)] else decimal (n div 10) @ [of_nat (48 + n mod 10)])"

declare decimal.simps [simp del]

lemma digit_char:
  assumes "d < 10"
  shows "uint (of_nat (48 + d) :: u8) = 48 + int d" and "isdigit (of_nat (48 + d))"
proof -
  have "d \<in> {0, 1, 2, 3, 4, 5, 6, 7, 8, 9}" using assms by auto
  then show "uint (of_nat (48 + d) :: u8) = 48 + int d" "isdigit (of_nat (48 + d))"
    by (elim insertE emptyE; simp add: isdigit_def)+
qed

lemma parse_decimal: "n \<le> 2 ^ 31 \<Longrightarrow> parse_digits 0 (decimal n @ s) = parse_digits (- int n) s"
proof (induction n arbitrary: s rule: less_induct)
  case (less n)
  show ?case
  proof (cases "n < 10")
    case True
    then show ?thesis using digit_char [of n] by (subst decimal.simps) (simp add: int32_def)
  next
    case False
    have "int n = int (n div 10) * 10 + int (n mod 10)" by presburger
    with False less.IH [of "n div 10"] less.prems digit_char [of "n mod 10"] show ?thesis
      by (subst decimal.simps) (simp add: int32_def)
  qed
qed

lemma skip_space_app: "\<forall>c \<in> set ws. isspace c \<Longrightarrow> \<not> isspace c \<Longrightarrow> skip_space (ws @ c # s) = Some (c # s)"
  by (induction ws) auto

lemma decimal_Cons: "\<exists>c r. decimal n = c # r \<and> isdigit c"
proof (induction n rule: less_induct)
  case (less n)
  show ?case using less.IH [of "n div 10"] digit_char(2) [of n] by (subst decimal.simps) force
qed

lemma isdigit_not: "isdigit c \<Longrightarrow> \<not> isspace c \<and> c \<noteq> 43 \<and> c \<noteq> 45"
  by (auto simp: isdigit_def isspace_def)

lemma not_isdigit_0: "\<not> isdigit 0"
  by (simp add: isdigit_def)

text \<open>
  C31. \<^verbatim>\<open>atoi\<close> reads back the decimal notation of every \<^verbatim>\<open>int\<close>, the smallest included, after white space and with or without
  a sign.
\<close>

theorem atoi_decimal:
  assumes "\<forall>c \<in> set ws. isspace c" and "n < 2 ^ 31"
  shows "atoi (ws @ decimal n @ 0 # s) = Some (int n) \<and> atoi (ws @ 43 # decimal n @ 0 # s) = Some (int n) \<and>
     atoi (ws @ 45 # decimal n @ 0 # s) = Some (- int n) \<and> atoi (ws @ 45 # decimal (2 ^ 31) @ 0 # s) = Some (- (2 ^ 31))"
proof -
  obtain c r where c: "decimal n = c # r" "isdigit c" using decimal_Cons by blast
  have d: "parse_digits 0 (decimal m @ 0 # s) = Some (- int m)" if "m \<le> 2 ^ 31" for m
    using parse_decimal [OF that, of "0 # s"] by (simp add: not_isdigit_0)
  have 1: "atoi (ws @ decimal n @ 0 # s) = Some (int n)"
    using d [of n] assms(2) isdigit_not [OF c(2)] skip_space_app [OF assms(1), of c "r @ 0 # s"] c(1)
    by (simp add: atoi_def deref_def int32_def)
  have 2: "atoi (ws @ 43 # decimal n @ 0 # s) = Some (int n)"
    using d [of n] assms(2) skip_space_app [OF assms(1), of 43 "decimal n @ 0 # s"]
    by (simp add: atoi_def deref_def int32_def isspace_def)
  have 3: "atoi (ws @ 45 # decimal m @ 0 # s) = Some (- int m)" if "m \<le> 2 ^ 31" for m
    using d [OF that] skip_space_app [OF assms(1), of 45 "decimal m @ 0 # s"]
    by (simp add: atoi_def deref_def isspace_def)
  show ?thesis using 1 2 3 [of n] 3 [of "2 ^ 31"] assms(2) by simp
qed

theorem atoi_decimal_witness: "atoi [32, 45, 49, 50, 0] = Some (- 12)"
proof -
  have "decimal 12 = [49, 50]" by (simp add: decimal.simps)
  then show ?thesis using atoi_decimal [of "[32]" 12 "[]"] by (simp add: isspace_def)
qed

end
