(* ===== verification/Cstring.thy ===== *)
theory Cstring
  imports Pintos_Prelude
begin

text \<open>
  The string functions of \<^verbatim>\<open>lib/string.c\<close> on byte-addressed memory. A loop that runs until it meets a null byte has
  no value (\<^const>\<open>None\<close>) where there is none. Pointers into strings are addresses; \<^verbatim>\<open>size_t\<close> values are natural
  numbers.
\<close>

section \<open>The code\<close>

type_synonym mem = "ptr \<Rightarrow> u8"

fun copy_up :: "nat \<Rightarrow> ptr \<Rightarrow> ptr \<Rightarrow> mem \<Rightarrow> mem" where
  "copy_up 0 dst src m = m"
| "copy_up (Suc n) dst src m = copy_up n (dst + 1) (src + 1) (m(dst := m src))"

definition memcpy :: "ptr \<Rightarrow> ptr \<Rightarrow> nat \<Rightarrow> mem \<Rightarrow> (ptr \<times> mem) option" where
  "memcpy dst src n m = do {
     ASSERT (dst \<noteq> NULL \<or> n = 0);
     ASSERT (src \<noteq> NULL \<or> n = 0);
     Some (dst, copy_up n dst src m)
   }"

fun copy_down :: "nat \<Rightarrow> ptr \<Rightarrow> ptr \<Rightarrow> mem \<Rightarrow> mem" where
  "copy_down 0 dst src m = m"
| "copy_down (Suc n) dst src m = copy_down n dst src (m(dst + n := m (src + n)))"

text \<open>The pointer that \<^verbatim>\<open>memmove\<close> returns has been moved by the loop.\<close>

definition memmove :: "ptr \<Rightarrow> ptr \<Rightarrow> nat \<Rightarrow> mem \<Rightarrow> (ptr \<times> mem) option" where
  "memmove dst src n m = do {
     ASSERT (dst \<noteq> NULL \<or> n = 0);
     ASSERT (src \<noteq> NULL \<or> n = 0);
     Some (if dst < src then (dst + n, copy_up n dst src m) else (dst, copy_down n dst src m))
   }"

fun memcmp_loop :: "nat \<Rightarrow> ptr \<Rightarrow> ptr \<Rightarrow> mem \<Rightarrow> int" where
  "memcmp_loop 0 a b m = 0"
| "memcmp_loop (Suc n) a b m =
     (if m a \<noteq> m b then (if m a > m b then 1 else -1) else memcmp_loop n (a + 1) (b + 1) m)"

definition memcmp :: "ptr \<Rightarrow> ptr \<Rightarrow> nat \<Rightarrow> mem \<Rightarrow> int option" where
  "memcmp a b n m = do {
     ASSERT (a \<noteq> NULL \<or> n = 0);
     ASSERT (b \<noteq> NULL \<or> n = 0);
     Some (memcmp_loop n a b m)
   }"

partial_function (option) strcmp_loop :: "ptr \<Rightarrow> ptr \<Rightarrow> mem \<Rightarrow> int option" where
  "strcmp_loop a b m =
     (if m a \<noteq> 0 \<and> m a = m b then strcmp_loop (a + 1) (b + 1) m
      else Some (if m a < m b then -1 else if m a > m b then 1 else 0))"

definition strcmp :: "ptr \<Rightarrow> ptr \<Rightarrow> mem \<Rightarrow> int option" where
  "strcmp a b m = do {
     ASSERT (a \<noteq> NULL);
     ASSERT (b \<noteq> NULL);
     strcmp_loop a b m
   }"

fun memchr_loop :: "nat \<Rightarrow> ptr \<Rightarrow> u8 \<Rightarrow> mem \<Rightarrow> ptr" where
  "memchr_loop 0 block ch m = NULL"
| "memchr_loop (Suc n) block ch m = (if m block = ch then block else memchr_loop n (block + 1) ch m)"

definition memchr :: "ptr \<Rightarrow> u8 \<Rightarrow> nat \<Rightarrow> mem \<Rightarrow> ptr option" where
  "memchr block ch n m = do {
     ASSERT (block \<noteq> NULL \<or> n = 0);
     Some (memchr_loop n block ch m)
   }"

partial_function (option) strchr_loop :: "ptr \<Rightarrow> u8 \<Rightarrow> mem \<Rightarrow> ptr option" where
  "strchr_loop s c m =
     (if m s = c then Some s else if m s = 0 then Some NULL else strchr_loop (s + 1) c m)"

definition strchr :: "ptr \<Rightarrow> u8 \<Rightarrow> mem \<Rightarrow> ptr option" where
  "strchr s c m = do { ASSERT (s \<noteq> NULL); strchr_loop s c m }"

partial_function (option) strcspn_loop :: "ptr \<Rightarrow> ptr \<Rightarrow> nat \<Rightarrow> mem \<Rightarrow> nat option" where
  "strcspn_loop s stop len m =
     (if m (s + len) \<noteq> 0 then do {
        p \<leftarrow> strchr stop (m (s + len)) m;
        if p \<noteq> NULL then Some len else strcspn_loop s stop (len + 1) m
      } else Some len)"

definition strcspn :: "ptr \<Rightarrow> ptr \<Rightarrow> mem \<Rightarrow> nat option" where
  "strcspn s stop m = strcspn_loop s stop 0 m"

partial_function (option) strpbrk :: "ptr \<Rightarrow> ptr \<Rightarrow> mem \<Rightarrow> ptr option" where
  "strpbrk s stop m =
     (if m s \<noteq> 0 then do {
        p \<leftarrow> strchr stop (m s) m;
        if p \<noteq> NULL then Some s else strpbrk (s + 1) stop m
      } else Some NULL)"

partial_function (option) strrchr_loop :: "ptr \<Rightarrow> u8 \<Rightarrow> ptr \<Rightarrow> mem \<Rightarrow> ptr option" where
  "strrchr_loop s c p m = (if m s \<noteq> 0 then strrchr_loop (s + 1) c (if m s = c then s else p) m else Some p)"

definition strrchr :: "ptr \<Rightarrow> u8 \<Rightarrow> mem \<Rightarrow> ptr option" where
  "strrchr s c m = strrchr_loop s c NULL m"

partial_function (option) strspn_loop :: "ptr \<Rightarrow> ptr \<Rightarrow> nat \<Rightarrow> mem \<Rightarrow> nat option" where
  "strspn_loop s skip len m =
     (if m (s + len) \<noteq> 0 then do {
        p \<leftarrow> strchr skip (m (s + len)) m;
        if p = NULL then Some len else strspn_loop s skip (len + 1) m
      } else Some len)"

definition strspn :: "ptr \<Rightarrow> ptr \<Rightarrow> mem \<Rightarrow> nat option" where
  "strspn s skip m = strspn_loop s skip 0 m"

partial_function (option) strlen_loop :: "ptr \<Rightarrow> mem \<Rightarrow> ptr option" where
  "strlen_loop p m = (if m p \<noteq> 0 then strlen_loop (p + 1) m else Some p)"

definition strlen :: "ptr \<Rightarrow> mem \<Rightarrow> nat option" where
  "strlen s m = do {
     ASSERT (s \<noteq> NULL);
     p \<leftarrow> strlen_loop s m;
     Some (p - s)
   }"

text \<open>\<open>k\<close> positions are left to try.\<close>

fun strstr_loop :: "nat \<Rightarrow> ptr \<Rightarrow> ptr \<Rightarrow> nat \<Rightarrow> mem \<Rightarrow> ptr option" where
  "strstr_loop 0 p needle len m = Some NULL"
| "strstr_loop (Suc k) p needle len m = do {
     c \<leftarrow> memcmp p needle len m;
     if c = 0 then Some p else strstr_loop k (p + 1) needle len m
   }"

definition strstr :: "ptr \<Rightarrow> ptr \<Rightarrow> mem \<Rightarrow> ptr option" where
  "strstr haystack needle m = do {
     haystack_len \<leftarrow> strlen haystack m;
     needle_len \<leftarrow> strlen needle m;
     if haystack_len \<ge> needle_len
     then strstr_loop (haystack_len - needle_len + 1) haystack needle needle_len m
     else Some NULL
   }"

text \<open>The two loops of \<^verbatim>\<open>strtok_r\<close>; the first says whether it met the end of the string.\<close>

partial_function (option) skip_delims :: "ptr \<Rightarrow> ptr \<Rightarrow> mem \<Rightarrow> (ptr \<times> bool) option" where
  "skip_delims s delimiters m = do {
     p \<leftarrow> strchr delimiters (m s) m;
     if p \<noteq> NULL then (if m s = 0 then Some (s, True) else skip_delims (s + 1) delimiters m)
     else Some (s, False)
   }"

partial_function (option) skip_token :: "ptr \<Rightarrow> ptr \<Rightarrow> mem \<Rightarrow> ptr option" where
  "skip_token s delimiters m = do {
     p \<leftarrow> strchr delimiters (m s) m;
     if p = NULL then skip_token (s + 1) delimiters m else Some s
   }"

text \<open>The result is the token, the new value of \<^verbatim>\<open>*save_ptr\<close> and the memory.\<close>

definition strtok_r :: "ptr \<Rightarrow> ptr \<Rightarrow> ptr \<Rightarrow> mem \<Rightarrow> (ptr \<times> ptr \<times> mem) option" where
  "strtok_r s delimiters save_ptr m = do {
     ASSERT (delimiters \<noteq> NULL);
     let s = (if s = NULL then save_ptr else s);
     ASSERT (s \<noteq> NULL);
     (s, end_of_string) \<leftarrow> skip_delims s delimiters m;
     if end_of_string then Some (NULL, s, m)
     else do {
       let token = s;
       s \<leftarrow> skip_token s delimiters m;
       Some (if m s \<noteq> 0 then (token, s + 1, m(s := 0)) else (token, s, m))
     }
   }"

fun set_up :: "nat \<Rightarrow> ptr \<Rightarrow> u8 \<Rightarrow> mem \<Rightarrow> mem" where
  "set_up 0 dst v m = m"
| "set_up (Suc n) dst v m = set_up n (dst + 1) v (m(dst := v))"

definition memset :: "ptr \<Rightarrow> u8 \<Rightarrow> nat \<Rightarrow> mem \<Rightarrow> (ptr \<times> mem) option" where
  "memset dst v n m = do {
     ASSERT (dst \<noteq> NULL \<or> n = 0);
     Some (dst, set_up n dst v m)
   }"

text \<open>\<open>k\<close> is \<^verbatim>\<open>maxlen - length\<close>.\<close>

fun strnlen_loop :: "nat \<Rightarrow> ptr \<Rightarrow> nat \<Rightarrow> mem \<Rightarrow> nat" where
  "strnlen_loop 0 s len m = len"
| "strnlen_loop (Suc k) s len m = (if m (s + len) \<noteq> 0 then strnlen_loop k s (len + 1) m else len)"

definition strnlen :: "ptr \<Rightarrow> nat \<Rightarrow> mem \<Rightarrow> nat" where
  "strnlen s maxlen m = strnlen_loop maxlen s 0 m"

definition strlcpy :: "ptr \<Rightarrow> ptr \<Rightarrow> nat \<Rightarrow> mem \<Rightarrow> (nat \<times> mem) option" where
  "strlcpy dst src n m = do {
     ASSERT (dst \<noteq> NULL);
     ASSERT (src \<noteq> NULL);
     src_len \<leftarrow> strlen src m;
     if n > 0 then do {
       let dst_len = (if src_len < n - 1 then src_len else n - 1);
       (_, m) \<leftarrow> memcpy dst src dst_len m;
       Some (src_len, m(dst + dst_len := 0))
     } else Some (src_len, m)
   }"

definition strlcat :: "ptr \<Rightarrow> ptr \<Rightarrow> nat \<Rightarrow> mem \<Rightarrow> (nat \<times> mem) option" where
  "strlcat dst src n m = do {
     ASSERT (dst \<noteq> NULL);
     ASSERT (src \<noteq> NULL);
     src_len \<leftarrow> strlen src m;
     dst_len \<leftarrow> strlen dst m;
     if n > 0 \<and> dst_len < n then do {
       let copy_cnt = (if src_len < n - dst_len - 1 then src_len else n - dst_len - 1);
       (_, m) \<leftarrow> memcpy (dst + dst_len) src copy_cnt m;
       Some (src_len + dst_len, m(dst + dst_len + copy_cnt := 0))
     } else Some (src_len + dst_len, m)
   }"

section \<open>Blocks of memory\<close>

lemma copy_up_other: "a < dst \<or> dst + n \<le> a \<Longrightarrow> copy_up n dst src m a = m a"
  by (induction n dst src m rule: copy_up.induct) auto

lemma copy_up_nth:
  "dst \<le> src \<or> src + n \<le> dst \<Longrightarrow> i < n \<Longrightarrow> copy_up n dst src m (dst + i) = m (src + i)"
proof (induction n dst src m arbitrary: i rule: copy_up.induct)
  case (2 n dst src m)
  show ?case
  proof (cases i)
    case 0
    then show ?thesis by (simp add: copy_up_other)
  next
    case (Suc j)
    have "copy_up n (dst + 1) (src + 1) (m(dst := m src)) (dst + 1 + j) = (m(dst := m src)) (src + 1 + j)"
      using "2.prems" Suc by (intro "2.IH") auto
    with Suc "2.prems" show ?thesis by auto
  qed
qed simp

lemma copy_down_other: "a < dst \<or> dst + n \<le> a \<Longrightarrow> copy_down n dst src m a = m a"
  by (induction n dst src m rule: copy_down.induct) auto

lemma copy_down_nth: "src \<le> dst \<Longrightarrow> i < n \<Longrightarrow> copy_down n dst src m (dst + i) = m (src + i)"
proof (induction n dst src m arbitrary: i rule: copy_down.induct)
  case (2 n dst src m)
  show ?case
  proof (cases "i = n")
    case True
    then show ?thesis by (simp add: copy_down_other)
  next
    case False
    have "copy_down n dst src (m(dst + n := m (src + n))) (dst + i) = (m(dst + n := m (src + n))) (src + i)"
      using "2.prems" False by (intro "2.IH") auto
    with False "2.prems" show ?thesis by auto
  qed
qed simp

text \<open>
  C32. \<^verbatim>\<open>memmove\<close> copies blocks that overlap: afterwards the destination holds what the source held before, and every other
  byte of memory is as it was. The pointer it returns is the destination only when that is not below the source; otherwise
  it is the end of the destination, where the comment says \<^verbatim>\<open>Returns DST\<close>.
\<close>

theorem memmove_correct:
  assumes "dst \<noteq> NULL" and "src \<noteq> NULL"
  shows "\<exists>m'. memmove dst src n m = Some (if dst < src then dst + n else dst, m') \<and> (\<forall>i < n. m' (dst + i) = m (src + i)) \<and>
     (\<forall>a. a < dst \<or> dst + n \<le> a \<longrightarrow> m' a = m a)"
  using assms copy_up_nth [of dst src n _ m] copy_down_nth [of src dst _ n m]
  by (simp add: memmove_def copy_up_other copy_down_other)

theorem memmove_correct_witness:
  "\<exists>m'. memmove 11 10 3 (\<lambda>a. of_nat a) = Some (11, m') \<and> m' 11 = 10 \<and> m' 12 = 11 \<and> m' 13 = 12 \<and> m' 14 = 14"
proof -
  from memmove_correct [of 11 10 3 "\<lambda>a. of_nat a"] obtain m' where
    m: "memmove 11 10 3 (\<lambda>a. of_nat a) = Some (11, m')" "\<forall>i < 3. m' (11 + i) = of_nat (10 + i)"
      "\<forall>a. a < 11 \<or> 11 + 3 \<le> a \<longrightarrow> m' a = of_nat a" by auto
  from m(2) [rule_format, of 0] m(2) [rule_format, of 1] m(2) [rule_format, of 2] m(3) [rule_format, of 14] m(1)
  show ?thesis by auto
qed

section \<open>Strings\<close>

definition str_at :: "mem \<Rightarrow> ptr \<Rightarrow> u8 list \<Rightarrow> bool" where
  "str_at m p cs \<longleftrightarrow> 0 \<notin> set cs \<and> (\<forall>i < length cs. m (p + i) = cs ! i) \<and> m (p + length cs) = 0"

lemma str_at_Nil [simp]: "str_at m p [] \<longleftrightarrow> m p = 0"
  by (simp add: str_at_def)

lemma str_at_Cons [simp]: "str_at m p (c # cs) \<longleftrightarrow> m p = c \<and> c \<noteq> 0 \<and> str_at m (p + 1) cs"
  by (auto simp: str_at_def less_Suc_eq_0_disj)

lemma str_at_cong: "(\<And>i. i \<le> length cs \<Longrightarrow> m' (p + i) = m (p + i)) \<Longrightarrow> str_at m' p cs = str_at m p cs"
  by (simp add: str_at_def)

lemma strlen_loop_eq: "str_at m p cs \<Longrightarrow> strlen_loop p m = Some (p + length cs)"
  by (induction cs arbitrary: p) (subst strlen_loop.simps; simp)+

lemma strlen_eq: "str_at m p cs \<Longrightarrow> p \<noteq> NULL \<Longrightarrow> strlen p m = Some (length cs)"
  by (simp add: strlen_def strlen_loop_eq)

text \<open>
  C33. \<^verbatim>\<open>strlcpy\<close> returns the length of the source, leaves in the buffer the source truncated to \<open>n - 1\<close> characters, always
  terminated, and never writes outside of the \<open>n\<close> bytes of the buffer.
\<close>

theorem strlcpy_bounds:
  assumes "str_at m src cs" and "src \<noteq> NULL" and "dst \<noteq> NULL" and "0 < n" and "dst + n \<le> src \<or> src + length cs < dst"
  shows "\<exists>m'. strlcpy dst src n m = Some (length cs, m') \<and> str_at m' dst (take (n - 1) cs) \<and>
     (\<forall>a. a < dst \<or> dst + n \<le> a \<longrightarrow> m' a = m a)"
proof -
  let ?k = "min (length cs) (n - 1)"
  let ?m = "(copy_up ?k dst src m)(dst + ?k := 0)"
  have "strlcpy dst src n m = Some (length cs, ?m)"
    using assms by (simp add: strlcpy_def strlen_eq memcpy_def min_def Let_def)
  moreover have "str_at ?m dst (take (n - 1) cs)"
    using assms copy_up_nth [of dst src ?k _ m] by (auto simp: str_at_def min_def dest: in_set_takeD)
  moreover have "?m a = m a" if "a < dst \<or> dst + n \<le> a" for a
    using that assms(4) by (auto simp: copy_up_other)
  ultimately show ?thesis by blast
qed

theorem strlcpy_bounds_witness:
  "\<exists>m'. strlcpy 20 10 3 ((\<lambda>_. 0)(10 := 65, 11 := 66, 12 := 67)) = Some (3, m') \<and> str_at m' 20 [65, 66]"
proof -
  have "str_at ((\<lambda>_. 0)(10 := 65, 11 := 66, 12 := 67)) 10 [65, 66, 67]" by simp
  from strlcpy_bounds [OF this, of 20 3] show ?thesis by auto
qed


section \<open>Tokens\<close>

lemma strchr_loop_eq:
  "str_at m s cs \<Longrightarrow> s \<noteq> NULL \<Longrightarrow> \<exists>p. strchr_loop s c m = Some p \<and> (p \<noteq> NULL \<longleftrightarrow> c \<in> insert 0 (set cs))"
  by (induction cs arbitrary: s) (subst strchr_loop.simps; fastforce)+

lemma strchr_eq:
  assumes "str_at m s cs" and "s \<noteq> NULL"
  obtains p where "strchr s c m = Some p" and "p \<noteq> NULL \<longleftrightarrow> c \<in> insert 0 (set cs)"
  using strchr_loop_eq [OF assms, of c] assms(2) by (auto simp: strchr_def)

lemma skip_delims_eq:
  "str_at m s cs \<Longrightarrow> str_at m d ds \<Longrightarrow> d \<noteq> NULL \<Longrightarrow>
   skip_delims s d m =
     Some (s + length (takeWhile (\<lambda>c. c \<in> set ds) cs), dropWhile (\<lambda>c. c \<in> set ds) cs = [])"
proof (induction cs arbitrary: s)
  case Nil
  then obtain p where "strchr d (m s) m = Some p" "p \<noteq> NULL" using strchr_eq [of m d ds "m s"] by auto
  with Nil show ?case by (subst skip_delims.simps) simp
next
  case (Cons c cs)
  then obtain p where "strchr d (m s) m = Some p" "p \<noteq> NULL \<longleftrightarrow> m s \<in> set ds"
    using strchr_eq [of m d ds "m s"] by auto
  with Cons show ?case by (subst skip_delims.simps) auto
qed

lemma skip_token_eq:
  "str_at m s cs \<Longrightarrow> str_at m d ds \<Longrightarrow> d \<noteq> NULL \<Longrightarrow>
   skip_token s d m = Some (s + length (takeWhile (\<lambda>c. c \<notin> set ds) cs))"
proof (induction cs arbitrary: s)
  case Nil
  then obtain p where "strchr d (m s) m = Some p" "p \<noteq> NULL" using strchr_eq [of m d ds "m s"] by auto
  with Nil show ?case by (subst skip_token.simps) simp
next
  case (Cons c cs)
  then obtain p where "strchr d (m s) m = Some p" "p \<noteq> NULL \<longleftrightarrow> m s \<in> set ds"
    using strchr_eq [of m d ds "m s"] by auto
  with Cons show ?case by (subst skip_token.simps) auto
qed

lemma str_at_append: "str_at m s (xs @ ys) \<longleftrightarrow> 0 \<notin> set xs \<and> (\<forall>i < length xs. m (s + i) = xs ! i) \<and> str_at m (s + length xs) ys"
proof (induction xs arbitrary: s)
  case (Cons x xs)
  then show ?case by (auto simp: less_Suc_eq_0_disj)
qed simp

lemma split_token:
  assumes "0 \<notin> set tok" and "\<forall>i < length tok. m (t + i) = tok ! i" and "str_at m (t + length tok) after"
  shows "if m (t + length tok) \<noteq> 0
     then str_at (m(t + length tok := 0)) t tok \<and> str_at (m(t + length tok := 0)) (t + length tok + 1) (drop 1 after)
     else str_at m t tok \<and> str_at m (t + length tok) (drop 1 after)"
proof (cases after)
  case (Cons c ys)
  moreover have "str_at (m(t + length tok := 0)) (t + length tok + 1) ys = str_at m (t + length tok + 1) ys"
    by (rule str_at_cong) simp
  ultimately show ?thesis using assms by (auto simp: str_at_def [of _ t])
qed (use assms in \<open>auto simp: str_at_def\<close>)

text \<open>
  C34. \<^verbatim>\<open>strtok_r\<close> skips the delimiters in front of the string; when nothing else is left it returns a null pointer and
  leaves memory alone; otherwise it returns a pointer to the longest run of characters that are no delimiters, now
  terminated, and the saved pointer is where the text after the delimiter starts, which is still intact.
\<close>

theorem strtok_r_correct:
  assumes "str_at m s cs" and "s \<noteq> NULL" and "str_at m d ds" and "d \<noteq> NULL"
    and rest: "rest = dropWhile (\<lambda>c. c \<in> set ds) cs"
  shows "if rest = [] then strtok_r s d save m = Some (NULL, s + length cs, m)
     else \<exists>token save' m'. strtok_r s d save m = Some (token, save', m') \<and> token \<noteq> NULL \<and>
        str_at m' token (takeWhile (\<lambda>c. c \<notin> set ds) rest) \<and>
        str_at m' save' (drop 1 (dropWhile (\<lambda>c. c \<notin> set ds) rest))"
proof -
  let ?tok = "takeWhile (\<lambda>c. c \<notin> set ds) rest"
  let ?after = "dropWhile (\<lambda>c. c \<notin> set ds) rest"
  define t where "t = s + length (takeWhile (\<lambda>c. c \<in> set ds) cs)"
  have cs: "cs = takeWhile (\<lambda>c. c \<in> set ds) cs @ rest" by (simp add: rest)
  have r: "str_at m t rest" using assms(1) cs str_at_append unfolding t_def by metis
  then have split: "0 \<notin> set ?tok" "\<forall>i < length ?tok. m (t + i) = ?tok ! i" "str_at m (t + length ?tok) ?after"
    using str_at_append [of m t ?tok ?after] by auto
  have run: "strtok_r s d save m = (if rest = [] then Some (NULL, t, m)
     else Some (if m (t + length ?tok) \<noteq> 0 then (t, t + length ?tok + 1, m(t + length ?tok := 0))
       else (t, t + length ?tok, m)))"
    using assms(2,4) skip_delims_eq [OF assms(1,3,4)] skip_token_eq [OF r assms(3,4)]
    by (simp add: strtok_r_def Let_def flip: rest t_def del: dropWhile_eq_Nil_conv)
  have "\<exists>token save' m'. strtok_r s d save m = Some (token, save', m') \<and> token \<noteq> NULL \<and> str_at m' token ?tok \<and>
      str_at m' save' (drop 1 ?after)" if "rest \<noteq> []"
    using run that split_token [OF split] assms(2) by (auto simp: t_def Let_def split: if_splits)
  moreover have "strtok_r s d save m = Some (NULL, s + length cs, m)" if "rest = []"
  proof -
    have "takeWhile (\<lambda>c. c \<in> set ds) cs = cs" using that cs by auto
    with run that show ?thesis by (simp add: t_def)
  qed
  ultimately show ?thesis by auto
qed

theorem strtok_r_correct_witness:
  "\<exists>token save m'. strtok_r 10 20 0 ((\<lambda>_. 0)(10 := 32, 11 := 108, 12 := 115, 13 := 32, 14 := 120, 20 := 32)) =
     Some (token, save, m') \<and> str_at m' token [108, 115] \<and> str_at m' save [120]"
proof -
  let ?m = "(\<lambda>_. 0)(10 := 32, 11 := 108, 12 := 115, 13 := 32, 14 := 120, 20 := 32) :: mem"
  have "str_at ?m 10 [32, 108, 115, 32, 120]" "str_at ?m 20 [32]" by simp_all
  from strtok_r_correct [OF this(1) _ this(2) _ refl, of 0] show ?thesis by auto
qed

end
