(* ===== verification/Palloc.thy ===== *)
theory Palloc
  imports Bitmap Cstring
begin

text \<open>
  The page allocator of \<^verbatim>\<open>threads/palloc.c\<close> and the address arithmetic of \<^verbatim>\<open>threads/vaddr.h\<close>. Addresses are natural
  numbers below \<open>2 ^ 32\<close>. The bitmap of a pool is kept as a value of its own. In \<^verbatim>\<open>palloc_get_multiple\<close> the
  search of the bitmap runs between the acquisition and the release of the lock of the pool, which the component on
  synchronisation is about; \<^verbatim>\<open>palloc_free_multiple\<close> takes no lock. Products with the size of a page are not reduced modulo
  \<open>2 ^ 32\<close>: they do not wrap for a pool inside the address space.
\<close>

unbundle bit_operations_syntax

section \<open>The code\<close>

definition PGBITS :: nat where "PGBITS = 12"
definition PGSIZE :: nat where "PGSIZE = 4096"
definition PGMASK :: nat where "PGMASK = 4095"
definition PHYS_BASE :: nat where "PHYS_BASE = 3221225472"

definition pg_ofs :: "ptr \<Rightarrow> nat" where
  "pg_ofs va = va AND PGMASK"

definition pg_no :: "ptr \<Rightarrow> nat" where
  "pg_no va = drop_bit PGBITS va"

definition pg_round_up :: "ptr \<Rightarrow> ptr" where
  "pg_round_up va = ((va + PGSIZE - 1) mod 2 ^ 32) AND (2 ^ 32 - 1 - PGMASK)"

definition pg_round_down :: "ptr \<Rightarrow> ptr" where
  "pg_round_down va = va AND (2 ^ 32 - 1 - PGMASK)"

definition is_user_vaddr :: "ptr \<Rightarrow> bool" where
  "is_user_vaddr vaddr \<longleftrightarrow> vaddr < PHYS_BASE"

definition is_kernel_vaddr :: "ptr \<Rightarrow> bool" where
  "is_kernel_vaddr vaddr \<longleftrightarrow> vaddr \<ge> PHYS_BASE"

definition ptov :: "nat \<Rightarrow> ptr option" where
  "ptov paddr = do { ASSERT (paddr < PHYS_BASE); Some ((paddr + PHYS_BASE) mod 2 ^ 32) }"

definition vtop :: "ptr \<Rightarrow> nat option" where
  "vtop vaddr = do { ASSERT (is_kernel_vaddr vaddr); Some (vaddr - PHYS_BASE) }"

definition DIV_ROUND_UP :: "nat \<Rightarrow> nat \<Rightarrow> nat" where
  "DIV_ROUND_UP x step = ((x + step - 1) mod 2 ^ 32) div step"

text \<open>A 32-bit word in memory, least significant byte first.\<close>

definition load32 :: "mem \<Rightarrow> ptr \<Rightarrow> u32" where
  "load32 m a = ucast (m a) OR push_bit 8 (ucast (m (a + 1))) OR push_bit 16 (ucast (m (a + 2))) OR
     push_bit 24 (ucast (m (a + 3)))"

definition store32 :: "ptr \<Rightarrow> u32 \<Rightarrow> mem \<Rightarrow> mem" where
  "store32 a w m = m(a := ucast w, a + 1 := ucast (drop_bit 8 w), a + 2 := ucast (drop_bit 16 w),
     a + 3 := ucast (drop_bit 24 w))"

definition PAL_ASSERT :: u32 where "PAL_ASSERT = 1"
definition PAL_ZERO :: u32 where "PAL_ZERO = 2"
definition PAL_USER :: u32 where "PAL_USER = 4"

record pool =
  used_map :: bitmap
  base :: ptr

record pages =
  kernel_pool :: pool
  user_pool :: pool
  ram :: mem

definition get_pool :: "bool \<Rightarrow> pages \<Rightarrow> pool" where
  "get_pool user s = (if user then user_pool s else kernel_pool s)"

definition put_used_map :: "bool \<Rightarrow> bitmap \<Rightarrow> pages \<Rightarrow> pages" where
  "put_used_map user b s =
     (if user then s\<lparr>user_pool := (user_pool s)\<lparr>used_map := b\<rparr>\<rparr>
      else s\<lparr>kernel_pool := (kernel_pool s)\<lparr>used_map := b\<rparr>\<rparr>)"

text \<open>The elements of the bitmap follow the 8 bytes of \<^verbatim>\<open>struct bitmap\<close>; they start out with what memory holds.\<close>

definition init_pool :: "mem \<Rightarrow> ptr \<Rightarrow> nat \<Rightarrow> pool option" where
  "init_pool m start page_cnt = do {
     let bm_pages = DIV_ROUND_UP (bitmap_buf_size page_cnt) PGSIZE;
     ASSERT (bm_pages \<le> page_cnt);
     let page_cnt = page_cnt - bm_pages;
     b \<leftarrow> bitmap_create_in_buf page_cnt (map (\<lambda>i. load32 m (start + 8 + 4 * i)) [0..<elem_cnt page_cnt]) (bm_pages * PGSIZE);
     Some \<lparr>used_map = b, base = start + bm_pages * PGSIZE\<rparr>
   }"

text \<open>The difference of two pointers is a signed 32-bit integer; its quotient is converted to \<^verbatim>\<open>size_t\<close>.\<close>

definition palloc_init :: "mem \<Rightarrow> nat \<Rightarrow> nat \<Rightarrow> pages option" where
  "palloc_init m init_ram_pages user_page_limit = do {
     free_start \<leftarrow> ptov (1024 * 1024);
     free_end \<leftarrow> ptov ((init_ram_pages * PGSIZE) mod 2 ^ 32);
     let diff = signed_take_bit 31 (int free_end - int free_start);
     let free_pages = nat ((sgn diff * (\<bar>diff\<bar> div int PGSIZE)) mod 2 ^ 32);
     let user_pages = free_pages div 2;
     let user_pages = (if user_pages > user_page_limit then user_page_limit else user_pages);
     let kernel_pages = free_pages - user_pages;
     k \<leftarrow> init_pool m free_start kernel_pages;
     u \<leftarrow> init_pool m (free_start + kernel_pages * PGSIZE) user_pages;
     Some \<lparr>kernel_pool = k, user_pool = u, ram = m\<rparr>
   }"

definition palloc_get_multiple :: "u32 \<Rightarrow> nat \<Rightarrow> pages \<Rightarrow> (ptr \<times> pages) option" where
  "palloc_get_multiple flags page_cnt s = do {
     let user = (flags AND PAL_USER \<noteq> 0);
     if page_cnt = 0 then Some (NULL, s)
     else do {
       (page_idx, b) \<leftarrow> bitmap_scan_and_flip (used_map (get_pool user s)) 0 page_cnt False;
       let s = put_used_map user b s;
       let pgs = (if page_idx \<noteq> BITMAP_ERROR then base (get_pool user s) + PGSIZE * page_idx else NULL);
       if pgs \<noteq> NULL then
         (if flags AND PAL_ZERO \<noteq> 0 then do {
            (_, m) \<leftarrow> memset pgs 0 (PGSIZE * page_cnt) (ram s);
            Some (pgs, s\<lparr>ram := m\<rparr>)
          } else Some (pgs, s))
       else do {
         ASSERT (flags AND PAL_ASSERT = 0);
         Some (NULL, s)
       }
     }
   }"

definition palloc_get_page :: "u32 \<Rightarrow> pages \<Rightarrow> (ptr \<times> pages) option" where
  "palloc_get_page flags s = palloc_get_multiple flags 1 s"

definition page_from_pool :: "pool \<Rightarrow> ptr \<Rightarrow> bool" where
  "page_from_pool p page =
     (let page_no = pg_no page; start_page = pg_no (base p); end_page = start_page + bitmap_size (used_map p)
      in page_no \<ge> start_page \<and> page_no < end_page)"

definition palloc_free_multiple :: "ptr \<Rightarrow> nat \<Rightarrow> pages \<Rightarrow> pages option" where
  "palloc_free_multiple pgs page_cnt s = do {
     ASSERT (pg_ofs pgs = 0);
     if pgs = NULL \<or> page_cnt = 0 then Some s
     else do {
       user \<leftarrow> (if page_from_pool (kernel_pool s) pgs then Some False
         else if page_from_pool (user_pool s) pgs then Some True else None);
       let page_idx = pg_no pgs - pg_no (base (get_pool user s));
       (_, m) \<leftarrow> memset pgs 0xcc (PGSIZE * page_cnt) (ram s);
       let s = s\<lparr>ram := m\<rparr>;
       used \<leftarrow> bitmap_all (used_map (get_pool user s)) page_idx page_cnt;
       ASSERT used;
       b \<leftarrow> bitmap_set_multiple (used_map (get_pool user s)) page_idx page_cnt False;
       Some (put_used_map user b s)
     }
   }"

definition palloc_free_page :: "ptr \<Rightarrow> pages \<Rightarrow> pages option" where
  "palloc_free_page page s = palloc_free_multiple page 1 s"

section \<open>Addresses and words\<close>

lemma pg_ofs_eq: "pg_ofs va = va mod PGSIZE"
  using take_bit_eq_mask [of 12 va] by (simp add: pg_ofs_def PGMASK_def PGSIZE_def take_bit_eq_mod mask_eq_exp_minus_1)

lemma pg_no_eq: "pg_no va = va div PGSIZE"
  by (simp add: pg_no_def PGBITS_def PGSIZE_def drop_bit_eq_div)

lemma load_store_same [simp]: "load32 (store32 a w m) a = w"
proof (rule bit_word_eqI)
  fix n assume "n < LENGTH(32)"
  then consider "n < 8" | "8 \<le> n" "n < 16" | "16 \<le> n" "n < 24" | "24 \<le> n" "n < 32" by fastforce
  then show "bit (load32 (store32 a w m) a) n = bit w n"
    by cases (auto simp: load32_def store32_def bit_simps)
qed

lemma load_store_other [simp]: "a + 4 \<le> b \<or> b + 4 \<le> a \<Longrightarrow> load32 (store32 a w m) b = load32 m b"
  by (auto simp: load32_def store32_def)

lemma set_up_nth: "i < n \<Longrightarrow> set_up n dst v m (dst + i) = v"
  and set_up_other: "a < dst \<or> dst + n \<le> a \<Longrightarrow> set_up n dst v m a = m a"
proof -
  have other: "a < dst \<or> dst + n \<le> a \<Longrightarrow> set_up n dst v m a = m a" for a dst v n m
    by (induction n dst v m rule: set_up.induct) auto
  then show "a < dst \<or> dst + n \<le> a \<Longrightarrow> set_up n dst v m a = m a" .
  show "i < n \<Longrightarrow> set_up n dst v m (dst + i) = v"
  proof (induction n dst v m arbitrary: i rule: set_up.induct)
    case (2 n dst v m)
    show ?case
    proof (cases i)
      case 0
      then show ?thesis using other [of dst "dst + 1" n] by simp
    next
      case (Suc j)
      with 2 show ?thesis by (metis Suc_less_eq add_Suc_shift set_up.simps(2) Suc_eq_plus1)
    qed
  qed simp
qed

section \<open>The pages in use\<close>

definition pool_ok :: "pool \<Rightarrow> bool" where
  "pool_ok p \<longleftrightarrow> bitmap_wf (used_map p) \<and> pg_ofs (base p) = 0 \<and> base p \<noteq> NULL"

definition pool_range :: "pool \<Rightarrow> nat set" where
  "pool_range p = {pg_no (base p)..<pg_no (base p) + bit_cnt (used_map p)}"

definition pool_used :: "pool \<Rightarrow> nat set" where
  "pool_used p = (+) (pg_no (base p)) ` used_bits (bits_of (used_map p))"

definition palloc_ok :: "pages \<Rightarrow> bool" where
  "palloc_ok s \<longleftrightarrow> pool_ok (kernel_pool s) \<and> pool_ok (user_pool s) \<and>
     pool_range (kernel_pool s) \<inter> pool_range (user_pool s) = {}"

definition allocated :: "pages \<Rightarrow> nat set" where
  "allocated s = pool_used (kernel_pool s) \<union> pool_used (user_pool s)"

definition page_set :: "ptr \<Rightarrow> nat \<Rightarrow> nat set" where
  "page_set p cnt = {pg_no p..<pg_no p + cnt}"

lemma pool_used_range: "pool_used p \<subseteq> pool_range p"
  by (auto simp: pool_used_def pool_range_def used_bits_def)

lemma base_eq: "pool_ok p \<Longrightarrow> base p = PGSIZE * pg_no (base p)"
  by (auto simp: pool_ok_def pg_ofs_eq pg_no_eq)

lemma page_addr [simp]:
  assumes "pool_ok p"
  shows "pg_no (base p + PGSIZE * i) = pg_no (base p) + i" and "pg_ofs (base p + PGSIZE * i) = 0"
    and "base p + PGSIZE * i \<noteq> NULL" and "0 < base p"
  using assms by (auto simp: pool_ok_def pg_ofs_eq pg_no_eq PGSIZE_def)

lemma image_add_range: "(+) (a::nat) ` {r..<r + cnt} = {a + r..<a + r + cnt}"
  using image_add_atLeastLessThan [of a r "r + cnt"] by (simp add: ac_simps)

lemma get_pool_ok: "palloc_ok s \<Longrightarrow> pool_ok (get_pool user s)"
  by (simp add: palloc_ok_def get_pool_def)

lemma get_pool_put [simp]: "get_pool user (put_used_map user b s) = (get_pool user s)\<lparr>used_map := b\<rparr>"
  and base_get_pool_put [simp]: "base (get_pool user' (put_used_map user b s)) = base (get_pool user' s)"
  and ram_put [simp]: "ram (put_used_map user b s) = ram s"
  by (simp_all add: get_pool_def put_used_map_def)

lemma put_used_map_same [simp]: "put_used_map user (used_map (get_pool user s)) s = s"
  by (simp add: get_pool_def put_used_map_def)

lemma palloc_ok_ram [simp]: "palloc_ok (s\<lparr>ram := m\<rparr>) = palloc_ok s" "allocated (s\<lparr>ram := m\<rparr>) = allocated s"
  "get_pool user (s\<lparr>ram := m\<rparr>) = get_pool user s"
  by (simp_all add: palloc_ok_def allocated_def get_pool_def)

lemma palloc_ok_put:
  "palloc_ok s \<Longrightarrow> bitmap_wf b \<Longrightarrow> bit_cnt b = bit_cnt (used_map (get_pool user s)) \<Longrightarrow> palloc_ok (put_used_map user b s)"
  by (auto simp: palloc_ok_def put_used_map_def get_pool_def pool_ok_def pool_range_def)

lemma allocated_put:
  "allocated (put_used_map user b s) =
     pool_used (get_pool (\<not> user) s) \<union> (+) (pg_no (base (get_pool user s))) ` used_bits (bits_of b)"
  by (auto simp: allocated_def put_used_map_def get_pool_def pool_used_def)

lemma allocated_pools: "allocated s = pool_used (get_pool (\<not> user) s) \<union> pool_used (get_pool user s)"
  by (auto simp: allocated_def get_pool_def)

lemma other_pool_disjoint:
  "palloc_ok s \<Longrightarrow> A \<subseteq> pool_range (get_pool user s) \<Longrightarrow> pool_used (get_pool (\<not> user) s) \<inter> A = {}"
  using pool_used_range [of "kernel_pool s"] pool_used_range [of "user_pool s"]
  by (auto simp: palloc_ok_def get_pool_def split: if_splits)

text \<open>What getting and freeing pages do to the set of pages in use.\<close>

lemma palloc_get_multiple_spec:
  assumes "palloc_ok s" and "0 < cnt" and "flags AND PAL_ASSERT = 0"
  shows "\<exists>p s'. palloc_get_multiple flags cnt s = Some (p, s') \<and> palloc_ok s' \<and>
    (if p = NULL then allocated s' = allocated s \<and> ram s' = ram s
     else pg_ofs p = 0 \<and> page_set p cnt \<inter> allocated s = {} \<and> allocated s' = allocated s \<union> page_set p cnt \<and>
       page_set p cnt \<subseteq> pool_range (get_pool (flags AND PAL_USER \<noteq> 0) s') \<and> page_set p cnt \<subseteq> pool_used (get_pool (flags AND PAL_USER \<noteq> 0) s') \<and>
       ram s' = (if flags AND PAL_ZERO \<noteq> 0 then set_up (PGSIZE * cnt) p 0 (ram s) else ram s))"
proof -
  define user where "user = (flags AND PAL_USER \<noteq> 0)"
  let ?p = "get_pool user s"
  have ok: "pool_ok ?p" using assms(1) by (rule get_pool_ok)
  then obtain r b where r: "bitmap_scan_and_flip (used_map ?p) 0 cnt False = Some (r, b)" "bitmap_wf b"
    "bit_cnt b = bit_cnt (used_map ?p)"
    "if r = BITMAP_ERROR then no_run (bits_of (used_map ?p)) 0 cnt False \<and> b = used_map ?p
     else r + cnt \<le> bit_cnt (used_map ?p) \<and> {r..<r + cnt} \<inter> used_bits (bits_of (used_map ?p)) = {} \<and>
       used_bits (bits_of b) = used_bits (bits_of (used_map ?p)) \<union> {r..<r + cnt}"
    using bm.allocate [of "used_map ?p" cnt] unfolding pool_ok_def length_bits_of by blast
  have ok': "palloc_ok (put_used_map user b s)" using assms(1) r(2,3) by (rule palloc_ok_put)
  show ?thesis
  proof (cases "r = BITMAP_ERROR")
    case True
    with r ok' assms show ?thesis
      by (simp add: palloc_get_multiple_def user_def [symmetric])
  next
    case False
    let ?a = "base ?p + PGSIZE * r"
    have set: "page_set ?a cnt = (+) (pg_no (base ?p)) ` {r..<r + cnt}"
      by (simp only: page_set_def image_add_range page_addr(1) [OF ok])
    have "page_set ?a cnt \<subseteq> pool_range ?p" using r(4) False ok by (auto simp: page_set_def pool_range_def)
    then have disj: "pool_used (get_pool (\<not> user) s) \<inter> page_set ?a cnt = {}"
      using assms(1) by (intro other_pool_disjoint)
    have new: "pool_used ?p \<inter> page_set ?a cnt = {}" using r(4) False unfolding pool_used_def set by auto
    have bits: "(+) (pg_no (base ?p)) ` used_bits (bits_of b) = pool_used ?p \<union> page_set ?a cnt"
      using r(4) False unfolding set pool_used_def by (simp only: if_False image_Un)
    have all: "allocated (put_used_map user b s) = allocated s \<union> page_set ?a cnt"
      by (simp only: allocated_put allocated_pools [where user = user and s = s] bits Un_assoc)
    have fresh: "page_set ?a cnt \<inter> allocated s = {}"
      using disj new unfolding allocated_pools [where user = user] by blast
    have in_used: "page_set ?a cnt \<subseteq> pool_used (?p\<lparr>used_map := b\<rparr>)"
      using bits by (simp add: pool_used_def)
    have run: "palloc_get_multiple flags cnt s = Some (?a, (put_used_map user b s)
        \<lparr>ram := if flags AND PAL_ZERO \<noteq> 0 then set_up (PGSIZE * cnt) ?a 0 (ram s) else ram s\<rparr>)"
      using r(1) False ok assms(2) by (simp add: palloc_get_multiple_def user_def [symmetric] memset_def Let_def)
    have "page_set ?a cnt \<subseteq> pool_range (?p\<lparr>used_map := b\<rparr>)"
      using \<open>page_set ?a cnt \<subseteq> pool_range ?p\<close> r(3) by (simp add: pool_range_def)
    with run ok' all fresh in_used page_addr(2) [OF ok, of r] page_addr(4) [OF ok] show ?thesis
      by (simp add: user_def [symmetric])
  qed
qed

lemma palloc_free_multiple_spec:
  assumes "palloc_ok s" and "0 < cnt" and "pg_ofs p = 0" and "p \<noteq> NULL"
    and "page_set p cnt \<subseteq> pool_used (get_pool user s)"
  shows "\<exists>s'. palloc_free_multiple p cnt s = Some s' \<and> palloc_ok s' \<and> allocated s' = allocated s - page_set p cnt \<and>
    ram s' = set_up (PGSIZE * cnt) p 0xcc (ram s)"
proof -
  let ?p = "get_pool user s"
  let ?idx = "pg_no p - pg_no (base ?p)"
  have ok: "pool_ok ?p" using assms(1) by (rule get_pool_ok)
  have "pg_no p \<in> pool_range ?p" using assms(2,5) pool_used_range [of ?p] by (force simp: page_set_def)
  then have idx: "pg_no p = pg_no (base ?p) + ?idx" and inp: "page_from_pool ?p p"
    by (auto simp: pool_range_def page_from_pool_def Let_def bitmap_size_def)
  have set: "page_set p cnt = (+) (pg_no (base ?p)) ` {?idx..<?idx + cnt}"
    unfolding page_set_def image_add_range using idx by simp
  have bits: "{?idx..<?idx + cnt} \<subseteq> used_bits (bits_of (used_map ?p))"
    using assms(5) unfolding set pool_used_def by (subst (asm) inj_image_subset_iff) auto
  have "?idx + cnt - 1 \<in> used_bits (bits_of (used_map ?p))" using bits assms(2) by auto
  then have "?idx + cnt \<le> bit_cnt (used_map ?p)" using assms(2) by (auto simp: used_bits_def)
  then obtain b where b: "bitmap_all (used_map ?p) ?idx cnt = Some True"
    "bitmap_set_multiple (used_map ?p) ?idx cnt False = Some b" "bitmap_wf b" "bit_cnt b = bit_cnt (used_map ?p)"
    "used_bits (bits_of b) = used_bits (bits_of (used_map ?p)) - {?idx..<?idx + cnt}"
    using bm.release [of "used_map ?p" ?idx cnt] ok bits by (auto simp: pool_ok_def)
  have which: "(if page_from_pool (kernel_pool s) p then Some False
         else if page_from_pool (user_pool s) p then Some True else None) = Some user"
    using inp assms(1) \<open>pg_no p \<in> pool_range ?p\<close>
    by (auto simp: get_pool_def palloc_ok_def page_from_pool_def pool_range_def Let_def bitmap_size_def split: if_splits)
  have disj: "pool_used (get_pool (\<not> user) s) \<inter> page_set p cnt = {}"
    using assms(1,5) pool_used_range [of ?p] by (intro other_pool_disjoint) auto
  have bits': "(+) (pg_no (base ?p)) ` used_bits (bits_of b) = pool_used ?p - page_set p cnt"
    unfolding b(5) set pool_used_def by (rule image_set_diff) simp
  have "allocated (put_used_map user b s) = allocated s - page_set p cnt"
    using disj bits' by (simp only: allocated_put allocated_pools [where user = user and s = s] Un_Diff) blast
  moreover have "palloc_ok (put_used_map user b s)" using assms(1) b(3,4) by (rule palloc_ok_put)
  moreover have "put_used_map user b (s\<lparr>ram := m\<rparr>) = (put_used_map user b s)\<lparr>ram := m\<rparr>" for m
    by (simp add: put_used_map_def)
  ultimately show ?thesis
    using assms(2,3,4) b(1,2) by (simp add: palloc_free_multiple_def which memset_def)
qed

text \<open>
  C35. The page allocator hands out free pages only: in a well-formed state a request returns, either with a null
  pointer and nothing changed, or with a page-aligned run of pages that were not in use before and are afterwards, zeroed
  when the caller asks for it; freeing them succeeds and makes exactly the pages from before be in use again.
\<close>

theorem palloc_get_free:
  assumes "palloc_ok s" and "0 < cnt" and "flags AND PAL_ASSERT = 0"
  shows "\<exists>p s'. palloc_get_multiple flags cnt s = Some (p, s') \<and> palloc_ok s' \<and>
    (if p = NULL then allocated s' = allocated s
     else pg_ofs p = 0 \<and> page_set p cnt \<inter> allocated s = {} \<and> allocated s' = allocated s \<union> page_set p cnt \<and>
       (flags AND PAL_ZERO \<noteq> 0 \<longrightarrow> (\<forall>i < PGSIZE * cnt. ram s' (p + i) = 0)) \<and>
       (\<exists>s''. palloc_free_multiple p cnt s' = Some s'' \<and> palloc_ok s'' \<and> allocated s'' = allocated s))"
proof -
  obtain p s' where p: "palloc_get_multiple flags cnt s = Some (p, s')" "palloc_ok s'"
    "if p = NULL then allocated s' = allocated s \<and> ram s' = ram s
     else pg_ofs p = 0 \<and> page_set p cnt \<inter> allocated s = {} \<and> allocated s' = allocated s \<union> page_set p cnt \<and>
       page_set p cnt \<subseteq> pool_range (get_pool (flags AND PAL_USER \<noteq> 0) s') \<and> page_set p cnt \<subseteq> pool_used (get_pool (flags AND PAL_USER \<noteq> 0) s') \<and>
       ram s' = (if flags AND PAL_ZERO \<noteq> 0 then set_up (PGSIZE * cnt) p 0 (ram s) else ram s)"
    using palloc_get_multiple_spec [OF assms] by blast
  show ?thesis
  proof (cases "p = NULL")
    case False
    with p have "\<exists>s''. palloc_free_multiple p cnt s' = Some s'' \<and> palloc_ok s'' \<and> allocated s'' = allocated s' - page_set p cnt"
      using palloc_free_multiple_spec [OF p(2) assms(2), of p "flags AND PAL_USER \<noteq> 0"] by auto
    moreover have "allocated s \<union> page_set p cnt - page_set p cnt = allocated s" using p(3) False by auto
    ultimately show ?thesis using p False by (auto simp: set_up_nth)
  qed (use p in auto)
qed

theorem palloc_get_free_witness:
  "\<exists>p s'. palloc_get_multiple PAL_ZERO 1
     \<lparr>kernel_pool = \<lparr>used_map = \<lparr>bit_cnt = 2, bits = [1]\<rparr>, base = 4096\<rparr>,
      user_pool = \<lparr>used_map = \<lparr>bit_cnt = 1, bits = [0]\<rparr>, base = 16384\<rparr>, ram = (\<lambda>_. 7)\<rparr> = Some (p, s') \<and> palloc_ok s'"
proof -
  let ?s = "\<lparr>kernel_pool = \<lparr>used_map = \<lparr>bit_cnt = 2, bits = [1]\<rparr>, base = 4096\<rparr>,
      user_pool = \<lparr>used_map = \<lparr>bit_cnt = 1, bits = [0]\<rparr>, base = 16384\<rparr>, ram = (\<lambda>_. 7)\<rparr>"
  have "palloc_ok ?s"
    by (auto simp: palloc_ok_def pool_ok_def pool_range_def bitmap_wf_def elem_cnt_def size_add_def pg_ofs_eq pg_no_eq PGSIZE_def)
  moreover have "PAL_ZERO AND PAL_ASSERT = 0" by (simp add: PAL_ZERO_def PAL_ASSERT_def)
  ultimately show ?thesis using palloc_get_free [of ?s 1 PAL_ZERO] by fastforce
qed

end
