(* ===== verification/Malloc.thy ===== *)
theory Malloc
  imports Palloc
begin

text \<open>
  The block allocator of \<^verbatim>\<open>threads/malloc.c\<close>, on top of the page allocator. The headers of the arenas are kept in a map
  from addresses (no entry: the magic number is not there, as after \<^verbatim>\<open>palloc_free_page\<close> has overwritten the page), the
  free lists as lists of block addresses. \<^verbatim>\<open>size_t\<close> arithmetic on sizes wraps at \<open>2 ^ 32\<close>. The descriptor locks are those
  of the synchronisation component.
\<close>

unbundle bit_operations_syntax

section \<open>The code\<close>

record desc =
  d_block_size :: nat
  blocks_per_arena :: nat
  free_list :: "ptr list"

text \<open>The owning descriptor is an index into \<^verbatim>\<open>descs\<close>, or none for a big block.\<close>

record arena =
  a_desc :: "nat option"
  free_cnt :: nat

definition sizeof_arena :: nat where "sizeof_arena = 12"

record heap =
  pgs :: pages
  descs :: "desc list"
  arenas :: "ptr \<Rightarrow> arena option"

partial_function (option) malloc_init_loop :: "nat \<Rightarrow> desc list \<Rightarrow> desc list option" where
  "malloc_init_loop bs ds =
     (if bs < PGSIZE div 2 then do {
        ASSERT (length ds + 1 \<le> 10);
        malloc_init_loop (bs * 2)
          (ds @ [\<lparr>d_block_size = bs, blocks_per_arena = (PGSIZE - sizeof_arena) div bs, free_list = []\<rparr>])
      } else Some ds)"

definition malloc_init :: "pages \<Rightarrow> heap option" where
  "malloc_init p = do {
     ds \<leftarrow> malloc_init_loop 16 [];
     Some \<lparr>pgs = p, descs = ds, arenas = (\<lambda>_. None)\<rparr>
   }"

fun desc_for :: "nat \<Rightarrow> desc list \<Rightarrow> nat" where
  "desc_for n [] = 0"
| "desc_for n (d # ds) = (if d_block_size d \<ge> n then 0 else Suc (desc_for n ds))"

definition get_arena :: "ptr \<Rightarrow> heap \<Rightarrow> arena option" where
  "get_arena a h = do { ASSERT (a \<noteq> NULL); arenas h a }"

definition block_to_arena :: "ptr \<Rightarrow> heap \<Rightarrow> ptr option" where
  "block_to_arena b h = do {
     let a = pg_round_down b;
     ar \<leftarrow> get_arena a h;
     ASSERT (case a_desc ar of
         Some d \<Rightarrow> ((pg_ofs b + 2 ^ 32 - sizeof_arena) mod 2 ^ 32) mod d_block_size (descs h ! d) = 0
       | None \<Rightarrow> pg_ofs b = sizeof_arena);
     Some a
   }"

definition arena_to_block :: "ptr \<Rightarrow> nat \<Rightarrow> heap \<Rightarrow> ptr option" where
  "arena_to_block a idx h = do {
     ar \<leftarrow> get_arena a h;
     d \<leftarrow> a_desc ar;
     ASSERT (idx < blocks_per_arena (descs h ! d));
     Some (a + sizeof_arena + idx * d_block_size (descs h ! d))
   }"

definition upd_free_list :: "nat \<Rightarrow> (ptr list \<Rightarrow> ptr list) \<Rightarrow> heap \<Rightarrow> heap" where
  "upd_free_list d f h = h\<lparr>descs := (descs h)[d := (descs h ! d)\<lparr>free_list := f (free_list (descs h ! d))\<rparr>]\<rparr>"

fun push_blocks :: "ptr \<Rightarrow> nat \<Rightarrow> nat list \<Rightarrow> heap \<Rightarrow> heap option" where
  "push_blocks a d [] h = Some h"
| "push_blocks a d (i # is) h = do {
     b \<leftarrow> arena_to_block a i h;
     push_blocks a d is (upd_free_list d (\<lambda>l. l @ [b]) h)
   }"

text \<open>A new arena for descriptor \<open>d\<close>; the flag says whether there was a page for it.\<close>

definition new_arena :: "nat \<Rightarrow> heap \<Rightarrow> (bool \<times> heap) option" where
  "new_arena d h = do {
     (a, p) \<leftarrow> palloc_get_page 0 (pgs h);
     let h = h\<lparr>pgs := p\<rparr>;
     if a = NULL then Some (False, h)
     else do {
       let cnt = blocks_per_arena (descs h ! d);
       h \<leftarrow> push_blocks a d [0..<cnt] (h\<lparr>arenas := (arenas h)(a \<mapsto> \<lparr>a_desc = Some d, free_cnt = cnt\<rparr>)\<rparr>);
       Some (True, h)
     }
   }"

definition malloc :: "nat \<Rightarrow> heap \<Rightarrow> (ptr \<times> heap) option" where
  "malloc n h = do {
     let d = desc_for n (descs h);
     if n = 0 then Some (NULL, h)
     else if d = length (descs h) then do {
       let page_cnt = DIV_ROUND_UP ((n + sizeof_arena) mod 2 ^ 32) PGSIZE;
       (a, p) \<leftarrow> palloc_get_multiple 0 page_cnt (pgs h);
       let h = h\<lparr>pgs := p\<rparr>;
       if a = NULL then Some (NULL, h)
       else Some (a + sizeof_arena, h\<lparr>arenas := (arenas h)(a \<mapsto> \<lparr>a_desc = None, free_cnt = page_cnt\<rparr>)\<rparr>)
     } else do {
       (ok, h) \<leftarrow> (if free_list (descs h ! d) = [] then new_arena d h else Some (True, h));
       if \<not> ok then Some (NULL, h)
       else (case free_list (descs h ! d) of
           [] \<Rightarrow> None
         | b # bs \<Rightarrow> do {
             let h = upd_free_list d (\<lambda>_. bs) h;
             a \<leftarrow> block_to_arena b h;
             ar \<leftarrow> arenas h a;
             Some (b, h\<lparr>arenas := (arenas h)(a \<mapsto> ar\<lparr>free_cnt := (free_cnt ar + 2 ^ 32 - 1) mod 2 ^ 32\<rparr>)\<rparr>)
           })
     }
   }"

definition fill :: "ptr \<Rightarrow> u8 \<Rightarrow> nat \<Rightarrow> heap \<Rightarrow> heap option" where
  "fill p v n h = do {
     (_, m) \<leftarrow> memset p v n (ram (pgs h));
     Some (h\<lparr>pgs := (pgs h)\<lparr>ram := m\<rparr>\<rparr>)
   }"

definition calloc :: "nat \<Rightarrow> nat \<Rightarrow> heap \<Rightarrow> (ptr \<times> heap) option" where
  "calloc a b h = do {
     let n = (a * b) mod 2 ^ 32;
     if n < a \<or> n < b then Some (NULL, h)
     else do {
       (p, h) \<leftarrow> malloc n h;
       h \<leftarrow> (if p \<noteq> NULL then fill p 0 n h else Some h);
       Some (p, h)
     }
   }"

definition block_size :: "ptr \<Rightarrow> heap \<Rightarrow> nat option" where
  "block_size b h = do {
     a \<leftarrow> block_to_arena b h;
     ar \<leftarrow> arenas h a;
     Some (case a_desc ar of Some d \<Rightarrow> d_block_size (descs h ! d) | None \<Rightarrow> PGSIZE * free_cnt ar - pg_ofs b)
   }"

text \<open>Freeing pages overwrites them, and the headers that were there.\<close>

definition free_pages :: "ptr \<Rightarrow> nat \<Rightarrow> heap \<Rightarrow> heap option" where
  "free_pages a cnt h = do {
     p \<leftarrow> palloc_free_multiple a cnt (pgs h);
     Some (h\<lparr>pgs := p, arenas := (\<lambda>x. if a \<le> x \<and> x < a + PGSIZE * cnt then None else arenas h x)\<rparr>)
   }"

fun remove_blocks :: "ptr \<Rightarrow> nat \<Rightarrow> nat list \<Rightarrow> heap \<Rightarrow> heap option" where
  "remove_blocks a d [] h = Some h"
| "remove_blocks a d (i # is) h = do {
     b \<leftarrow> arena_to_block a i h;
     ASSERT (b \<in> set (free_list (descs h ! d)));
     remove_blocks a d is (upd_free_list d (remove1 b) h)
   }"

definition free :: "ptr \<Rightarrow> heap \<Rightarrow> heap option" where
  "free p h =
     (if p = NULL then Some h
      else do {
        a \<leftarrow> block_to_arena p h;
        ar \<leftarrow> arenas h a;
        case a_desc ar of
          Some d \<Rightarrow> do {
            h \<leftarrow> fill p 0xcc (d_block_size (descs h ! d)) h;
            let h = upd_free_list d (\<lambda>l. p # l) h;
            let cnt = (free_cnt ar + 1) mod 2 ^ 32;
            let h = h\<lparr>arenas := (arenas h)(a \<mapsto> ar\<lparr>free_cnt := cnt\<rparr>)\<rparr>;
            if cnt \<ge> blocks_per_arena (descs h ! d) then do {
              ASSERT (cnt = blocks_per_arena (descs h ! d));
              h \<leftarrow> remove_blocks a d [0..<blocks_per_arena (descs h ! d)] h;
              free_pages a 1 h
            } else Some h
          }
        | None \<Rightarrow> free_pages a (free_cnt ar) h
      })"

definition realloc :: "ptr \<Rightarrow> nat \<Rightarrow> heap \<Rightarrow> (ptr \<times> heap) option" where
  "realloc old_block new_size h =
     (if new_size = 0 then do {
        h \<leftarrow> free old_block h;
        Some (NULL, h)
      } else do {
        (new_block, h) \<leftarrow> malloc new_size h;
        if old_block \<noteq> NULL \<and> new_block \<noteq> NULL then do {
          old_size \<leftarrow> block_size old_block h;
          let min_size = (if new_size < old_size then new_size else old_size);
          (_, m) \<leftarrow> memcpy new_block old_block min_size (ram (pgs h));
          h \<leftarrow> free old_block (h\<lparr>pgs := (pgs h)\<lparr>ram := m\<rparr>\<rparr>);
          Some (new_block, h)
        } else Some (new_block, h)
      })"

section \<open>Descriptors and addresses\<close>

lemma pg_round_down_eq: "va < 2 ^ 32 \<Longrightarrow> pg_round_down va = PGSIZE * pg_no va"
proof -
  assume va: "va < 2 ^ 32"
  have c: "(2 ^ 32 - 1 - PGMASK :: nat) = push_bit 12 (mask 20)" by (simp add: PGMASK_def push_bit_eq_mult mask_eq_exp_minus_1)
  have "va AND push_bit 12 (mask 20) = push_bit 12 (take_bit 20 (drop_bit 12 va))"
    by (rule bit_eqI) (auto simp: bit_simps)
  also have "take_bit 20 (drop_bit 12 va) = drop_bit 12 va"
    using va by (simp add: take_bit_nat_eq_self_iff drop_bit_eq_div div_less_iff_less_mult)
  finally show ?thesis unfolding pg_round_down_def c
    by (simp add: pg_no_def PGBITS_def PGSIZE_def push_bit_eq_mult)
qed

text \<open>Seven descriptors, for blocks of 16 to 1024 bytes.\<close>

lemma malloc_init_eq:
  "malloc_init p = Some \<lparr>pgs = p,
     descs = map (\<lambda>(bs, n). \<lparr>d_block_size = bs, blocks_per_arena = n, free_list = []\<rparr>)
       [(16, 255), (32, 127), (64, 63), (128, 31), (256, 15), (512, 7), (1024, 3)],
     arenas = (\<lambda>_. None)\<rparr>"
  by (simp add: malloc_init_def malloc_init_loop.simps PGSIZE_def sizeof_arena_def)

lemma desc_for_spec:
  "desc_for n ds \<le> length ds"
  "desc_for n ds < length ds \<Longrightarrow> n \<le> d_block_size (ds ! desc_for n ds)"
  "i < desc_for n ds \<Longrightarrow> d_block_size (ds ! i) < n"
  by (induction ds arbitrary: i) (auto simp: less_Suc_eq_0_disj split: if_splits)

lemma desc_for_none: "\<forall>d \<in> set ds. d_block_size d < n \<Longrightarrow> desc_for n ds = length ds"
  by (induction ds) auto

section \<open>Requests near the top of the address space\<close>

text \<open>
  C36. \<^verbatim>\<open>malloc\<close> breaks its promise of a block of at least the size asked for, or a null pointer, near the top of the
  address space: for a request of more than \<open>2 ^ 32 - 12\<close> bytes the sum with the size of the header wraps, \<^verbatim>\<open>malloc\<close> asks
  for a single page and returns a block of 4084 bytes.
\<close>

theorem malloc_wraps:
  assumes "2 ^ 32 - 12 < n" and "n < 2 ^ 32" and "\<forall>d \<in> set (descs h). d_block_size d < n"
    and "palloc_get_multiple 0 1 (pgs h) = Some (a, p)" and "a \<noteq> NULL" and "pg_ofs a = 0" and "a < 2 ^ 32"
  shows "\<exists>h'. malloc n h = Some (a + 12, h') \<and> block_size (a + 12) h' = Some 4084"
proof -
  have "(n + 12) mod 2 ^ 32 = n + 12 - 2 ^ 32" using assms(1,2) by (simp add: mod_if)
  then have "DIV_ROUND_UP ((n + sizeof_arena) mod 2 ^ 32) PGSIZE = 1"
    using assms(1,2) by (simp add: DIV_ROUND_UP_def sizeof_arena_def PGSIZE_def)
  then have "malloc n h = Some (a + 12, h\<lparr>pgs := p, arenas := (arenas h)(a \<mapsto> \<lparr>a_desc = None, free_cnt = 1\<rparr>)\<rparr>)"
    using assms by (simp add: malloc_def desc_for_none Let_def sizeof_arena_def)
  moreover have "pg_round_down (a + 12) = a"
  proof -
    obtain q where q: "a = 4096 * q" using assms(6) by (auto simp: pg_ofs_eq PGSIZE_def)
    with assms(7) have "q < 2 ^ 20" by simp
    with q have "a + 12 < 2 ^ 32" by simp
    moreover have "(a + 12) div 4096 = q" using q by simp
    ultimately show ?thesis using q by (simp only: pg_round_down_eq pg_no_eq PGSIZE_def)
  qed
  moreover have "pg_ofs (a + 12) = 12" using assms(6) by (simp add: pg_ofs_eq PGSIZE_def mod_add_eq [symmetric, of a])
  ultimately show ?thesis using assms(5)
    by (simp add: block_size_def block_to_arena_def get_arena_def sizeof_arena_def PGSIZE_def)
qed

theorem malloc_wraps_witness:
  "\<exists>h h'. malloc_init \<lparr>kernel_pool = \<lparr>used_map = \<lparr>bit_cnt = 1, bits = [0]\<rparr>, base = 4096\<rparr>,
      user_pool = \<lparr>used_map = \<lparr>bit_cnt = 1, bits = [0]\<rparr>, base = 16384\<rparr>, ram = (\<lambda>_. 0)\<rparr> = Some h \<and>
     malloc (2 ^ 32 - 1) h = Some (4108, h') \<and> block_size 4108 h' = Some 4084"
proof -
  let ?p = "\<lparr>kernel_pool = \<lparr>used_map = \<lparr>bit_cnt = 1, bits = [0]\<rparr>, base = 4096\<rparr>,
      user_pool = \<lparr>used_map = \<lparr>bit_cnt = 1, bits = [0]\<rparr>, base = 16384\<rparr>, ram = (\<lambda>_. 0)\<rparr>"
  obtain h where h: "malloc_init ?p = Some h" "pgs h = ?p" "\<forall>d \<in> set (descs h). d_block_size d < 2 ^ 32 - 1"
    using malloc_init_eq [of ?p] by auto
  have "bitmap_scan_and_flip \<lparr>bit_cnt = 1, bits = [0]\<rparr> 0 1 False = Some (0, \<lparr>bit_cnt = 1, bits = [1]\<rparr>)"
    by (simp add: bitmap_scan_and_flip_def bitmap_scan_def scan_loop.simps bitmap_contains_def contains_loop.simps
        bitmap_test_def bitmap_set_multiple_def set_multiple_loop.simps bitmap_set_def bitmap_mark_def update_elem_def
        size_add_def elem_idx_def bit_mask_def BITMAP_ERROR_def bitmap_size_def)
  then obtain p where "palloc_get_multiple 0 1 (pgs h) = Some (4096, p)"
    unfolding h(2) by (simp add: palloc_get_multiple_def get_pool_def put_used_map_def BITMAP_ERROR_def)
  from malloc_wraps [OF _ _ h(3) this] h(1) show ?thesis by (simp add: pg_ofs_eq PGSIZE_def)
qed

end
