(* ===== verification/Pagedir.thy ===== *)
theory Pagedir
  imports Palloc
begin

text \<open>
  Page directories: \<^verbatim>\<open>threads/pte.h\<close> and \<^verbatim>\<open>userprog/pagedir.c\<close>. Page directories and page tables are words in the memory
  of the page allocator, and the page directory base register is part of the state.
\<close>

unbundle bit_operations_syntax

section \<open>The code\<close>

definition PTMASK :: nat where "PTMASK = 4190208"
definition PTE_ADDR :: u32 where "PTE_ADDR = 0xfffff000"
definition PTE_P :: u32 where "PTE_P = 1"
definition PTE_W :: u32 where "PTE_W = 2"
definition PTE_U :: u32 where "PTE_U = 4"
definition PTE_A :: u32 where "PTE_A = 0x20"
definition PTE_D :: u32 where "PTE_D = 0x40"

definition pt_no :: "ptr \<Rightarrow> nat" where
  "pt_no va = drop_bit 12 (va AND PTMASK)"

definition pd_no :: "ptr \<Rightarrow> nat" where
  "pd_no va = drop_bit 22 va"

definition pde_create :: "ptr \<Rightarrow> u32 option" where
  "pde_create pt = do {
     ASSERT (pg_ofs pt = 0);
     p \<leftarrow> vtop pt;
     Some (of_nat p OR PTE_U OR PTE_P OR PTE_W)
   }"

definition pde_get_pt :: "u32 \<Rightarrow> ptr option" where
  "pde_get_pt pde = do {
     ASSERT (pde AND PTE_P \<noteq> 0);
     ptov (unat (pde AND PTE_ADDR))
   }"

definition pte_create_kernel :: "ptr \<Rightarrow> bool \<Rightarrow> u32 option" where
  "pte_create_kernel page writable = do {
     ASSERT (pg_ofs page = 0);
     p \<leftarrow> vtop page;
     Some (of_nat p OR PTE_P OR (if writable then PTE_W else 0))
   }"

definition pte_create_user :: "ptr \<Rightarrow> bool \<Rightarrow> u32 option" where
  "pte_create_user page writable = do {
     e \<leftarrow> pte_create_kernel page writable;
     Some (e OR PTE_U)
   }"

definition pte_get_page :: "u32 \<Rightarrow> ptr option" where
  "pte_get_page pte = ptov (unat (pte AND PTE_ADDR))"

record mmu =
  phys :: pages
  cr3 :: nat
  init_page_dir :: ptr
  init_ram_pages :: nat

definition peek :: "ptr \<Rightarrow> mmu \<Rightarrow> u32" where
  "peek a s = load32 (ram (phys s)) a"

definition poke :: "ptr \<Rightarrow> u32 \<Rightarrow> mmu \<Rightarrow> mmu" where
  "poke a w s = s\<lparr>phys := (phys s)\<lparr>ram := store32 a w (ram (phys s))\<rparr>\<rparr>"

definition pagedir_create :: "mmu \<Rightarrow> (ptr \<times> mmu) option" where
  "pagedir_create s = do {
     (pd, p) \<leftarrow> palloc_get_page 0 (phys s);
     if pd \<noteq> NULL then do {
       (_, m) \<leftarrow> memcpy pd (init_page_dir s) PGSIZE (ram p);
       Some (pd, s\<lparr>phys := p\<lparr>ram := m\<rparr>\<rparr>)
     } else Some (pd, s\<lparr>phys := p\<rparr>)
   }"

definition free_page :: "ptr \<Rightarrow> mmu \<Rightarrow> mmu option" where
  "free_page a s = do { p \<leftarrow> palloc_free_page a (phys s); Some (s\<lparr>phys := p\<rparr>) }"

fun destroy_pt :: "ptr list \<Rightarrow> mmu \<Rightarrow> mmu option" where
  "destroy_pt [] s = Some s"
| "destroy_pt (pte # ptes) s =
     (if peek pte s AND PTE_P \<noteq> 0 then do {
        page \<leftarrow> pte_get_page (peek pte s);
        s \<leftarrow> free_page page s;
        destroy_pt ptes s
      } else destroy_pt ptes s)"

fun destroy_pd :: "ptr list \<Rightarrow> mmu \<Rightarrow> mmu option" where
  "destroy_pd [] s = Some s"
| "destroy_pd (pde # pdes) s =
     (if peek pde s AND PTE_P \<noteq> 0 then do {
        pt \<leftarrow> pde_get_pt (peek pde s);
        s \<leftarrow> destroy_pt (map (\<lambda>i. pt + 4 * i) [0..<PGSIZE div 4]) s;
        s \<leftarrow> free_page pt s;
        destroy_pd pdes s
      } else destroy_pd pdes s)"

definition pagedir_destroy :: "ptr \<Rightarrow> mmu \<Rightarrow> mmu option" where
  "pagedir_destroy pd s =
     (if pd = NULL then Some s
      else do {
        ASSERT (pd \<noteq> init_page_dir s);
        s \<leftarrow> destroy_pd (map (\<lambda>i. pd + 4 * i) [0..<pd_no PHYS_BASE]) s;
        free_page pd s
      })"

definition lookup_page :: "ptr \<Rightarrow> ptr \<Rightarrow> bool \<Rightarrow> mmu \<Rightarrow> (ptr \<times> mmu) option" where
  "lookup_page pd vaddr create s = do {
     ASSERT (pd \<noteq> NULL);
     ASSERT (\<not> create \<or> is_user_vaddr vaddr);
     let pde = pd + 4 * pd_no vaddr;
     (found, s) \<leftarrow>
       (if peek pde s = 0 then
          (if create then do {
             (pt, p) \<leftarrow> palloc_get_page PAL_ZERO (phys s);
             let s = s\<lparr>phys := p\<rparr>;
             if pt = NULL then Some (False, s)
             else do {
               e \<leftarrow> pde_create pt;
               Some (True, poke pde e s)
             }
           } else Some (False, s))
        else Some (True, s));
     if \<not> found then Some (NULL, s)
     else do {
       pt \<leftarrow> pde_get_pt (peek pde s);
       Some (pt + 4 * pt_no vaddr, s)
     }
   }"

definition pagedir_set_page :: "ptr \<Rightarrow> ptr \<Rightarrow> ptr \<Rightarrow> bool \<Rightarrow> mmu \<Rightarrow> (bool \<times> mmu) option" where
  "pagedir_set_page pd upage kpage writable s = do {
     ASSERT (pg_ofs upage = 0);
     ASSERT (pg_ofs kpage = 0);
     ASSERT (is_user_vaddr upage);
     p \<leftarrow> vtop kpage;
     ASSERT (drop_bit 12 p < init_ram_pages s);
     ASSERT (pd \<noteq> init_page_dir s);
     (pte, s) \<leftarrow> lookup_page pd upage True s;
     if pte \<noteq> NULL then do {
       ASSERT (peek pte s AND PTE_P = 0);
       e \<leftarrow> pte_create_user kpage writable;
       Some (True, poke pte e s)
     } else Some (False, s)
   }"

definition pagedir_get_page :: "ptr \<Rightarrow> ptr \<Rightarrow> mmu \<Rightarrow> ptr option" where
  "pagedir_get_page pd uaddr s = do {
     ASSERT (is_user_vaddr uaddr);
     (pte, s) \<leftarrow> lookup_page pd uaddr False s;
     if pte \<noteq> NULL \<and> peek pte s AND PTE_P \<noteq> 0 then do {
       page \<leftarrow> pte_get_page (peek pte s);
       Some (page + pg_ofs uaddr)
     } else Some NULL
   }"

definition active_pd :: "mmu \<Rightarrow> ptr option" where
  "active_pd s = ptov (cr3 s)"

definition pagedir_activate :: "ptr \<Rightarrow> mmu \<Rightarrow> mmu option" where
  "pagedir_activate pd s = do {
     let pd = (if pd = NULL then init_page_dir s else pd);
     p \<leftarrow> vtop pd;
     Some (s\<lparr>cr3 := p\<rparr>)
   }"

definition invalidate_pagedir :: "ptr \<Rightarrow> mmu \<Rightarrow> mmu option" where
  "invalidate_pagedir pd s = do {
     a \<leftarrow> active_pd s;
     if a = pd then pagedir_activate pd s else Some s
   }"

definition pagedir_clear_page :: "ptr \<Rightarrow> ptr \<Rightarrow> mmu \<Rightarrow> mmu option" where
  "pagedir_clear_page pd upage s = do {
     ASSERT (pg_ofs upage = 0);
     ASSERT (is_user_vaddr upage);
     (pte, s) \<leftarrow> lookup_page pd upage False s;
     if pte \<noteq> NULL \<and> peek pte s AND PTE_P \<noteq> 0
     then invalidate_pagedir pd (poke pte (peek pte s AND NOT PTE_P) s)
     else Some s
   }"

definition pagedir_is_dirty :: "ptr \<Rightarrow> ptr \<Rightarrow> mmu \<Rightarrow> bool option" where
  "pagedir_is_dirty pd vpage s = do {
     (pte, s) \<leftarrow> lookup_page pd vpage False s;
     Some (pte \<noteq> NULL \<and> peek pte s AND PTE_D \<noteq> 0)
   }"

definition pagedir_set_dirty :: "ptr \<Rightarrow> ptr \<Rightarrow> bool \<Rightarrow> mmu \<Rightarrow> mmu option" where
  "pagedir_set_dirty pd vpage dirty s = do {
     (pte, s) \<leftarrow> lookup_page pd vpage False s;
     if pte \<noteq> NULL then
       (if dirty then Some (poke pte (peek pte s OR PTE_D) s)
        else invalidate_pagedir pd (poke pte (peek pte s AND NOT PTE_D) s))
     else Some s
   }"

definition pagedir_is_accessed :: "ptr \<Rightarrow> ptr \<Rightarrow> mmu \<Rightarrow> bool option" where
  "pagedir_is_accessed pd vpage s = do {
     (pte, s) \<leftarrow> lookup_page pd vpage False s;
     Some (pte \<noteq> NULL \<and> peek pte s AND PTE_A \<noteq> 0)
   }"

definition pagedir_set_accessed :: "ptr \<Rightarrow> ptr \<Rightarrow> bool \<Rightarrow> mmu \<Rightarrow> mmu option" where
  "pagedir_set_accessed pd vpage accessed s = do {
     (pte, s) \<leftarrow> lookup_page pd vpage False s;
     if pte \<noteq> NULL then
       (if accessed then Some (poke pte (peek pte s OR PTE_A) s)
        else invalidate_pagedir pd (poke pte (peek pte s AND NOT PTE_A) s))
     else Some s
   }"

section \<open>Entries\<close>

lemma pt_no_eq: "pt_no va = (va div 2 ^ 12) mod 2 ^ 10"
proof -
  have m: "PTMASK = push_bit 12 (mask 10)" by (simp add: PTMASK_def push_bit_eq_mult mask_eq_exp_minus_1)
  have "pt_no va = take_bit 10 (drop_bit 12 va)"
    unfolding pt_no_def m by (rule bit_eqI) (auto simp: bit_simps)
  then show ?thesis by (simp add: take_bit_eq_mod drop_bit_eq_div)
qed

lemma pd_no_eq: "pd_no va = va div 2 ^ 22"
  by (simp add: pd_no_def drop_bit_eq_div)

text \<open>The page number is determined by the two indices.\<close>

lemma pg_no_indices: "pg_no va = pd_no va * 2 ^ 10 + pt_no va"
  by (simp add: pg_no_eq PGSIZE_def pt_no_eq pd_no_eq div_mult2_eq [of va "2^12" "2^10", simplified])

lemma digits_1024: "(b::nat) < 1024 \<Longrightarrow> d < 1024 \<Longrightarrow> a * 1024 + b = c * 1024 + d \<longleftrightarrow> a = c \<and> b = d"
proof (intro iffI conjI)
  assume *: "b < 1024" "d < 1024" "a * 1024 + b = c * 1024 + d"
  from *(3) have "(a * 1024 + b) div 1024 = (c * 1024 + d) div 1024" "(a * 1024 + b) mod 1024 = (c * 1024 + d) mod 1024"
    by (simp_all only:)
  with *(1,2) show "a = c" "b = d" by (simp_all add: div_add1_eq)
qed simp

lemma low_bits_of_page:
  assumes "p mod PGSIZE = 0" and "n < 12"
  shows "\<not> bit (of_nat p :: u32) n"
proof -
  have "take_bit 12 p = 0" using assms(1) by (simp add: take_bit_eq_mod PGSIZE_def)
  then have "\<not> bit p n" using assms(2) by (metis bit_take_bit_iff bit_0_eq bot_fun_def bot_bool_def)
  then show ?thesis by (simp add: bit_of_nat_iff)
qed

lemma entry_fields:
  assumes "p mod PGSIZE = 0" and "p < 2 ^ 32" and "flags AND PTE_ADDR = 0"
  shows "unat ((of_nat p OR flags) AND PTE_ADDR) = p" and "bit (of_nat p OR flags) 0 = bit flags 0"
proof -
  have "(of_nat p OR flags) AND PTE_ADDR = of_nat p"
  proof (rule bit_word_eqI)
    fix n assume n: "n < LENGTH(32)"
    have m: "bit PTE_ADDR n \<longleftrightarrow> 12 \<le> n"
    proof -
      have a: "PTE_ADDR = NOT (mask 12)" by (simp add: PTE_ADDR_def mask_eq_exp_minus_1)
      show ?thesis unfolding a using n by (auto simp: bit_simps)
    qed
    have f: "\<not> bit flags n" if "12 \<le> n" using assms(3) m that by (metis bit_and_iff bit_0_eq bot_apply bot_bool_def)
    show "bit ((of_nat p OR flags) AND PTE_ADDR) n = bit (of_nat p :: u32) n"
      using m f low_bits_of_page [OF assms(1), of n] by (auto simp: bit_and_iff bit_or_iff)
  qed
  then show "unat ((of_nat p OR flags) AND PTE_ADDR) = p" using assms(2) by (simp add: unsigned_of_nat take_bit_nat_eq_self)
  show "bit (of_nat p OR flags) 0 = bit flags 0"
    using low_bits_of_page [OF assms(1), of 0] by (simp add: bit_or_iff)
qed


definition kernel_page :: "ptr \<Rightarrow> bool" where
  "kernel_page pt \<longleftrightarrow> pg_ofs pt = 0 \<and> PHYS_BASE \<le> pt \<and> pt < 2 ^ 32"

lemma kernel_page_phys:
  assumes "kernel_page pt"
  shows "(pt - PHYS_BASE) mod PGSIZE = 0" and "pt - PHYS_BASE < 2 ^ 30" and "vtop pt = Some (pt - PHYS_BASE)"
    and "ptov (pt - PHYS_BASE) = Some pt"
proof -
  show p: "pt - PHYS_BASE < 2 ^ 30" using assms by (auto simp: kernel_page_def PHYS_BASE_def)
  obtain q where "pt = 4096 * q" using assms by (auto simp: kernel_page_def pg_ofs_eq PGSIZE_def)
  then have "pt - PHYS_BASE = 4096 * (q - 786432)" by (simp add: PHYS_BASE_def)
  then show "(pt - PHYS_BASE) mod PGSIZE = 0" by (simp only: PGSIZE_def mod_mult_self1_is_0)
  show "vtop pt = Some (pt - PHYS_BASE)" using assms by (simp add: vtop_def is_kernel_vaddr_def kernel_page_def)
  show "ptov (pt - PHYS_BASE) = Some pt" using assms p by (simp add: ptov_def kernel_page_def PHYS_BASE_def)
qed

lemma and_PTE_P: "e AND PTE_P \<noteq> 0 \<longleftrightarrow> bit e 0"
  by (simp add: PTE_P_def and_one_eq bit_0 odd_iff_mod_2_eq_one)

text \<open>A present entry for a table; the processor may set further flags in it.\<close>

definition points_to :: "u32 \<Rightarrow> ptr \<Rightarrow> bool" where
  "points_to e pt \<longleftrightarrow> bit e 0 \<and> unat (e AND PTE_ADDR) = pt - PHYS_BASE"

lemma points_to_fields:
  assumes "kernel_page pt" and "points_to e pt"
  shows "e \<noteq> 0" and "pde_get_pt e = Some pt"
proof -
  show "e \<noteq> 0" using assms(2) unfolding points_to_def by (metis bit_0_eq bot_apply bot_bool_def)
  show "pde_get_pt e = Some pt"
    using assms kernel_page_phys(4) [OF assms(1)] by (simp only: pde_get_pt_def and_PTE_P points_to_def) simp
qed

lemma pde_create_fields:
  assumes "kernel_page pt"
  obtains e where "pde_create pt = Some e" and "points_to e pt"
proof -
  let ?f = "PTE_U OR PTE_P OR PTE_W"
  note k = kernel_page_phys [OF assms]
  have f: "?f AND PTE_ADDR = 0" "bit ?f 0" by (simp_all add: PTE_U_def PTE_P_def PTE_W_def PTE_ADDR_def)
  let ?e = "of_nat (pt - PHYS_BASE) OR ?f"
  have e: "unat (?e AND PTE_ADDR) = pt - PHYS_BASE" "bit ?e 0"
    using entry_fields [OF k(1) _ f(1)] k(2) f(2) by simp_all
  have "pde_create pt = Some ?e" using k(3) assms by (simp add: pde_create_def kernel_page_def or.assoc)
  moreover have "points_to ?e pt" using e by (simp only: points_to_def simp_thms)
  ultimately show ?thesis by (rule that)
qed

lemma pte_create_user_fields:
  assumes "kernel_page page"
  obtains e where "pte_create_user page w = Some e" and "bit e 0" and "unat (e AND PTE_ADDR) = page - PHYS_BASE"
proof -
  let ?f = "PTE_P OR (if w then PTE_W else 0) OR PTE_U"
  note k = kernel_page_phys [OF assms]
  have f: "?f AND PTE_ADDR = 0" "bit ?f 0" by (simp_all add: PTE_U_def PTE_P_def PTE_W_def PTE_ADDR_def)
  have "pte_create_user page w = Some (of_nat (page - PHYS_BASE) OR ?f)"
    using k(3) assms by (simp add: pte_create_user_def pte_create_kernel_def kernel_page_def or.assoc)
  then show ?thesis using entry_fields [OF k(1) _ f(1)] k(2) f(2) by (intro that) simp_all
qed

section \<open>Page tables as maps\<close>

text \<open>
  \<open>T\<close> gives the page table for each user entry of the directory. The tables are pages of the allocator, different from
  each other and from the directory, and the pages in present entries are in the part of memory that is mapped.
\<close>

definition low_entry :: "u32 \<Rightarrow> bool" where
  "low_entry e \<longleftrightarrow> (bit e 0 \<longrightarrow> unat (e AND PTE_ADDR) < 2 ^ 30)"

definition table_page :: "ptr \<Rightarrow> mmu \<Rightarrow> bool" where
  "table_page pt s \<longleftrightarrow> kernel_page pt \<and> pg_no pt \<in> allocated (phys s)"

definition tables :: "(nat \<Rightarrow> ptr option) \<Rightarrow> ptr \<Rightarrow> mmu \<Rightarrow> bool" where
  "tables T pd s \<longleftrightarrow> (\<forall>i < 768. case T i of None \<Rightarrow> peek (pd + 4 * i) s = 0
     | Some pt \<Rightarrow> points_to (peek (pd + 4 * i) s) pt \<and> table_page pt s \<and> pt \<noteq> pd \<and>
         (\<forall>j < 1024. low_entry (peek (pt + 4 * j) s)) \<and> (\<forall>i' < 768. i' \<noteq> i \<longrightarrow> T i' \<noteq> Some pt))"

definition mmu_ok :: "ptr \<Rightarrow> mmu \<Rightarrow> bool" where
  "mmu_ok pd s \<longleftrightarrow> palloc_ok (phys s) \<and> table_page pd s \<and>
     pool_range (kernel_pool (phys s)) \<subseteq> {PHYS_BASE div PGSIZE..<2 ^ 20}"

definition pd_ok :: "ptr \<Rightarrow> mmu \<Rightarrow> bool" where
  "pd_ok pd s \<longleftrightarrow> mmu_ok pd s \<and> (\<exists>T. tables T pd s)"

definition translate :: "(nat \<Rightarrow> ptr option) \<Rightarrow> mmu \<Rightarrow> ptr \<Rightarrow> ptr" where
  "translate T s va = (case T (pd_no va) of None \<Rightarrow> NULL
     | Some pt \<Rightarrow> let e = peek (pt + 4 * pt_no va) s in
         if bit e 0 then PHYS_BASE + unat (e AND PTE_ADDR) + pg_ofs va else NULL)"

lemma user_index: "is_user_vaddr va \<Longrightarrow> pd_no va < 768" "pt_no va < 1024"
  by (auto simp: is_user_vaddr_def PHYS_BASE_def pd_no_eq pt_no_eq)

lemma tablesD:
  assumes "tables T pd s" and "i < 768"
  shows "T i = None \<Longrightarrow> peek (pd + 4 * i) s = 0"
    and "T i = Some pt \<Longrightarrow> points_to (peek (pd + 4 * i) s) pt \<and> table_page pt s \<and> pt \<noteq> pd \<and>
         (\<forall>j < 1024. low_entry (peek (pt + 4 * j) s)) \<and> (\<forall>i' < 768. i' \<noteq> i \<longrightarrow> T i' \<noteq> Some pt)"
  using assms unfolding tables_def by (auto split: option.splits)

lemma lookup_page_found:
  assumes "tables T pd s" and "T (pd_no va) = Some pt" and "is_user_vaddr va" and "pd \<noteq> NULL"
  shows "lookup_page pd va create s = Some (pt + 4 * pt_no va, s)"
proof -
  have k: "kernel_page pt" "points_to (peek (pd + 4 * pd_no va) s) pt"
    using tablesD(2) [OF assms(1) user_index(1) [OF assms(3)] assms(2)] by (auto simp: table_page_def)
  from points_to_fields [OF k] assms show ?thesis by (simp add: lookup_page_def)
qed

lemma kernel_page_pos: "kernel_page pt \<Longrightarrow> 0 < pt"
  by (auto simp: kernel_page_def PHYS_BASE_def)

lemma pagedir_get_page_eq:
  assumes "tables T pd s" and "mmu_ok pd s" and "is_user_vaddr va"
  shows "pagedir_get_page pd va s = Some (translate T s va)"
proof -
  have pd: "pd \<noteq> NULL" using assms(2) kernel_page_pos [of pd] by (auto simp: mmu_ok_def table_page_def)
  show ?thesis
  proof (cases "T (pd_no va)")
    case None
    then show ?thesis using assms tablesD(1) [OF assms(1) user_index(1) [OF assms(3)]] pd
      by (simp add: pagedir_get_page_def lookup_page_def translate_def)
  next
    case (Some pt)
    let ?e = "peek (pt + 4 * pt_no va) s"
    have t: "low_entry ?e" "kernel_page pt"
      using tablesD(2) [OF assms(1) user_index(1) [OF assms(3)] Some] user_index(2) [of va]
      by (auto simp: table_page_def)
    have "pte_get_page ?e = Some (PHYS_BASE + unat (?e AND PTE_ADDR))" if "bit ?e 0"
      using t(1) that by (simp add: pte_get_page_def ptov_def low_entry_def PHYS_BASE_def)
    then show ?thesis
      using lookup_page_found [OF assms(1) Some assms(3) pd] Some assms(3) kernel_page_pos [OF t(2)]
      by (simp add: pagedir_get_page_def translate_def and_PTE_P Let_def)
  qed
qed


subsection \<open>Memory of different pages\<close>

lemma kernel_page_num: "kernel_page pt \<Longrightarrow> pt = PGSIZE * pg_no pt"
  by (auto simp: kernel_page_def pg_ofs_eq pg_no_eq)

lemma pages_apart:
  assumes "kernel_page p" and "kernel_page q" and "p \<noteq> q" and "i < 1024" and "j < 1024"
  shows "p + 4 * i + 4 \<le> q + 4 * j \<or> q + 4 * j + 4 \<le> p + 4 * i"
proof -
  obtain a b where pq: "p = 4096 * a" "q = 4096 * b"
    using kernel_page_num [OF assms(1)] kernel_page_num [OF assms(2)] by (metis PGSIZE_def)
  with assms(3) have "a + 1 \<le> b \<or> b + 1 \<le> a" by linarith
  then show ?thesis using assms(4,5) unfolding pq by linarith
qed

lemma peek_poke [simp]: "peek a (poke a w s) = w"
  and peek_poke_other: "a + 4 \<le> b \<or> b + 4 \<le> a \<Longrightarrow> peek b (poke a w s) = peek b s"
  by (simp_all add: peek_def poke_def)

lemma poke_state [simp]:
  "allocated (phys (poke a w s)) = allocated (phys s)" "table_page pt (poke a w s) = table_page pt s"
  "mmu_ok pd (poke a w s) = mmu_ok pd s" "init_ram_pages (poke a w s) = init_ram_pages s"
  "init_page_dir (poke a w s) = init_page_dir s"
  by (simp_all add: poke_def table_page_def mmu_ok_def)

text \<open>Writing an entry of one table leaves the directory and the other entries alone.\<close>

lemma tables_poke:
  assumes "tables T pd s" and "mmu_ok pd s" and "T i = Some pt" and "i < 768" and "j < 1024" and "low_entry e"
  shows "tables T pd (poke (pt + 4 * j) e s)"
    and "is_user_vaddr va \<Longrightarrow> translate T (poke (pt + 4 * j) e s) va =
      (if pd_no va = i \<and> pt_no va = j then if bit e 0 then PHYS_BASE + unat (e AND PTE_ADDR) + pg_ofs va else NULL
       else translate T s va)"
proof -
  let ?s = "poke (pt + 4 * j) e s"
  have pt: "kernel_page pt" "pt \<noteq> pd" "\<forall>i' < 768. i' \<noteq> i \<longrightarrow> T i' \<noteq> Some pt"
    using tablesD(2) [OF assms(1,4,3)] by (auto simp: table_page_def)
  have pd: "kernel_page pd" using assms(2) by (simp add: mmu_ok_def table_page_def)
  have dir: "peek (pd + 4 * k) ?s = peek (pd + 4 * k) s" if "k < 768" for k
    using pages_apart [OF pt(1) pd pt(2) assms(5), of k] that by (intro peek_poke_other) auto
  have entry: "peek (pt' + 4 * l) ?s = (if k = i \<and> l = j then e else peek (pt' + 4 * l) s)"
    if "T k = Some pt'" "k < 768" "l < 1024" for k pt' l
  proof (cases "k = i")
    case True
    have "pt + 4 * j + 4 \<le> pt + 4 * l \<or> pt + 4 * l + 4 \<le> pt + 4 * j" if "l \<noteq> j" using that by linarith
    then show ?thesis using True that assms(3) peek_poke_other [of "pt + 4 * j" "pt + 4 * l" e s] by auto
  next
    case False
    then have "pt' \<noteq> pt" "kernel_page pt'"
      using pt(3) that tablesD(2) [OF assms(1) that(2,1)] by (auto simp: table_page_def)
    then show ?thesis
      using pages_apart [OF pt(1) _ _ assms(5) that(3), of pt'] False by (auto intro!: peek_poke_other)
  qed
  show "tables T pd ?s"
    unfolding tables_def
  proof (intro allI impI)
    fix k :: nat assume k: "k < 768"
    show "case T k of None \<Rightarrow> peek (pd + 4 * k) ?s = 0
     | Some pt \<Rightarrow> points_to (peek (pd + 4 * k) ?s) pt \<and> table_page pt ?s \<and> pt \<noteq> pd \<and>
         (\<forall>j < 1024. low_entry (peek (pt + 4 * j) ?s)) \<and> (\<forall>i' < 768. i' \<noteq> k \<longrightarrow> T i' \<noteq> Some pt)"
      using tablesD [OF assms(1) k] entry k assms(6) dir [OF k] by (auto split: option.split)
  qed
  show "translate T ?s va = (if pd_no va = i \<and> pt_no va = j then if bit e 0 then PHYS_BASE + unat (e AND PTE_ADDR) + pg_ofs va else NULL
       else translate T s va)" if "is_user_vaddr va"
    using entry [of "pd_no va" _ "pt_no va"] user_index [of va] that assms(3)
    by (auto simp: translate_def Let_def split: option.split)
qed


subsection \<open>A new page table\<close>

lemma num_kernel_page:
  "pg_ofs p = 0 \<Longrightarrow> pg_no p \<in> {PHYS_BASE div PGSIZE..<2 ^ 20} \<Longrightarrow> kernel_page p"
  by (auto simp: kernel_page_def pg_ofs_eq pg_no_eq PGSIZE_def PHYS_BASE_def)

lemma peek_set_up:
  assumes "kernel_page p" and "kernel_page q" and "j < 1024" and "ram (phys s') = set_up PGSIZE p 0 (ram (phys s))"
  shows "peek (q + 4 * j) s' = (if p = q then 0 else peek (q + 4 * j) s)"
proof (cases "p = q")
  case True
  have "set_up PGSIZE p 0 (ram (phys s)) (p + (4 * j + k)) = 0" if "k < 4" for k
    using that assms(3) by (intro set_up_nth) (simp add: PGSIZE_def)
  from this [of 0] this [of 1] this [of 2] this [of 3] True show ?thesis
    by (simp add: peek_def load32_def assms(4) ac_simps)
next
  case False
  obtain a b where pq: "p = 4096 * a" "q = 4096 * b"
    using kernel_page_num [OF assms(1)] kernel_page_num [OF assms(2)] by (metis PGSIZE_def)
  have "set_up PGSIZE p 0 (ram (phys s)) (q + 4 * j + k) = ram (phys s) (q + 4 * j + k)" if "k < 4" for k
  proof (rule set_up_other)
    from False pq have "a + 1 \<le> b \<or> b + 1 \<le> a" by linarith
    then show "q + 4 * j + k < p \<or> p + PGSIZE \<le> q + 4 * j + k" using that assms(3) unfolding pq PGSIZE_def by linarith
  qed
  from this [of 0] this [of 1] this [of 2] this [of 3] False show ?thesis
    by (simp add: peek_def load32_def assms(4))
qed

lemma palloc_get_multiple_ranges:
  assumes "palloc_ok s" and "palloc_get_multiple flags cnt s = Some (p, s')"
  shows "pool_range (kernel_pool s') = pool_range (kernel_pool s)"
proof -
  have "bitmap_wf (used_map (get_pool user s))" for user using get_pool_ok [OF assms(1)] by (simp add: pool_ok_def)
  then have "bitmap_scan_and_flip (used_map (get_pool user s)) 0 cnt False = Some (r, b) \<Longrightarrow>
      bit_cnt b = bit_cnt (used_map (get_pool user s))" for user r b
    using bitmap_scan_and_flip_spec [of "used_map (get_pool user s)" 0 cnt False] by auto
  note cnt = this [where user = False, unfolded get_pool_def, simplified]
  show ?thesis using assms(2)
    by (auto simp: palloc_get_multiple_def bind_eq_Some_conv Let_def memset_def put_used_map_def pool_range_def get_pool_def
        dest!: cnt split: if_splits)
qed

lemma install_table:
  assumes "tables T pd s" and "kernel_page pd" and "pg_no pd \<in> allocated (phys s)" and i: "i < 768" and "T i = None"
    and pt: "kernel_page pt" "pg_no pt \<notin> allocated (phys s)" "points_to e pt"
    and s': "ram (phys s') = set_up PGSIZE pt 0 (ram (phys s))" "allocated (phys s') = insert (pg_no pt) (allocated (phys s))"
  shows "tables (T(i \<mapsto> pt)) pd (poke (pd + 4 * i) e s')"
    and "\<forall>x. is_user_vaddr x \<longrightarrow> translate (T(i \<mapsto> pt)) (poke (pd + 4 * i) e s') x = translate T s x"
proof -
  let ?s = "poke (pd + 4 * i) e s'"
  have "pt \<noteq> pd" using assms(3) pt(2) by auto
  have dir: "peek (pd + 4 * k) ?s = (if k = i then e else peek (pd + 4 * k) s)" if "k < 768" for k
  proof -
    have "pd + 4 * i + 4 \<le> pd + 4 * k \<or> pd + 4 * k + 4 \<le> pd + 4 * i" if "k \<noteq> i" using that by linarith
    then show ?thesis
      using peek_poke_other [of "pd + 4 * i" "pd + 4 * k" e s'] peek_set_up [OF pt(1) assms(2) _ s'(1), of k] that \<open>pt \<noteq> pd\<close>
      by auto
  qed
  have tab: "peek (q + 4 * j) ?s = (if q = pt then 0 else peek (q + 4 * j) s)" if "kernel_page q" "q \<noteq> pd" "j < 1024" for q j
    using peek_set_up [OF pt(1) that(1,3) s'(1)] pages_apart [OF assms(2) that(1) _ _ that(3), of i] i that(2)
    by (subst peek_poke_other) auto
  have old: "kernel_page q \<and> q \<noteq> pd \<and> q \<noteq> pt" if "T k = Some q" "k < 768" for k q
    using tablesD(2) [OF assms(1) that(2,1)] pt(2) by (auto simp: table_page_def)
  show "tables (T(i \<mapsto> pt)) pd ?s"
    unfolding tables_def
  proof (intro allI impI)
    fix k :: nat assume k: "k < 768"
    show "case (T(i \<mapsto> pt)) k of None \<Rightarrow> peek (pd + 4 * k) ?s = 0
     | Some pt' \<Rightarrow> points_to (peek (pd + 4 * k) ?s) pt' \<and> table_page pt' ?s \<and> pt' \<noteq> pd \<and>
         (\<forall>j < 1024. low_entry (peek (pt' + 4 * j) ?s)) \<and> (\<forall>i' < 768. i' \<noteq> k \<longrightarrow> (T(i \<mapsto> pt)) i' \<noteq> Some pt')"
    proof (cases "k = i")
      case True
      have "table_page pt ?s" using pt(1) s'(2) by (simp add: table_page_def)
      then show ?thesis using True dir [OF k] tab [OF pt(1) \<open>pt \<noteq> pd\<close>] pt(3) \<open>pt \<noteq> pd\<close> old
        by (auto simp: low_entry_def)
    next
      case False
      show ?thesis
      proof (cases "T k")
        case (Some q)
        have "table_page q ?s" using tablesD(2) [OF assms(1) k Some] s'(2) by (simp add: table_page_def)
        then show ?thesis using False Some tablesD(2) [OF assms(1) k Some] dir [OF k] old [OF Some k] tab [of q] by auto
      qed (use False k dir tablesD(1) [OF assms(1) k] in simp)
    qed
  qed
  show "\<forall>x. is_user_vaddr x \<longrightarrow> translate (T(i \<mapsto> pt)) ?s x = translate T s x"
    using tab old \<open>pt \<noteq> pd\<close> pt(1) user_index assms(5)
    by (auto simp: translate_def Let_def split: option.split)
qed

text \<open>Looking up with creation gives a directory that has a table, and the same translation.\<close>

lemma lookup_page_create:
  assumes "tables T pd s" and "mmu_ok pd s" and "is_user_vaddr va" and "T (pd_no va) = None"
  shows "(\<exists>s'. lookup_page pd va True s = Some (NULL, s') \<and> mmu_ok pd s' \<and> tables T pd s' \<and>
      (\<forall>x. is_user_vaddr x \<longrightarrow> translate T s' x = translate T s x)) \<or>
    (\<exists>pt s'. lookup_page pd va True s = Some (pt + 4 * pt_no va, s') \<and> mmu_ok pd s' \<and> kernel_page pt \<and>
      tables (T(pd_no va \<mapsto> pt)) pd s' \<and> (\<forall>x. is_user_vaddr x \<longrightarrow> translate (T(pd_no va \<mapsto> pt)) s' x = translate T s x))"
proof -
  let ?i = "pd_no va"
  have i: "?i < 768" using assms(3) by (rule user_index)
  have pd: "kernel_page pd" "pg_no pd \<in> allocated (phys s)" "palloc_ok (phys s)"
    using assms(2) by (auto simp: mmu_ok_def table_page_def)
  have flags: "PAL_ZERO AND PAL_ASSERT = 0" "PAL_ZERO AND PAL_USER = 0" "PAL_ZERO AND PAL_ZERO \<noteq> 0"
    by (simp_all add: PAL_ZERO_def PAL_ASSERT_def PAL_USER_def)
  obtain pt p where get: "palloc_get_page PAL_ZERO (phys s) = Some (pt, p)" "palloc_ok p"
    "pt = NULL \<Longrightarrow> allocated p = allocated (phys s) \<and> ram p = ram (phys s)"
    "pt \<noteq> NULL \<Longrightarrow> pg_ofs pt = 0 \<and> pg_no pt \<notin> allocated (phys s) \<and> allocated p = insert (pg_no pt) (allocated (phys s)) \<and>
      pg_no pt \<in> pool_range (kernel_pool p) \<and> ram p = set_up PGSIZE pt 0 (ram (phys s))"
    using palloc_get_multiple_spec [OF pd(3) _ flags(1), of 1] flags(2,3)
    by (auto simp: palloc_get_page_def get_pool_def page_set_def split: if_splits)
  have range: "pool_range (kernel_pool p) = pool_range (kernel_pool (phys s))"
    using palloc_get_multiple_ranges [OF pd(3)] get(1) by (simp add: palloc_get_page_def)
  have empty: "peek (pd + 4 * ?i) s = 0" using tablesD(1) [OF assms(1) i assms(4)] .
  show ?thesis
  proof (cases "pt = NULL")
    case True
    have "peek a (s\<lparr>phys := p\<rparr>) = peek a s" "table_page q (s\<lparr>phys := p\<rparr>) = table_page q s" for a q
      using get(3) True by (simp_all add: peek_def table_page_def)
    then have "tables T pd (s\<lparr>phys := p\<rparr>)" using assms(1) by (simp only: tables_def)
    moreover have "mmu_ok pd (s\<lparr>phys := p\<rparr>)" using assms(2) get(2,3) True range by (simp add: mmu_ok_def table_page_def)
    moreover have "translate T (s\<lparr>phys := p\<rparr>) x = translate T s x" for x
      using get(3) True by (simp add: translate_def peek_def cong: option.case_cong)
    moreover have "lookup_page pd va True s = Some (NULL, s\<lparr>phys := p\<rparr>)"
      using get(1) True assms(3) kernel_page_pos [OF pd(1)] empty by (simp add: lookup_page_def)
    ultimately show ?thesis by blast
  next
    case False
    have pt: "kernel_page pt" "pg_no pt \<notin> allocated (phys s)"
      using get(4) [OF False] range assms(2) by (auto simp: mmu_ok_def intro!: num_kernel_page)
    obtain e where e: "pde_create pt = Some e" "points_to e pt" using pde_create_fields [OF pt(1)] .
    have ok: "mmu_ok pd (s\<lparr>phys := p\<rparr>)"
      using assms(2) get(2) get(4) [OF False] range by (simp add: mmu_ok_def table_page_def)
    have "lookup_page pd va True s = Some (pt + 4 * pt_no va, poke (pd + 4 * ?i) e (s\<lparr>phys := p\<rparr>))"
      using get(1) False assms(3) kernel_page_pos [OF pd(1)] empty e(1) points_to_fields [OF pt(1) e(2)]
      by (simp add: lookup_page_def)
    moreover note install_table [OF assms(1) pd(1,2) i assms(4) pt e(2), of "s\<lparr>phys := p\<rparr>"] get(4) [OF False]
    ultimately show ?thesis using ok pt(1) by simp
  qed
qed


section \<open>Properties\<close>

text \<open>
  C37. Page tables implement a map from user pages to frames. On a well-formed page directory, adding a mapping for a page
  that has none always returns, and the directory stays well-formed. When it succeeds, every user address of the page is
  translated to the same offset in the frame, and all others as before; when it fails for want of memory, no translation
  has changed.
\<close>

theorem pagedir_set_page_refines:
  assumes "pd_ok pd s" and "pd \<noteq> init_page_dir s" and "kernel_page kpage" and "pg_no (kpage - PHYS_BASE) < init_ram_pages s"
    and "pg_ofs upage = 0" and "is_user_vaddr upage" and "pagedir_get_page pd upage s = Some NULL"
  shows "\<exists>ok s'. pagedir_set_page pd upage kpage writable s = Some (ok, s') \<and> pd_ok pd s' \<and>
    (\<forall>va. is_user_vaddr va \<longrightarrow> pagedir_get_page pd va s' =
       (if ok \<and> pg_no va = pg_no upage then Some (kpage + pg_ofs va) else pagedir_get_page pd va s))"
proof -
  obtain T where T: "tables T pd s" "mmu_ok pd s" using assms(1) by (auto simp: pd_ok_def)
  have pd: "kernel_page pd" "pd \<noteq> NULL" using T(2) kernel_page_pos by (auto simp: mmu_ok_def table_page_def)
  obtain e where e: "pte_create_user kpage writable = Some e" "bit e 0" "unat (e AND PTE_ADDR) = kpage - PHYS_BASE"
    using pte_create_user_fields [OF assms(3)] .
  have k: "vtop kpage = Some (kpage - PHYS_BASE)" "low_entry e" "PHYS_BASE + (kpage - PHYS_BASE) = kpage" "pg_ofs kpage = 0"
    using kernel_page_phys [OF assms(3)] e(3) assms(3) by (auto simp: low_entry_def kernel_page_def)
  have no_map: "translate T s upage = NULL" using assms(7) pagedir_get_page_eq [OF T assms(6)] by simp
  have install: ?thesis
    if look: "lookup_page pd upage True s = Some (pt + 4 * pt_no upage, s1)" and T1: "tables T1 pd s1" "mmu_ok pd s1"
      "T1 (pd_no upage) = Some pt" "kernel_page pt" and same: "\<forall>x. is_user_vaddr x \<longrightarrow> translate T1 s1 x = translate T s x" for pt s1 T1
  proof -
    have free: "peek (pt + 4 * pt_no upage) s1 AND PTE_P = 0"
      using same no_map assms(6) T1(3) and_PTE_P [of "peek (pt + 4 * pt_no upage) s1"]
      by (auto simp: translate_def Let_def PHYS_BASE_def split: if_splits)
    let ?s = "poke (pt + 4 * pt_no upage) e s1"
    note new = tables_poke [OF T1(1,2,3) user_index(1) [OF assms(6)] user_index(2) k(2)]
    have run: "pagedir_set_page pd upage kpage writable s = Some (True, ?s)"
      using assms(2,4,5,6) k(1,4) look free e(1) kernel_page_pos [OF T1(4)]
      by (simp add: pagedir_set_page_def pg_no_def PGBITS_def)
    have "pagedir_get_page pd va ?s = (if pg_no va = pg_no upage then Some (kpage + pg_ofs va) else pagedir_get_page pd va s)"
      if "is_user_vaddr va" for va
    proof -
      have "pg_no va = pg_no upage \<longleftrightarrow> pd_no va = pd_no upage \<and> pt_no va = pt_no upage"
        using user_index(2) [of va] user_index(2) [of upage] digits_1024 by (simp add: pg_no_indices)
      then show ?thesis
        using pagedir_get_page_eq [OF new(1) _ that] pagedir_get_page_eq [OF T that] new(2) [OF that] same that T1(2) e(2,3) k(3)
        by auto
    qed
    with run new(1) T1(2) show ?thesis by (auto simp: pd_ok_def)
  qed
  show ?thesis
  proof (cases "T (pd_no upage)")
    case (Some pt)
    then show ?thesis
      using install [OF lookup_page_found [OF T(1) Some assms(6) pd(2)] T Some] tablesD(2) [OF T(1) user_index(1) [OF assms(6)] Some]
      by (auto simp: table_page_def)
  next
    case None
    from lookup_page_create [OF T assms(6) None] show ?thesis
    proof (elim disjE exE conjE)
      fix s' assume s': "lookup_page pd upage True s = Some (NULL, s')" "mmu_ok pd s'" "tables T pd s'"
        "\<forall>x. is_user_vaddr x \<longrightarrow> translate T s' x = translate T s x"
      then have "pagedir_set_page pd upage kpage writable s = Some (False, s')"
        using assms(2,4,5,6) k(1,4) by (simp add: pagedir_set_page_def pg_no_def PGBITS_def)
      moreover have "pagedir_get_page pd va s' = pagedir_get_page pd va s" if "is_user_vaddr va" for va
        using pagedir_get_page_eq [OF s'(3,2) that] pagedir_get_page_eq [OF T that] s'(4) that by simp
      ultimately show ?thesis using s'(2,3) by (auto simp: pd_ok_def)
    next
      fix pt s' assume "lookup_page pd upage True s = Some (pt + 4 * pt_no upage, s')" "mmu_ok pd s'" "kernel_page pt"
        "tables (T(pd_no upage \<mapsto> pt)) pd s'"
        "\<forall>x. is_user_vaddr x \<longrightarrow> translate (T(pd_no upage \<mapsto> pt)) s' x = translate T s x"
      then show ?thesis by (intro install [of pt s' "T(pd_no upage \<mapsto> pt)"]) auto
    qed
  qed
qed

theorem pagedir_set_page_refines_witness:
  "\<exists>ok s'. pagedir_set_page 3222274048 4096 3222282240 True
     \<lparr>phys = \<lparr>kernel_pool = \<lparr>used_map = \<lparr>bit_cnt = 2, bits = [1]\<rparr>, base = 3222274048\<rparr>,
        user_pool = \<lparr>used_map = \<lparr>bit_cnt = 1, bits = [1]\<rparr>, base = 3222282240\<rparr>, ram = (\<lambda>_. 0)\<rparr>,
      cr3 = 0, init_page_dir = 3221225472, init_ram_pages = 1024\<rparr> = Some (ok, s') \<and> pd_ok 3222274048 s'"
proof -
  let ?s = "\<lparr>phys = \<lparr>kernel_pool = \<lparr>used_map = \<lparr>bit_cnt = 2, bits = [1]\<rparr>, base = 3222274048\<rparr>,
        user_pool = \<lparr>used_map = \<lparr>bit_cnt = 1, bits = [1]\<rparr>, base = 3222282240\<rparr>, ram = (\<lambda>_. 0)\<rparr>,
      cr3 = 0, init_page_dir = 3221225472, init_ram_pages = 1024\<rparr>"
  have "mmu_ok 3222274048 ?s"
    by (auto simp: mmu_ok_def palloc_ok_def pool_ok_def pool_range_def pool_used_def used_bits_def bits_of_def allocated_def
        bitmap_wf_def elem_cnt_def size_add_def table_page_def kernel_page_def pg_ofs_eq pg_no_eq PGSIZE_def PHYS_BASE_def
        image_iff Bex_def)
  moreover have "tables (\<lambda>_. None) 3222274048 ?s" by (simp add: tables_def peek_def load32_def)
  ultimately have ok: "pd_ok 3222274048 ?s" and "pagedir_get_page 3222274048 4096 ?s = Some NULL"
    using pagedir_get_page_eq [of "\<lambda>_. None" 3222274048 ?s 4096]
    by (auto simp: pd_ok_def is_user_vaddr_def PHYS_BASE_def translate_def)
  with pagedir_set_page_refines [OF ok, of 3222282240 4096 True] show ?thesis
    by (auto simp: kernel_page_def pg_ofs_eq pg_no_eq PGSIZE_def PHYS_BASE_def is_user_vaddr_def)
qed

end
