(* ===== verification/Inode.thy ===== *)
theory Inode
  imports Bitmap
begin

text \<open>
  The file system below directories: the sectors of \<^verbatim>\<open>devices/block.c\<close>, inodes (\<^verbatim>\<open>filesys/inode.c\<close>), the free map
  (\<^verbatim>\<open>filesys/free-map.c\<close>) and open files (\<^verbatim>\<open>filesys/file.c\<close>). What the block allocator returns to each request is part of
  the state: the next address, or none when memory is exhausted. \<^verbatim>\<open>off_t\<close> values are integers in the range of
  \<^verbatim>\<open>int32_t\<close>.
\<close>

unbundle bit_operations_syntax

section \<open>The code\<close>

subsection \<open>Block devices\<close>

definition BLOCK_SECTOR_SIZE :: int where "BLOCK_SECTOR_SIZE = 512"

record block =
  b_size :: nat
  foreign :: bool
  sectors :: "nat \<Rightarrow> u8 list"
  read_cnt :: nat
  write_cnt :: nat

subsection \<open>Data structures\<close>

definition INODE_MAGIC :: nat where "INODE_MAGIC = 0x494e4f44"

record inode_disk =
  d_start :: nat
  d_length :: int
  d_magic :: nat

record inode =
  i_sector :: nat
  open_cnt :: int
  removed :: bool
  deny_write_cnt :: int
  i_data :: inode_disk

record open_file =
  f_inode :: ptr
  f_pos :: int
  deny_write :: bool

record fs =
  fs_device :: block
  free_map :: bitmap
  free_map_file :: ptr
  open_inodes :: "ptr list"
  inodes :: "ptr \<Rightarrow> inode option"
  files :: "ptr \<Rightarrow> open_file option"
  allocs :: "ptr list"

definition alloc :: "fs \<Rightarrow> ptr \<times> fs" where
  "alloc s = (case allocs s of [] \<Rightarrow> (NULL, s) | p # ps \<Rightarrow> (p, s\<lparr>allocs := ps\<rparr>))"

text \<open>Division and remainder of C on \<^verbatim>\<open>int\<close>, and words as bytes on disk.\<close>

definition cdiv :: "int \<Rightarrow> int \<Rightarrow> int" where "cdiv a b = sgn a * (\<bar>a\<bar> div b)"
definition crem :: "int \<Rightarrow> int \<Rightarrow> int" where "crem a b = sgn a * (\<bar>a\<bar> mod b)"

definition le32 :: "nat \<Rightarrow> u8 list" where
  "le32 n = map (\<lambda>i. of_nat (n div 256 ^ i)) [0..<4]"

fun of_le :: "u8 list \<Rightarrow> nat" where
  "of_le [] = 0"
| "of_le (b # bs) = unat b + 256 * of_le bs"

definition encode_inode :: "inode_disk \<Rightarrow> u8 list" where
  "encode_inode d = le32 (d_start d) @ le32 (nat (d_length d mod 2 ^ 32)) @ le32 (d_magic d) @ replicate 500 0"

definition decode_inode :: "u8 list \<Rightarrow> inode_disk" where
  "decode_inode bs = \<lparr>d_start = of_le (take 4 bs), d_length = signed_take_bit 31 (int (of_le (take 4 (drop 4 bs)))),
     d_magic = of_le (take 4 (drop 8 bs))\<rparr>"

definition block_read :: "nat \<Rightarrow> fs \<Rightarrow> (u8 list \<times> fs) option" where
  "block_read sector s = do {
     ASSERT (sector < b_size (fs_device s));
     Some (sectors (fs_device s) sector, s\<lparr>fs_device := (fs_device s)\<lparr>read_cnt := read_cnt (fs_device s) + 1\<rparr>\<rparr>)
   }"

definition block_write :: "nat \<Rightarrow> u8 list \<Rightarrow> fs \<Rightarrow> fs option" where
  "block_write sector bs s = do {
     ASSERT (sector < b_size (fs_device s));
     ASSERT (\<not> foreign (fs_device s));
     Some (s\<lparr>fs_device := (fs_device s)\<lparr>sectors := (sectors (fs_device s))(sector := bs),
        write_cnt := write_cnt (fs_device s) + 1\<rparr>\<rparr>)
   }"

subsection \<open>Reading and writing inodes\<close>

definition bytes_to_sectors :: "int \<Rightarrow> nat" where
  "bytes_to_sectors n = nat (cdiv (signed_take_bit 31 (n + BLOCK_SECTOR_SIZE - 1)) BLOCK_SECTOR_SIZE mod 2 ^ 32)"

definition byte_to_sector :: "inode \<Rightarrow> int \<Rightarrow> nat" where
  "byte_to_sector ino pos =
     (if pos < d_length (i_data ino) then nat ((int (d_start (i_data ino)) + cdiv pos BLOCK_SECTOR_SIZE) mod 2 ^ 32)
      else 2 ^ 32 - 1)"

definition inode_length :: "inode \<Rightarrow> int" where
  "inode_length ino = d_length (i_data ino)"

definition sector_left :: "int \<Rightarrow> int" where
  "sector_left offset = BLOCK_SECTOR_SIZE - crem offset BLOCK_SECTOR_SIZE"

definition chunk_size :: "inode \<Rightarrow> int \<Rightarrow> int \<Rightarrow> int" where
  "chunk_size ino n offset =
     (let inode_left = inode_length ino - offset;
          min_left = (if inode_left < sector_left offset then inode_left else sector_left offset)
      in if n < min_left then n else min_left)"

text \<open>The bounce buffer is allocated on its first use.\<close>

definition need_bounce :: "bool \<Rightarrow> fs \<Rightarrow> bool \<times> fs" where
  "need_bounce bounce s = (if bounce then (True, s) else case alloc s of (p, s) \<Rightarrow> (p \<noteq> NULL, s))"

text \<open>\<open>out\<close> is what has been stored in the buffer of the caller so far; its length is \<^verbatim>\<open>bytes_read\<close>.\<close>

function read_loop :: "inode \<Rightarrow> int \<Rightarrow> int \<Rightarrow> u8 list \<Rightarrow> bool \<Rightarrow> fs \<Rightarrow> (u8 list \<times> fs) option" where
  "read_loop ino n offset out bounce s =
     (let sector_idx = byte_to_sector ino offset;
          sector_ofs = crem offset BLOCK_SECTOR_SIZE;
          chunk = chunk_size ino n offset
      in if n \<le> 0 \<or> chunk \<le> 0 then Some (out, s)
      else if sector_ofs = 0 \<and> chunk = BLOCK_SECTOR_SIZE then
        (case block_read sector_idx s of None \<Rightarrow> None
         | Some (bs, s) \<Rightarrow> read_loop ino (n - chunk) (offset + chunk) (out @ bs) bounce s)
      else (case need_bounce bounce s of (ok, s) \<Rightarrow>
        if \<not> ok then Some (out, s)
        else (case block_read sector_idx s of None \<Rightarrow> None
         | Some (bs, s) \<Rightarrow> read_loop ino (n - chunk) (offset + chunk)
             (out @ take (nat chunk) (drop (nat sector_ofs) bs)) True s)))"
  by pat_completeness auto
termination by (relation "measure (\<lambda>(ino, n, _). nat n)") auto

definition inode_read_at :: "ptr \<Rightarrow> int \<Rightarrow> int \<Rightarrow> fs \<Rightarrow> (u8 list \<times> fs) option" where
  "inode_read_at p n offset s = do {
     ino \<leftarrow> inodes s p;
     read_loop ino n offset [] False s
   }"

text \<open>\<open>buf\<close> is the buffer of the caller; the result is \<^verbatim>\<open>bytes_written\<close>.\<close>

function write_loop :: "inode \<Rightarrow> u8 list \<Rightarrow> int \<Rightarrow> int \<Rightarrow> nat \<Rightarrow> bool \<Rightarrow> fs \<Rightarrow> (nat \<times> fs) option" where
  "write_loop ino buf n offset written bounce s =
     (let sector_idx = byte_to_sector ino offset;
          sector_ofs = crem offset BLOCK_SECTOR_SIZE;
          chunk = chunk_size ino n offset;
          bs = take (nat chunk) (drop written buf)
      in if n \<le> 0 \<or> chunk \<le> 0 then Some (written, s)
      else if length bs < nat chunk then None
      else if sector_ofs = 0 \<and> chunk = BLOCK_SECTOR_SIZE then
        (case block_write sector_idx bs s of None \<Rightarrow> None
         | Some s \<Rightarrow> write_loop ino buf (n - chunk) (offset + chunk) (written + nat chunk) bounce s)
      else (case need_bounce bounce s of (ok, s) \<Rightarrow>
        if \<not> ok then Some (written, s)
        else (case (if sector_ofs > 0 \<or> chunk < sector_left offset then block_read sector_idx s
                    else Some (replicate (nat BLOCK_SECTOR_SIZE) 0, s)) of None \<Rightarrow> None
         | Some (b, s) \<Rightarrow>
           (case block_write sector_idx (take (nat sector_ofs) b @ bs @ drop (nat sector_ofs + nat chunk) b) s of None \<Rightarrow> None
            | Some s \<Rightarrow> write_loop ino buf (n - chunk) (offset + chunk) (written + nat chunk) True s))))"
  by pat_completeness auto
termination by (relation "measure (\<lambda>(ino, buf, n, _). nat n)") auto

declare read_loop.simps [simp del] write_loop.simps [simp del]

definition inode_write_at :: "ptr \<Rightarrow> u8 list \<Rightarrow> int \<Rightarrow> int \<Rightarrow> fs \<Rightarrow> (nat \<times> fs) option" where
  "inode_write_at p buf n offset s = do {
     ino \<leftarrow> inodes s p;
     if deny_write_cnt ino \<noteq> 0 then Some (0, s)
     else write_loop ino buf n offset 0 False s
   }"

subsection \<open>Opening and closing inodes; the free map\<close>

definition inode_init :: "fs \<Rightarrow> fs" where
  "inode_init s = s\<lparr>open_inodes := []\<rparr>"

definition inode_reopen :: "ptr \<Rightarrow> fs \<Rightarrow> (ptr \<times> fs) option" where
  "inode_reopen p s =
     (if p \<noteq> NULL then do {
        ino \<leftarrow> inodes s p;
        Some (p, s\<lparr>inodes := (inodes s)(p \<mapsto> ino\<lparr>open_cnt := open_cnt ino + 1\<rparr>)\<rparr>)
      } else Some (p, s))"

definition inode_get_inumber :: "ptr \<Rightarrow> fs \<Rightarrow> nat option" where
  "inode_get_inumber p s = map_option i_sector (inodes s p)"

fun find_open :: "nat \<Rightarrow> ptr list \<Rightarrow> fs \<Rightarrow> ptr option option" where
  "find_open sector [] s = Some None"
| "find_open sector (p # ps) s = do {
     ino \<leftarrow> inodes s p;
     if i_sector ino = sector then Some (Some p) else find_open sector ps s
   }"

definition inode_open :: "nat \<Rightarrow> fs \<Rightarrow> (ptr \<times> fs) option" where
  "inode_open sector s = do {
     r \<leftarrow> find_open sector (open_inodes s) s;
     case r of
       Some p \<Rightarrow> inode_reopen p s
     | None \<Rightarrow> (case alloc s of (p, s) \<Rightarrow>
         if p = NULL then Some (NULL, s)
         else do {
           (bs, s) \<leftarrow> block_read sector s;
           Some (p, s\<lparr>open_inodes := p # open_inodes s,
             inodes := (inodes s)(p \<mapsto> \<lparr>i_sector = sector, open_cnt = 1, removed = False, deny_write_cnt = 0,
               i_data = decode_inode bs\<rparr>)\<rparr>)
         })
   }"

definition inode_remove :: "ptr \<Rightarrow> fs \<Rightarrow> fs option" where
  "inode_remove p s = do {
     ASSERT (p \<noteq> NULL);
     ino \<leftarrow> inodes s p;
     Some (s\<lparr>inodes := (inodes s)(p \<mapsto> ino\<lparr>removed := True\<rparr>)\<rparr>)
   }"

definition inode_deny_write :: "ptr \<Rightarrow> fs \<Rightarrow> fs option" where
  "inode_deny_write p s = do {
     ino \<leftarrow> inodes s p;
     let ino = ino\<lparr>deny_write_cnt := deny_write_cnt ino + 1\<rparr>;
     ASSERT (deny_write_cnt ino \<le> open_cnt ino);
     Some (s\<lparr>inodes := (inodes s)(p \<mapsto> ino)\<rparr>)
   }"

definition inode_allow_write :: "ptr \<Rightarrow> fs \<Rightarrow> fs option" where
  "inode_allow_write p s = do {
     ino \<leftarrow> inodes s p;
     ASSERT (deny_write_cnt ino > 0);
     ASSERT (deny_write_cnt ino \<le> open_cnt ino);
     Some (s\<lparr>inodes := (inodes s)(p \<mapsto> ino\<lparr>deny_write_cnt := deny_write_cnt ino - 1\<rparr>)\<rparr>)
   }"

definition file_read_at :: "ptr \<Rightarrow> int \<Rightarrow> int \<Rightarrow> fs \<Rightarrow> (u8 list \<times> fs) option" where
  "file_read_at f n ofs s = do { fl \<leftarrow> files s f; inode_read_at (f_inode fl) n ofs s }"

definition file_write_at :: "ptr \<Rightarrow> u8 list \<Rightarrow> int \<Rightarrow> int \<Rightarrow> fs \<Rightarrow> (nat \<times> fs) option" where
  "file_write_at f buf n ofs s = do { fl \<leftarrow> files s f; inode_write_at (f_inode fl) buf n ofs s }"

text \<open>Writing the bitmap to the free map file, and reading it back.\<close>

definition write_free_map :: "fs \<Rightarrow> (bool \<times> fs) option" where
  "write_free_map s = do {
     let n = byte_cnt (bit_cnt (free_map s));
     (written, s) \<leftarrow> file_write_at (free_map_file s) (concat (map (le32 \<circ> unat) (bits (free_map s)))) (int n) 0 s;
     Some (bitmap_write (free_map s) written, s)
   }"

definition read_free_map :: "fs \<Rightarrow> (bool \<times> fs) option" where
  "read_free_map s =
     (if bit_cnt (free_map s) > 0 then do {
        let n = byte_cnt (bit_cnt (free_map s));
        (bs, s) \<leftarrow> file_read_at (free_map_file s) (int n) 0 s;
        let mem = bs @ drop (length bs) (concat (map (le32 \<circ> unat) (bits (free_map s))));
        (ok, b) \<leftarrow> bitmap_read (free_map s) (length bs)
          (map (\<lambda>i. of_nat (of_le (take 4 (drop (4 * i) mem)))) [0..<length (bits (free_map s))]);
        Some (ok, s\<lparr>free_map := b\<rparr>)
      } else Some (True, s))"

definition FREE_MAP_SECTOR :: nat where "FREE_MAP_SECTOR = 0"
definition ROOT_DIR_SECTOR :: nat where "ROOT_DIR_SECTOR = 1"

text \<open>The storage of the new bitmap is what \<^verbatim>\<open>bitmap_create\<close> got, if it got any.\<close>

definition free_map_init :: "bool \<Rightarrow> u32 list option \<Rightarrow> fs \<Rightarrow> fs option" where
  "free_map_init got_struct storage s = do {
     r \<leftarrow> bitmap_create got_struct storage (b_size (fs_device s));
     b \<leftarrow> r;
     b \<leftarrow> bitmap_mark b FREE_MAP_SECTOR;
     b \<leftarrow> bitmap_mark b ROOT_DIR_SECTOR;
     Some (s\<lparr>free_map := b\<rparr>)
   }"

text \<open>The result is the first sector, when there is one.\<close>

definition free_map_allocate :: "nat \<Rightarrow> fs \<Rightarrow> (nat option \<times> fs) option" where
  "free_map_allocate cnt s = do {
     (sector, b) \<leftarrow> bitmap_scan_and_flip (free_map s) 0 cnt False;
     let s = s\<lparr>free_map := b\<rparr>;
     (ok, s) \<leftarrow> (if sector \<noteq> BITMAP_ERROR \<and> free_map_file s \<noteq> NULL then write_free_map s else Some (True, s));
     if \<not> ok then do {
       b \<leftarrow> bitmap_set_multiple (free_map s) sector cnt False;
       Some (None, s\<lparr>free_map := b\<rparr>)
     } else Some (if sector \<noteq> BITMAP_ERROR then Some sector else None, s)
   }"

definition free_map_release :: "nat \<Rightarrow> nat \<Rightarrow> fs \<Rightarrow> fs option" where
  "free_map_release sector cnt s = do {
     used \<leftarrow> bitmap_all (free_map s) sector cnt;
     ASSERT used;
     b \<leftarrow> bitmap_set_multiple (free_map s) sector cnt False;
     (_, s) \<leftarrow> write_free_map (s\<lparr>free_map := b\<rparr>);
     Some s
   }"

fun zero_sectors :: "nat list \<Rightarrow> fs \<Rightarrow> fs option" where
  "zero_sectors [] s = Some s"
| "zero_sectors (i # is) s = do { s \<leftarrow> block_write i (replicate 512 0) s; zero_sectors is s }"

definition inode_create :: "nat \<Rightarrow> int \<Rightarrow> fs \<Rightarrow> (bool \<times> fs) option" where
  "inode_create sector len s = do {
     ASSERT (len \<ge> 0);
     case alloc s of (p, s) \<Rightarrow>
       if p = NULL then Some (False, s)
       else do {
         let cnt = bytes_to_sectors len;
         (r, s) \<leftarrow> free_map_allocate cnt s;
         case r of
           None \<Rightarrow> Some (False, s)
         | Some start \<Rightarrow> do {
             s \<leftarrow> block_write sector (encode_inode \<lparr>d_start = start, d_length = len, d_magic = INODE_MAGIC\<rparr>) s;
             s \<leftarrow> zero_sectors [start..<start + cnt] s;
             Some (True, s)
           }
       }
   }"

definition inode_close :: "ptr \<Rightarrow> fs \<Rightarrow> fs option" where
  "inode_close p s =
     (if p = NULL then Some s
      else do {
        ino \<leftarrow> inodes s p;
        let ino = ino\<lparr>open_cnt := open_cnt ino - 1\<rparr>;
        let s = s\<lparr>inodes := (inodes s)(p \<mapsto> ino)\<rparr>;
        if open_cnt ino = 0 then do {
          ASSERT (p \<in> set (open_inodes s));
          let s = s\<lparr>open_inodes := remove1 p (open_inodes s)\<rparr>;
          s \<leftarrow> (if removed ino then do {
              s \<leftarrow> free_map_release (i_sector ino) 1 s;
              free_map_release (d_start (i_data ino)) (bytes_to_sectors (d_length (i_data ino))) s
            } else Some s);
          Some (s\<lparr>inodes := (inodes s)(p := None)\<rparr>)
        } else Some s
      })"

subsection \<open>Files\<close>

definition file_open :: "ptr \<Rightarrow> fs \<Rightarrow> (ptr \<times> fs) option" where
  "file_open p s =
     (case alloc s of (f, s) \<Rightarrow>
        if p \<noteq> NULL \<and> f \<noteq> NULL
        then Some (f, s\<lparr>files := (files s)(f \<mapsto> \<lparr>f_inode = p, f_pos = 0, deny_write = False\<rparr>)\<rparr>)
        else do {
          s \<leftarrow> inode_close p s;
          Some (NULL, s)
        })"

definition file_reopen :: "ptr \<Rightarrow> fs \<Rightarrow> (ptr \<times> fs) option" where
  "file_reopen f s = do {
     fl \<leftarrow> files s f;
     (p, s) \<leftarrow> inode_reopen (f_inode fl) s;
     file_open p s
   }"

definition file_deny_write :: "ptr \<Rightarrow> fs \<Rightarrow> fs option" where
  "file_deny_write f s = do {
     fl \<leftarrow> files s f;
     if \<not> deny_write fl then inode_deny_write (f_inode fl) (s\<lparr>files := (files s)(f \<mapsto> fl\<lparr>deny_write := True\<rparr>)\<rparr>)
     else Some s
   }"

definition file_allow_write :: "ptr \<Rightarrow> fs \<Rightarrow> fs option" where
  "file_allow_write f s = do {
     fl \<leftarrow> files s f;
     if deny_write fl then inode_allow_write (f_inode fl) (s\<lparr>files := (files s)(f \<mapsto> fl\<lparr>deny_write := False\<rparr>)\<rparr>)
     else Some s
   }"

definition file_close :: "ptr \<Rightarrow> fs \<Rightarrow> fs option" where
  "file_close f s =
     (if f \<noteq> NULL then do {
        s \<leftarrow> file_allow_write f s;
        fl \<leftarrow> files s f;
        s \<leftarrow> inode_close (f_inode fl) s;
        Some (s\<lparr>files := (files s)(f := None)\<rparr>)
      } else Some s)"

definition file_get_inode :: "ptr \<Rightarrow> fs \<Rightarrow> ptr option" where
  "file_get_inode f s = map_option f_inode (files s f)"

definition file_read :: "ptr \<Rightarrow> int \<Rightarrow> fs \<Rightarrow> (u8 list \<times> fs) option" where
  "file_read f n s = do {
     fl \<leftarrow> files s f;
     (bs, s) \<leftarrow> inode_read_at (f_inode fl) n (f_pos fl) s;
     Some (bs, s\<lparr>files := (files s)(f \<mapsto> fl\<lparr>f_pos := f_pos fl + int (length bs)\<rparr>)\<rparr>)
   }"

definition file_write :: "ptr \<Rightarrow> u8 list \<Rightarrow> int \<Rightarrow> fs \<Rightarrow> (nat \<times> fs) option" where
  "file_write f buf n s = do {
     fl \<leftarrow> files s f;
     (written, s) \<leftarrow> inode_write_at (f_inode fl) buf n (f_pos fl) s;
     Some (written, s\<lparr>files := (files s)(f \<mapsto> fl\<lparr>f_pos := f_pos fl + int written\<rparr>)\<rparr>)
   }"

definition file_length :: "ptr \<Rightarrow> fs \<Rightarrow> int option" where
  "file_length f s = do { fl \<leftarrow> files s f; map_option inode_length (inodes s (f_inode fl)) }"

definition file_seek :: "ptr \<Rightarrow> int \<Rightarrow> fs \<Rightarrow> fs option" where
  "file_seek f new_pos s = do {
     fl \<leftarrow> files s f;
     ASSERT (new_pos \<ge> 0);
     Some (s\<lparr>files := (files s)(f \<mapsto> fl\<lparr>f_pos := new_pos\<rparr>)\<rparr>)
   }"

definition file_tell :: "ptr \<Rightarrow> fs \<Rightarrow> int option" where
  "file_tell f s = map_option f_pos (files s f)"

subsection \<open>Start and end\<close>

definition free_map_open :: "fs \<Rightarrow> fs option" where
  "free_map_open s = do {
     (p, s) \<leftarrow> inode_open FREE_MAP_SECTOR s;
     (f, s) \<leftarrow> file_open p s;
     let s = s\<lparr>free_map_file := f\<rparr>;
     ASSERT (f \<noteq> NULL);
     (ok, s) \<leftarrow> read_free_map s;
     ASSERT ok;
     Some s
   }"

definition free_map_close :: "fs \<Rightarrow> fs option" where
  "free_map_close s = file_close (free_map_file s) s"

definition free_map_create :: "fs \<Rightarrow> fs option" where
  "free_map_create s = do {
     (ok, s) \<leftarrow> inode_create FREE_MAP_SECTOR (int (bitmap_file_size (free_map s))) s;
     ASSERT ok;
     (p, s) \<leftarrow> inode_open FREE_MAP_SECTOR s;
     (f, s) \<leftarrow> file_open p s;
     let s = s\<lparr>free_map_file := f\<rparr>;
     ASSERT (f \<noteq> NULL);
     (ok, s) \<leftarrow> write_free_map s;
     ASSERT ok;
     Some s
   }"


section \<open>The bytes of an inode\<close>

definition start_of :: "inode \<Rightarrow> nat" where
  "start_of ino = d_start (i_data ino)"

definition inode_ok :: "fs \<Rightarrow> inode \<Rightarrow> bool" where
  "inode_ok s ino \<longleftrightarrow> 0 \<le> inode_length ino \<and> b_size (fs_device s) < 2 ^ 32 \<and> \<not> foreign (fs_device s) \<and>
     inode_length ino \<le> 512 * int (b_size (fs_device s) - start_of ino) \<and>
     (\<forall>i. length (sectors (fs_device s) i) = 512)"

definition byte_at :: "fs \<Rightarrow> inode \<Rightarrow> nat \<Rightarrow> u8" where
  "byte_at s ino p = sectors (fs_device s) (start_of ino + p div 512) ! (p mod 512)"

definition contents :: "fs \<Rightarrow> inode \<Rightarrow> u8 list" where
  "contents s ino = map (byte_at s ino) [0..<nat (inode_length ino)]"

lemma length_contents [simp]: "length (contents s ino) = nat (inode_length ino)"
  and nth_contents: "p < nat (inode_length ino) \<Longrightarrow> contents s ino ! p = byte_at s ino p"
  by (simp_all add: contents_def)

text \<open>How many bytes a step transfers, and where.\<close>

lemma chunk_eq:
  "chunk_size ino n (int ofs) = min n (min (inode_length ino - int ofs) (int (512 - ofs mod 512)))"
  "crem (int ofs) 512 = int (ofs mod 512)"
  "sector_left (int ofs) = int (512 - ofs mod 512)"
proof -
  show rem: "crem (int ofs) 512 = int (ofs mod 512)"
    by (cases "ofs = 0") (auto simp: crem_def zmod_int)
  have "ofs mod 512 < 512" by simp
  then show left: "sector_left (int ofs) = int (512 - ofs mod 512)"
    unfolding sector_left_def BLOCK_SECTOR_SIZE_def rem by (simp add: of_nat_diff)
  show "chunk_size ino n (int ofs) = min n (min (inode_length ino - int ofs) (int (512 - ofs mod 512)))"
    unfolding chunk_size_def left by (auto simp: Let_def min_def)
qed

lemma byte_to_sector_eq:
  assumes "inode_ok s ino" and "int ofs < inode_length ino"
  shows "byte_to_sector ino (int ofs) = start_of ino + ofs div 512"
    and "start_of ino + ofs div 512 < b_size (fs_device s)"
proof -
  have "int ofs < 512 * int (b_size (fs_device s) - start_of ino)"
    using assms by (simp add: inode_ok_def)
  then have "ofs div 512 < b_size (fs_device s) - start_of ino"
    by (simp add: div_less_iff_less_mult nat_less_iff mult.commute flip: of_nat_mult)
  then show *: "start_of ino + ofs div 512 < b_size (fs_device s)" by simp
  have "cdiv (int ofs) BLOCK_SECTOR_SIZE = int (ofs div 512)"
    by (cases "ofs = 0") (auto simp: cdiv_def BLOCK_SECTOR_SIZE_def zdiv_int)
  moreover have "(int (start_of ino) + int (ofs div 512)) mod 2 ^ 32 = int (start_of ino + ofs div 512)"
    using * assms(1) by (simp add: inode_ok_def mod_pos_pos_trivial)
  ultimately show "byte_to_sector ino (int ofs) = start_of ino + ofs div 512"
    using assms(2) by (simp add: byte_to_sector_def start_of_def inode_length_def)
qed

lemma same_sector: "i < 512 - ofs mod 512 \<Longrightarrow> (ofs + i) div 512 = ofs div 512 \<and> (ofs + i) mod 512 = ofs mod 512 + (i::nat)"
proof -
  assume "i < 512 - ofs mod 512"
  then have lt: "ofs mod 512 + i < 512" by simp
  have "ofs + i = (ofs mod 512 + i) + 512 * (ofs div 512)" by simp
  then have "(ofs + i) div 512 = ofs div 512 + (ofs mod 512 + i) div 512" "(ofs + i) mod 512 = (ofs mod 512 + i) mod 512"
    by (simp_all only: div_mult_self2 mod_mult_self2 zero_neq_numeral not_False_eq_True)
  with lt show ?thesis by simp
qed

lemma sector_chunk:
  assumes "inode_ok s ino" and "int ofs + int k \<le> inode_length ino" and "k \<le> 512 - ofs mod 512"
  shows "take k (drop (ofs mod 512) (sectors (fs_device s) (start_of ino + ofs div 512))) = take k (drop ofs (contents s ino))"
proof (rule nth_equalityI)
  have len: "length (sectors (fs_device s) j) = 512" for j using assms(1) by (simp add: inode_ok_def)
  show "length (take k (drop (ofs mod 512) (sectors (fs_device s) (start_of ino + ofs div 512)))) =
      length (take k (drop ofs (contents s ino)))"
    using assms len by (simp add: contents_def)
  fix i assume "i < length (take k (drop (ofs mod 512) (sectors (fs_device s) (start_of ino + ofs div 512))))"
  then have "i < k" by simp
  then show "take k (drop (ofs mod 512) (sectors (fs_device s) (start_of ino + ofs div 512))) ! i =
      take k (drop ofs (contents s ino)) ! i"
    using assms len same_sector [of i ofs] by (simp add: contents_def byte_at_def)
qed


subsection \<open>Reading\<close>

definition same_disk :: "fs \<Rightarrow> fs \<Rightarrow> bool" where
  "same_disk s s' \<longleftrightarrow> sectors (fs_device s') = sectors (fs_device s) \<and> b_size (fs_device s') = b_size (fs_device s) \<and>
     foreign (fs_device s') = foreign (fs_device s)"

definition memory_left :: "bool \<Rightarrow> fs \<Rightarrow> bool" where
  "memory_left bounce s \<longleftrightarrow> bounce \<or> (\<exists>q qs. allocs s = q # qs \<and> q \<noteq> NULL)"

lemma same_diskD:
  assumes "same_disk s s'"
  shows "contents s' = contents s" and "inode_ok s' = inode_ok s" and "byte_at s' = byte_at s"
  using assms by (auto simp: same_disk_def contents_def byte_at_def inode_ok_def fun_eq_iff)

lemma need_bounce_eq:
  assumes "memory_left bounce s"
  obtains s' where "need_bounce bounce s = (True, s')" and "fs_device s' = fs_device s" and "inodes s' = inodes s"
    and "allocs s' = (if bounce then allocs s else tl (allocs s))"
  using assms by (cases bounce) (auto simp: memory_left_def need_bounce_def alloc_def)

lemma read_step:
  assumes "inode_ok s ino" and "memory_left bounce s" and "0 < n" and "int ofs < inode_length ino"
  obtains k b s' where "0 < k" and "int k \<le> n" and "memory_left b s'" and "same_disk s s'" and "inodes s' = inodes s"
    and "read_loop ino n (int ofs) out bounce s =
      read_loop ino (n - int k) (int (ofs + k)) (out @ take k (drop ofs (contents s ino))) b s'"
proof -
  define k where "k = nat (chunk_size ino n (int ofs))"
  have "0 < 512 - ofs mod 512" by simp
  then have chunk: "chunk_size ino n (int ofs) = int k" "0 < k" "int k \<le> n" "int ofs + int k \<le> inode_length ino"
    "k \<le> 512 - ofs mod 512"
    using assms(3,4) unfolding k_def chunk_eq(1) by auto
  note sec = byte_to_sector_eq [OF assms(1,4)]
  let ?d = "sectors (fs_device s) (start_of ino + ofs div 512)"
  have data: "take k (drop (ofs mod 512) ?d) = take k (drop ofs (contents s ino))"
    using sector_chunk [OF assms(1) chunk(4,5)] .
  have len: "length ?d = 512" using assms(1) by (simp add: inode_ok_def)
  let ?bump = "\<lambda>s. s\<lparr>fs_device := (fs_device s)\<lparr>read_cnt := read_cnt (fs_device s) + 1\<rparr>\<rparr>"
  show ?thesis
  proof (cases "ofs mod 512 = 0 \<and> k = 512")
    case True
    then have "?d = take k (drop ofs (contents s ino))" using data len by simp
    with True chunk sec assms(3) have "read_loop ino n (int ofs) out bounce s =
        read_loop ino (n - int k) (int (ofs + k)) (out @ take k (drop ofs (contents s ino))) bounce (?bump s)"
      by (subst read_loop.simps) (simp add: chunk_eq(2) block_read_def BLOCK_SECTOR_SIZE_def Let_def)
    then show ?thesis using chunk(2,3) assms(2) by (intro that [of k bounce "?bump s"]) (auto simp: same_disk_def memory_left_def)
  next
    case False
    obtain s1 where s1: "need_bounce bounce s = (True, s1)" "fs_device s1 = fs_device s" "inodes s1 = inodes s"
      using need_bounce_eq [OF assms(2)] by metis
    have "\<not> (int (ofs mod 512) = 0 \<and> int k = 512)" using False by auto
    with chunk sec assms(3) s1 have "read_loop ino n (int ofs) out bounce s =
        read_loop ino (n - int k) (int (ofs + k)) (out @ take k (drop (ofs mod 512) ?d)) True (?bump s1)"
      by (subst read_loop.simps) (auto simp: chunk_eq(2) block_read_def BLOCK_SECTOR_SIZE_def Let_def)
    then show ?thesis
      using chunk(2,3) s1 unfolding data by (intro that [of k True "?bump s1"]) (auto simp: same_disk_def memory_left_def)
  qed
qed

lemma read_end: "n \<le> 0 \<or> inode_length ino \<le> int ofs \<Longrightarrow> read_loop ino n (int ofs) out bounce s = Some (out, s)"
  by (subst read_loop.simps) (auto simp: chunk_eq(1) Let_def)

lemma read_loop_spec:
  "inode_ok s ino \<Longrightarrow> memory_left bounce s \<Longrightarrow>
   \<exists>s'. read_loop ino n (int ofs) out bounce s = Some (out @ take (nat n) (drop ofs (contents s ino)), s') \<and>
     same_disk s s' \<and> inodes s' = inodes s"
proof (induction "nat n" arbitrary: n ofs out bounce s rule: less_induct)
  case less
  show ?case
  proof (cases "n \<le> 0 \<or> inode_length ino \<le> int ofs")
    case True
    then show ?thesis by (auto simp: read_end contents_def same_disk_def)
  next
    case False
    then obtain k b s1 where step: "0 < k" "int k \<le> n" "memory_left b s1" "same_disk s s1" "inodes s1 = inodes s"
      "read_loop ino n (int ofs) out bounce s =
      read_loop ino (n - int k) (int (ofs + k)) (out @ take k (drop ofs (contents s ino))) b s1"
      using read_step [OF less.prems, of n ofs out] by (auto simp del: of_nat_add)
    note same = same_diskD [OF step(4)]
    have "nat (n - int k) < nat n" using step(1,2) by linarith
    from less.hyps [OF this _ step(3)] less.prems(1) same obtain s2 where s2:
      "read_loop ino (n - int k) (int (ofs + k)) (out @ take k (drop ofs (contents s ino))) b s1 =
       Some ((out @ take k (drop ofs (contents s ino))) @ take (nat (n - int k)) (drop (ofs + k) (contents s ino)), s2)"
      "same_disk s1 s2" "inodes s2 = inodes s1" by metis
    have "nat n = k + nat (n - int k)" using step(1,2) by linarith
    then have "take (nat n) (drop ofs (contents s ino)) =
        take k (drop ofs (contents s ino)) @ take (nat (n - int k)) (drop (ofs + k) (contents s ino))"
      by (simp only: take_add drop_drop add.commute)
    with s2 step show ?thesis by (simp add: same_disk_def)
  qed
qed


subsection \<open>Writing\<close>

lemma splice_nth:
  assumes "i + k \<le> length d" and "length bs = k"
  shows "(take i d @ bs @ drop (i + k) d) ! r = (if i \<le> r \<and> r < i + k then bs ! (r - i) else d ! r)"
  using assms by (auto simp: nth_append not_less)

lemma byte_at_write:
  assumes "inode_ok s ino" and "length bs = k" and "k \<le> 512 - ofs mod 512"
    and "sectors (fs_device s') = (sectors (fs_device s))(start_of ino + ofs div 512 :=
      take (ofs mod 512) (sectors (fs_device s) (start_of ino + ofs div 512)) @ bs @
      drop (ofs mod 512 + k) (sectors (fs_device s) (start_of ino + ofs div 512)))"
  shows "byte_at s' ino p = (if ofs \<le> p \<and> p < ofs + k then bs ! (p - ofs) else byte_at s ino p)"
    and "length (sectors (fs_device s') i) = 512"
proof -
  have len: "length (sectors (fs_device s) j) = 512" for j using assms(1) by (simp add: inode_ok_def)
  have lt: "ofs mod 512 < 512" by simp
  then have fits: "ofs mod 512 + k \<le> 512" using assms(3) by linarith
  show "length (sectors (fs_device s') i) = 512" using len fits by (simp add: assms(2,4))
  show "byte_at s' ino p = (if ofs \<le> p \<and> p < ofs + k then bs ! (p - ofs) else byte_at s ino p)"
  proof (cases "p div 512 = ofs div 512")
    case True
    then have p: "p + ofs mod 512 = ofs + p mod 512"
      by (metis add.commute add.left_commute mult_div_mod_eq)
    have "ofs \<le> p \<longleftrightarrow> ofs mod 512 \<le> p mod 512" "p < ofs + k \<longleftrightarrow> p mod 512 < ofs mod 512 + k"
      "ofs \<le> p \<Longrightarrow> p - ofs = p mod 512 - ofs mod 512" using p by linarith+
    moreover have "byte_at s' ino p = (if ofs mod 512 \<le> p mod 512 \<and> p mod 512 < ofs mod 512 + k
        then bs ! (p mod 512 - ofs mod 512) else byte_at s ino p)"
      unfolding byte_at_def assms(4) True using splice_nth [OF _ assms(2), of "ofs mod 512" _ "p mod 512"] fits len by simp
    ultimately show ?thesis by simp
  next
    case False
    have "\<not> (ofs \<le> p \<and> p < ofs + k)"
    proof
      assume "ofs \<le> p \<and> p < ofs + k"
      then have "p div 512 = ofs div 512" using same_sector [of "p - ofs" ofs] assms(3) by auto
      with False show False ..
    qed
    then show ?thesis using False by (auto simp: byte_at_def assms(4))
  qed
qed

lemma case_bind: "(case x of None \<Rightarrow> None | Some y \<Rightarrow> f y) = do { y \<leftarrow> x; f y }"
  by (cases x) simp_all

lemma write_unfold:
  assumes "0 < n" and "chunk_size ino n (int ofs) = int k" and "0 < k" and "length (take k (drop w buf)) = k"
    and "byte_to_sector ino (int ofs) = sec"
  shows "write_loop ino buf n (int ofs) w bounce s =
    (if ofs mod 512 = 0 \<and> k = 512 then
       do { s \<leftarrow> block_write sec (take k (drop w buf)) s;
            write_loop ino buf (n - int k) (int (ofs + k)) (w + k) bounce s }
     else (case need_bounce bounce s of (ok, s) \<Rightarrow> if \<not> ok then Some (w, s) else do {
       (b, s) \<leftarrow> (if 0 < ofs mod 512 \<or> int k < sector_left (int ofs) then block_read sec s else Some (replicate 512 0, s));
       s \<leftarrow> block_write sec (take (ofs mod 512) b @ take k (drop w buf) @ drop (ofs mod 512 + k) b) s;
       write_loop ino buf (n - int k) (int (ofs + k)) (w + k) True s }))"
proof -
  have eqs: "(int (ofs mod 512) = 0 \<and> int k = 512) = (ofs mod 512 = 0 \<and> k = 512)" "(0 < int (ofs mod 512)) = (0 < ofs mod 512)"
    "\<not> (n \<le> 0 \<or> int k \<le> 0)" "nat (int (ofs mod 512)) = ofs mod 512" "nat (int k) = k" "nat 512 = 512" "\<not> k < k"
    "int ofs + int k = int (ofs + k)"
    using assms(1,3) by auto
  show ?thesis
    by (subst write_loop.simps)
      (simp only: Let_def assms(2,5) chunk_eq(2) BLOCK_SECTOR_SIZE_def eqs assms(4) if_False case_bind)
qed

lemma write_step:
  assumes "inode_ok s ino" and "memory_left bounce s" and "0 < n" and "int ofs < inode_length ino" and "w + nat n \<le> length buf"
  obtains k b s' where "0 < k" and "int k \<le> n" and "int ofs + int k \<le> inode_length ino" and "memory_left b s'"
    and "inode_ok s' ino" and "inodes s' = inodes s"
    and "allocs s' = (if b \<and> \<not> bounce then tl (allocs s) else allocs s)" and "bounce \<Longrightarrow> b"
    and "\<And>p. byte_at s' ino p = (if ofs \<le> p \<and> p < ofs + k then buf ! (w + (p - ofs)) else byte_at s ino p)"
    and "write_loop ino buf n (int ofs) w bounce s = write_loop ino buf (n - int k) (int (ofs + k)) (w + k) b s'"
proof -
  define k where "k = nat (chunk_size ino n (int ofs))"
  have "0 < 512 - ofs mod 512" by simp
  then have chunk: "chunk_size ino n (int ofs) = int k" "0 < k" "int k \<le> n" "int ofs + int k \<le> inode_length ino"
    "k \<le> 512 - ofs mod 512"
    using assms(3,4) unfolding k_def chunk_eq(1) by auto
  define bs where "bs = take k (drop w buf)"
  have bs: "length bs = k" "\<And>i. i < k \<Longrightarrow> bs ! i = buf ! (w + i)" using assms(5) chunk(3) by (auto simp: bs_def)
  note sec = byte_to_sector_eq [OF assms(1,4)]
  let ?d = "sectors (fs_device s) (start_of ino + ofs div 512)"
  let ?new = "take (ofs mod 512) ?d @ bs @ drop (ofs mod 512 + k) ?d"
  let ?put = "\<lambda>s. s\<lparr>fs_device := (fs_device s)\<lparr>sectors := (sectors (fs_device s))(start_of ino + ofs div 512 := ?new),
        write_cnt := write_cnt (fs_device s) + 1\<rparr>\<rparr>"
  let ?bump = "\<lambda>s. s\<lparr>fs_device := (fs_device s)\<lparr>read_cnt := read_cnt (fs_device s) + 1\<rparr>\<rparr>"
  have len: "length ?d = 512" and dev: "\<not> foreign (fs_device s)" using assms(1) by (simp_all add: inode_ok_def)
  have post: "inode_ok s' ino \<and> (\<forall>p. byte_at s' ino p = (if ofs \<le> p \<and> p < ofs + k then buf ! (w + (p - ofs)) else byte_at s ino p))"
    if "sectors (fs_device s') = (sectors (fs_device s))(start_of ino + ofs div 512 := ?new)"
      "b_size (fs_device s') = b_size (fs_device s)" "foreign (fs_device s') = foreign (fs_device s)" for s'
    using byte_at_write [OF assms(1) bs(1) chunk(5) that(1)] bs(2) assms(1) that(2,3) by (auto simp: inode_ok_def)
  note unfold = write_unfold [OF assms(3) chunk(1,2) bs(1) [unfolded bs_def] sec(1), folded bs_def]
  show ?thesis
  proof (cases "ofs mod 512 = 0 \<and> k = 512")
    case True
    then have "?new = bs" using len by simp
    with True sec(2) dev have "write_loop ino buf n (int ofs) w bounce s =
        write_loop ino buf (n - int k) (int (ofs + k)) (w + k) bounce (?put s)"
      unfolding unfold by (simp add: block_write_def)
    then show ?thesis using chunk(2-4) assms(2) post [of "?put s"]
      by (intro that [of k bounce "?put s"]) (auto simp: memory_left_def)
  next
    case False
    obtain s1 where s1: "need_bounce bounce s = (True, s1)" "fs_device s1 = fs_device s" "inodes s1 = inodes s"
      "allocs s1 = (if bounce then allocs s else tl (allocs s))"
      using need_bounce_eq [OF assms(2)] by metis
    have part: "0 < ofs mod 512 \<or> int k < sector_left (int ofs)" using False chunk(5) unfolding chunk_eq(3) by auto
    with False sec(2) s1(1,2) dev have "write_loop ino buf n (int ofs) w bounce s =
        write_loop ino buf (n - int k) (int (ofs + k)) (w + k) True (?put (?bump s1))"
      unfolding unfold by (auto simp: block_write_def block_read_def)
    then show ?thesis
      using chunk(2-4) s1 post [of "?put (?bump s1)"] by (intro that [of k True "?put (?bump s1)"]) (auto simp: memory_left_def)
  qed
qed


lemma write_end: "n \<le> 0 \<or> inode_length ino \<le> int ofs \<Longrightarrow> write_loop ino buf n (int ofs) w bounce s = Some (w, s)"
  by (subst write_loop.simps) (auto simp: chunk_eq(1) Let_def)

lemma write_loop_spec:
  "inode_ok s ino \<Longrightarrow> memory_left bounce s \<Longrightarrow> w + nat n \<le> length buf \<Longrightarrow>
   \<exists>s' b. write_loop ino buf n (int ofs) w bounce s = Some (w + min (nat n) (nat (inode_length ino) - ofs), s') \<and>
     inode_ok s' ino \<and> inodes s' = inodes s \<and> allocs s' = (if b \<and> \<not> bounce then tl (allocs s) else allocs s) \<and>
     (\<forall>p < nat (inode_length ino). byte_at s' ino p =
        (if ofs \<le> p \<and> p < ofs + nat n then buf ! (w + (p - ofs)) else byte_at s ino p))"
proof (induction "nat n" arbitrary: n ofs w bounce s rule: less_induct)
  case less
  show ?case
  proof (cases "n \<le> 0 \<or> inode_length ino \<le> int ofs")
    case True
    then show ?thesis using less.prems by (auto simp: write_end)
  next
    case False
    then obtain k b s1 where step: "0 < k" "int k \<le> n" "int ofs + int k \<le> inode_length ino" "memory_left b s1"
      "inode_ok s1 ino" "inodes s1 = inodes s" "allocs s1 = (if b \<and> \<not> bounce then tl (allocs s) else allocs s)" "bounce \<Longrightarrow> b"
      "\<And>p. byte_at s1 ino p = (if ofs \<le> p \<and> p < ofs + k then buf ! (w + (p - ofs)) else byte_at s ino p)"
      "write_loop ino buf n (int ofs) w bounce s = write_loop ino buf (n - int k) (int (ofs + k)) (w + k) b s1"
      using write_step [OF less.prems(1,2) _ _ less.prems(3), of ofs] by (auto simp del: of_nat_add)
    have n: "nat (n - int k) < nat n" "nat n = k + nat (n - int k)" using step(1,2) by linarith+
    have "w + k + nat (n - int k) \<le> length buf" using less.prems(3) n(2) by simp
    from less.hyps [OF n(1) step(5,4) this, of "ofs + k"] obtain s2 b2 where s2:
      "write_loop ino buf (n - int k) (int (ofs + k)) (w + k) b s1 =
        Some (w + k + min (nat (n - int k)) (nat (inode_length ino) - (ofs + k)), s2)"
      "inode_ok s2 ino" "inodes s2 = inodes s1" "allocs s2 = (if b2 \<and> \<not> b then tl (allocs s1) else allocs s1)"
      "\<forall>p < nat (inode_length ino). byte_at s2 ino p =
        (if ofs + k \<le> p \<and> p < ofs + k + nat (n - int k) then buf ! (w + k + (p - (ofs + k))) else byte_at s1 ino p)"
      by blast
    have cnt: "w + k + min (nat (n - int k)) (nat (inode_length ino) - (ofs + k)) = w + min (nat n) (nat (inode_length ino) - ofs)"
      using n(2) step(3) by linarith
    have bytes: "byte_at s2 ino p = (if ofs \<le> p \<and> p < ofs + nat n then buf ! (w + (p - ofs)) else byte_at s ino p)"
      if "p < nat (inode_length ino)" for p
      using s2(5) [rule_format, OF that] step(9) [of p] n(2) by (auto simp: not_le not_less)
    have "allocs s2 = (if (b \<or> b2) \<and> \<not> bounce then tl (allocs s) else allocs s)"
      using s2(4) step(7,8) by (auto split: if_splits)
    with s2 step bytes cnt show ?thesis by metis
  qed
qed

section \<open>Properties\<close>

text \<open>
  C38. An inode behaves as an array of bytes. When writing is not denied and memory for the bounce buffers can be had, a write at any position
  returns, stores as many bytes of the buffer as fit in front of the end of the file, and changes no other byte of the
  file; a read afterwards, of any length at any position, returns exactly the bytes of the file from there on, up to its
  end.
\<close>

theorem inode_refines_bytes:
  assumes "inodes s ip = Some ino" and "inode_ok s ino" and "deny_write_cnt ino = 0" and "0 \<le> n" and "nat n \<le> length buf"
    and "allocs s = q # q' # qs" and "q \<noteq> NULL" and "q' \<noteq> NULL"
    and k: "k = min (nat n) (length (contents s ino) - ofs)"
  shows "\<exists>s'. inode_write_at ip buf n (int ofs) s = Some (k, s') \<and>
    contents s' ino = take ofs (contents s ino) @ take k buf @ drop (ofs + k) (contents s ino) \<and>
    (\<forall>m i. \<exists>s''. inode_read_at ip m (int i) s' = Some (take (nat m) (drop i (contents s' ino)), s''))"
proof -
  have "memory_left False s" using assms(6,7) by (simp add: memory_left_def)
  from write_loop_spec [OF assms(2) this, of 0 n buf ofs] assms(5) obtain s' b where s':
    "write_loop ino buf n (int ofs) 0 False s = Some (k, s')" "inode_ok s' ino" "inodes s' = inodes s"
    "allocs s' = (if b then tl (allocs s) else allocs s)"
    "\<And>p. p < nat (inode_length ino) \<Longrightarrow> byte_at s' ino p = (if ofs \<le> p \<and> p < ofs + nat n then buf ! (p - ofs) else byte_at s ino p)"
    by (auto simp: k)
  have "contents s' ino = take ofs (contents s ino) @ take k buf @ drop (ofs + k) (contents s ino)"
  proof (cases "ofs \<le> nat (inode_length ino)")
    case True
    then have fits: "ofs + k \<le> length (contents s ino)" "length (take k buf) = k" using assms(5) by (auto simp: k)
    show ?thesis
    proof (rule nth_equalityI)
      show "length (contents s' ino) = length (take ofs (contents s ino) @ take k buf @ drop (ofs + k) (contents s ino))"
        using fits by simp
      fix p assume "p < length (contents s' ino)"
      then have p: "p < nat (inode_length ino)" by simp
      then have "p < ofs + k \<longleftrightarrow> p < ofs + nat n" by (auto simp: k)
      with s'(5) [OF p] splice_nth [OF fits, of p] p
      show "contents s' ino ! p = (take ofs (contents s ino) @ take k buf @ drop (ofs + k) (contents s ino)) ! p"
        by (auto simp: nth_contents)
    qed
  next
    case False
    then show ?thesis using s'(5) by (auto simp: k nth_contents intro!: nth_equalityI)
  qed
  moreover have "memory_left False s'" using s'(4) assms(6-8) by (auto simp: memory_left_def)
  then have "\<exists>s''. inode_read_at ip m (int i) s' = Some (take (nat m) (drop i (contents s' ino)), s'')" for m i
    using read_loop_spec [OF s'(2), of False m i "[]"] assms(1) s'(3) by (auto simp: inode_read_at_def)
  ultimately show ?thesis using s'(1) assms(1,3) by (auto simp: inode_write_at_def)
qed

theorem inode_refines_bytes_witness:
  "\<exists>s'. inode_write_at 8 [1, 2, 3, 4] 4 510
     \<lparr>fs_device = \<lparr>b_size = 8, foreign = False, sectors = (\<lambda>_. replicate 512 0), read_cnt = 0, write_cnt = 0\<rparr>,
      free_map = \<lparr>bit_cnt = 0, bits = []\<rparr>, free_map_file = 0, open_inodes = [8],
      inodes = [8 \<mapsto> \<lparr>i_sector = 2, open_cnt = 1, removed = False, deny_write_cnt = 0,
        i_data = \<lparr>d_start = 3, d_length = 1000, d_magic = INODE_MAGIC\<rparr>\<rparr>],
      files = (\<lambda>_. None), allocs = [16, 24]\<rparr> = Some (4, s')"
proof -
  let ?ino = "\<lparr>i_sector = 2, open_cnt = 1, removed = False, deny_write_cnt = 0,
        i_data = \<lparr>d_start = 3, d_length = 1000, d_magic = INODE_MAGIC\<rparr>\<rparr> :: inode"
  let ?s = "\<lparr>fs_device = \<lparr>b_size = 8, foreign = False, sectors = (\<lambda>_. replicate 512 0), read_cnt = 0, write_cnt = 0\<rparr>,
      free_map = \<lparr>bit_cnt = 0, bits = []\<rparr>, free_map_file = 0, open_inodes = [8],
      inodes = [8 \<mapsto> ?ino], files = (\<lambda>_. None), allocs = [16, 24]\<rparr> :: fs"
  have "inode_ok ?s ?ino" by (simp add: inode_ok_def inode_length_def start_of_def)
  moreover have "inodes ?s 8 = Some ?ino" "deny_write_cnt ?ino = 0" "allocs ?s = [16, 24]" by simp_all
  moreover have "4 = min (nat 4) (length (contents ?s ?ino) - 510)" by (simp add: inode_length_def)
  moreover have "nat 4 \<le> length [1 :: u8, 2, 3, 4]" "(0::int) \<le> 4" "(16::ptr) \<noteq> NULL" "(24::ptr) \<noteq> NULL" by simp_all
  ultimately have "\<exists>s'. inode_write_at 8 [1, 2, 3, 4] 4 (int 510) ?s = Some (4, s')"
    using inode_refines_bytes [of ?s 8 ?ino 4 "[1, 2, 3, 4]" 16 24 "[]" 4 510] by blast
  then show ?thesis by (simp only: of_nat_numeral)
qed

end
