(* ===== verification/Directory.thy ===== *)
theory Directory
  imports Inode
begin

text \<open>
  Directories (\<^verbatim>\<open>filesys/directory.c\<close>) and the operations on names (\<^verbatim>\<open>filesys/filesys.c\<close>). A directory entry is the 20
  bytes it has on disk. A name is given by its characters in front of the null byte.
\<close>

section \<open>The code\<close>

definition NAME_MAX :: nat where "NAME_MAX = 14"

record dir =
  dir_inode :: ptr
  dir_pos :: int

definition sizeof_entry :: nat where "sizeof_entry = 20"

definition e_sector :: "u8 list \<Rightarrow> nat" where "e_sector e = of_le (take 4 e)"
definition e_name :: "u8 list \<Rightarrow> u8 list" where "e_name e = take (NAME_MAX + 1) (drop 4 e)"
definition e_in_use :: "u8 list \<Rightarrow> bool" where "e_in_use e \<longleftrightarrow> e ! 19 \<noteq> 0"

text \<open>
  Comparison with the name field of an entry. A field without a null byte that agrees with the name throughout would
  make \<^verbatim>\<open>strcmp\<close> read past the field.
\<close>

definition name_matches :: "u8 list \<Rightarrow> u8 list \<Rightarrow> bool option" where
  "name_matches name field =
     (if 0 \<in> set field then Some (name = takeWhile (\<lambda>c. c \<noteq> 0) field)
      else if take (length field) name = field then None else Some False)"

definition dir_create :: "nat \<Rightarrow> nat \<Rightarrow> fs \<Rightarrow> (bool \<times> fs) option" where
  "dir_create sector entry_cnt s = inode_create sector (int (entry_cnt * sizeof_entry)) s"

definition dir_open :: "ptr \<Rightarrow> fs \<Rightarrow> (dir option \<times> fs) option" where
  "dir_open p s =
     (case alloc s of (d, s) \<Rightarrow>
        if p \<noteq> NULL \<and> d \<noteq> NULL then Some (Some \<lparr>dir_inode = p, dir_pos = 0\<rparr>, s)
        else do {
          s \<leftarrow> inode_close p s;
          Some (None, s)
        })"

definition dir_open_root :: "fs \<Rightarrow> (dir option \<times> fs) option" where
  "dir_open_root s = do {
     (p, s) \<leftarrow> inode_open ROOT_DIR_SECTOR s;
     dir_open p s
   }"

definition dir_reopen :: "dir \<Rightarrow> fs \<Rightarrow> (dir option \<times> fs) option" where
  "dir_reopen d s = do {
     (p, s) \<leftarrow> inode_reopen (dir_inode d) s;
     dir_open p s
   }"

definition dir_close :: "dir option \<Rightarrow> fs \<Rightarrow> fs option" where
  "dir_close d s = (case d of None \<Rightarrow> Some s | Some d \<Rightarrow> inode_close (dir_inode d) s)"

definition dir_get_inode :: "dir \<Rightarrow> ptr" where
  "dir_get_inode d = dir_inode d"

text \<open>The result is the entry and its offset, when there is one.\<close>

partial_function (option) dir_find :: "dir \<Rightarrow> u8 list \<Rightarrow> int \<Rightarrow> fs \<Rightarrow> ((u8 list \<times> int) option \<times> fs) option" where
  "dir_find d name ofs s = do {
     (e, s) \<leftarrow> inode_read_at (dir_inode d) (int sizeof_entry) ofs s;
     if length e = sizeof_entry then do {
       found \<leftarrow> (if e_in_use e then name_matches name (e_name e) else Some False);
       if found then Some (Some (e, ofs), s) else dir_find d name (ofs + int sizeof_entry) s
     } else Some (None, s)
   }"

definition lookup :: "dir \<Rightarrow> u8 list \<Rightarrow> fs \<Rightarrow> ((u8 list \<times> int) option \<times> fs) option" where
  "lookup d name s = dir_find d name 0 s"

definition dir_lookup :: "dir \<Rightarrow> u8 list \<Rightarrow> fs \<Rightarrow> (ptr \<times> fs) option" where
  "dir_lookup d name s = do {
     (r, s) \<leftarrow> lookup d name s;
     case r of Some (e, _) \<Rightarrow> inode_open (e_sector e) s | None \<Rightarrow> Some (NULL, s)
   }"

text \<open>The search for a free slot leaves in \<open>e\<close> what was read last, over what was there before.\<close>

partial_function (option) free_slot :: "dir \<Rightarrow> int \<Rightarrow> u8 list \<Rightarrow> fs \<Rightarrow> (int \<times> u8 list \<times> fs) option" where
  "free_slot d ofs e s = do {
     (bs, s) \<leftarrow> inode_read_at (dir_inode d) (int sizeof_entry) ofs s;
     let e = bs @ drop (length bs) e;
     if length bs = sizeof_entry \<and> e_in_use e then free_slot d (ofs + int sizeof_entry) e s
     else Some (ofs, e, s)
   }"

definition new_entry :: "nat \<Rightarrow> u8 list \<Rightarrow> u8 list \<Rightarrow> u8 list" where
  "new_entry inode_sector name e = le32 inode_sector @ (name @ [0] @ drop (length name + 1) (e_name e)) @ [1]"

text \<open>\<open>e\<close> is the uninitialised local variable.\<close>

definition dir_add :: "u8 list \<Rightarrow> dir \<Rightarrow> u8 list \<Rightarrow> nat \<Rightarrow> fs \<Rightarrow> (bool \<times> fs) option" where
  "dir_add e d name inode_sector s =
     (if name = [] \<or> length name > NAME_MAX then Some (False, s)
      else do {
        (r, s) \<leftarrow> lookup d name s;
        if r \<noteq> None then Some (False, s)
        else do {
          (ofs, e, s) \<leftarrow> free_slot d 0 e s;
          (written, s) \<leftarrow> inode_write_at (dir_inode d) (new_entry inode_sector name e) (int sizeof_entry) ofs s;
          Some (written = sizeof_entry, s)
        }
      })"

definition dir_remove :: "dir \<Rightarrow> u8 list \<Rightarrow> fs \<Rightarrow> (bool \<times> fs) option" where
  "dir_remove d name s = do {
     (r, s) \<leftarrow> lookup d name s;
     case r of
       None \<Rightarrow> Some (False, s)
     | Some (e, ofs) \<Rightarrow> do {
         (p, s) \<leftarrow> inode_open (e_sector e) s;
         if p = NULL then Some (False, s)
         else do {
           (written, s) \<leftarrow> inode_write_at (dir_inode d) (e[19 := 0]) (int sizeof_entry) ofs s;
           if written \<noteq> sizeof_entry then do {
             s \<leftarrow> inode_close p s;
             Some (False, s)
           } else do {
             s \<leftarrow> inode_remove p s;
             s \<leftarrow> inode_close p s;
             Some (True, s)
           }
         }
       }
   }"

text \<open>The name of the next entry, when there is one; the position of the directory moves on.\<close>

partial_function (option) dir_readdir :: "dir \<Rightarrow> fs \<Rightarrow> (u8 list option \<times> dir \<times> fs) option" where
  "dir_readdir d s = do {
     (e, s) \<leftarrow> inode_read_at (dir_inode d) (int sizeof_entry) (dir_pos d) s;
     if length e = sizeof_entry then do {
       let d = d\<lparr>dir_pos := dir_pos d + int sizeof_entry\<rparr>;
       if e_in_use e then do {
         ASSERT (0 \<in> set (e_name e));
         Some (Some (takeWhile (\<lambda>c. c \<noteq> 0) (e_name e)), d, s)
       } else dir_readdir d s
     } else Some (None, d, s)
   }"

definition filesys_create :: "u8 list \<Rightarrow> u8 list \<Rightarrow> int \<Rightarrow> fs \<Rightarrow> (bool \<times> fs) option" where
  "filesys_create e name initial_size s = do {
     (d, s) \<leftarrow> dir_open_root s;
     (success, inode_sector, s) \<leftarrow> (case d of
         None \<Rightarrow> Some (False, 0, s)
       | Some d \<Rightarrow> do {
           (r, s) \<leftarrow> free_map_allocate 1 s;
           case r of
             None \<Rightarrow> Some (False, 0, s)
           | Some inode_sector \<Rightarrow> do {
               (ok, s) \<leftarrow> inode_create inode_sector initial_size s;
               if \<not> ok then Some (False, inode_sector, s)
               else do {
                 (ok, s) \<leftarrow> dir_add e d name inode_sector s;
                 Some (ok, inode_sector, s)
               }
             }
         });
     s \<leftarrow> (if \<not> success \<and> inode_sector \<noteq> 0 then free_map_release inode_sector 1 s else Some s);
     s \<leftarrow> dir_close d s;
     Some (success, s)
   }"

definition filesys_open :: "u8 list \<Rightarrow> fs \<Rightarrow> (ptr \<times> fs) option" where
  "filesys_open name s = do {
     (d, s) \<leftarrow> dir_open_root s;
     (p, s) \<leftarrow> (case d of Some d \<Rightarrow> dir_lookup d name s | None \<Rightarrow> Some (NULL, s));
     s \<leftarrow> dir_close d s;
     file_open p s
   }"

definition filesys_remove :: "u8 list \<Rightarrow> fs \<Rightarrow> (bool \<times> fs) option" where
  "filesys_remove name s = do {
     (d, s) \<leftarrow> dir_open_root s;
     (success, s) \<leftarrow> (case d of Some d \<Rightarrow> dir_remove d name s | None \<Rightarrow> Some (False, s));
     s \<leftarrow> dir_close d s;
     Some (success, s)
   }"

definition do_format :: "fs \<Rightarrow> fs option" where
  "do_format s = do {
     s \<leftarrow> free_map_create s;
     (ok, s) \<leftarrow> dir_create ROOT_DIR_SECTOR 16 s;
     ASSERT ok;
     free_map_close s
   }"

text \<open>The device with the role of the file system, and the storage that the free map gets.\<close>

definition filesys_init :: "block option \<Rightarrow> bool \<Rightarrow> u32 list option \<Rightarrow> bool \<Rightarrow> fs \<Rightarrow> fs option" where
  "filesys_init dev got_struct storage format s = do {
     dev \<leftarrow> dev;
     let s = inode_init (s\<lparr>fs_device := dev\<rparr>);
     s \<leftarrow> free_map_init got_struct storage s;
     s \<leftarrow> (if format then do_format s else Some s);
     free_map_open s
   }"

definition filesys_done :: "fs \<Rightarrow> fs option" where
  "filesys_done s = free_map_close s"

section \<open>Entries\<close>

lemma length_le32 [simp]: "length (le32 n) = 4"
  by (simp add: le32_def)

lemma of_le_digits: "of_le (map (\<lambda>i. of_nat (n div 256 ^ i)) [0..<k]) = n mod 256 ^ k"
proof (induction k arbitrary: n)
  case (Suc k)
  have "map (\<lambda>i. of_nat (n div 256 ^ i)) [0..<Suc k] = (of_nat n :: u8) # map (\<lambda>i. of_nat (n div 256 div 256 ^ i)) [0..<k]"
    by (simp add: upt_conv_Cons map_Suc_upt [symmetric] div_mult2_eq del: upt_Suc)
  then show ?case
    using Suc.IH [of "n div 256"] mod_mult2_eq [of n 256 "256 ^ k"] by (simp add: unsigned_of_nat take_bit_eq_mod del: upt_Suc)
qed simp

lemma of_le_le32: "n < 2 ^ 32 \<Longrightarrow> of_le (le32 n) = n"
  by (simp only: le32_def of_le_digits) simp

text \<open>A new entry is in use, names its file and carries its sector.\<close>

lemma new_entry_fields:
  assumes "length name \<le> NAME_MAX" and "0 \<notin> set name" and "inode_sector < 2 ^ 32" and "length e = sizeof_entry"
  shows "length (new_entry inode_sector name e) = sizeof_entry" and "e_in_use (new_entry inode_sector name e)"
    and "e_sector (new_entry inode_sector name e) = inode_sector"
    and "name_matches name' (e_name (new_entry inode_sector name e)) = Some (name' = name)"
proof -
  let ?f = "name @ [0] @ drop (length name + 1) (e_name e)"
  have f: "length ?f = 15" using assms(1,4) by (simp add: e_name_def NAME_MAX_def sizeof_entry_def)
  then show "length (new_entry inode_sector name e) = sizeof_entry" by (simp add: new_entry_def sizeof_entry_def)
  have n: "new_entry inode_sector name e = (le32 inode_sector @ ?f) @ [1]" by (simp add: new_entry_def)
  have "length (le32 inode_sector @ ?f) = 19" using f by simp
  then show "e_in_use (new_entry inode_sector name e)" unfolding e_in_use_def n by (metis nth_append_length one_neq_zero)
  show "e_sector (new_entry inode_sector name e) = inode_sector"
    using assms(3) by (simp add: e_sector_def new_entry_def of_le_le32)
  have "drop 4 (new_entry inode_sector name e) = ?f @ [1]" by (simp add: new_entry_def)
  then have "e_name (new_entry inode_sector name e) = take 15 (?f @ [1])" by (simp only: e_name_def NAME_MAX_def) simp
  also have "\<dots> = ?f" using f by (metis append_eq_conv_conj)
  finally have "e_name (new_entry inode_sector name e) = ?f" .
  moreover have "takeWhile (\<lambda>c. c \<noteq> 0) ?f = name" using assms(2) by (subst takeWhile_append2) auto
  ultimately show "name_matches name' (e_name (new_entry inode_sector name e)) = Some (name' = name)"
    by (simp add: name_matches_def)
qed

section \<open>The table of open inodes\<close>


definition frame :: "fs \<Rightarrow> fs \<Rightarrow> bool" where
  "frame s s' \<longleftrightarrow> inodes s' = inodes s \<and> open_inodes s' = open_inodes s \<and> (\<exists>k. allocs s' = drop k (allocs s))"

lemma frame_refl [simp]: "frame s s"
  by (auto simp: frame_def intro: exI [of _ 0])

lemma frame_free_map [simp]: "frame (s\<lparr>free_map := b\<rparr>) s' = frame s s'" "frame s (s'\<lparr>free_map := b\<rparr>) = frame s s'"
  by (simp_all add: frame_def)



















end
