(* ===== verification/Spec2Isabelle.thy ===== *)
theory Spec2Isabelle
  imports Bitmap Kernel_Faults Hash_Table Arith64 Stdlib Malloc Pagedir Directory
begin

text \<open>
  A model of the Pintos kernel and proofs about it. Paths below are relative to \<^verbatim>\<open>src/src/\<close>.

  \<^bold>\<open>The program.\<close> Pintos is a small operating system for the 32-bit IA-32 processor, written in C. Its threads
  (\<^verbatim>\<open>threads/thread.c\<close>) are scheduled round robin or by priority, preempted by the timer (\<^verbatim>\<open>devices/timer.c\<close>) and synchronised
  by semaphores, locks with priority donation, condition variables and readers-writers locks (\<^verbatim>\<open>threads/synch.c\<close>). All of
  them keep threads in the doubly linked lists of \<^verbatim>\<open>lib/kernel/list.c\<close>. Memory comes in pages from two pools with a bitmap
  each (\<^verbatim>\<open>threads/palloc.c\<close>, \<^verbatim>\<open>lib/kernel/bitmap.c\<close>), which \<^verbatim>\<open>threads/malloc.c\<close> cuts into blocks and \<^verbatim>\<open>userprog/pagedir.c\<close>
  maps into address spaces. The file system stores files in runs of sectors (\<^verbatim>\<open>filesys/inode.c\<close>), allocated from a bitmap
  (\<^verbatim>\<open>filesys/free-map.c\<close>), and finds them by name (\<^verbatim>\<open>filesys/directory.c\<close>, \<^verbatim>\<open>filesys/filesys.c\<close>). The rest is a library: hash
  tables, strings, sorting and searching, 64-bit division.

  \<^bold>\<open>Conventions\<close> (\<^verbatim>\<open>Pintos_Prelude\<close>). Code is written in the option monad: \<^const>\<open>None\<close> is a kernel that does not get past a
  point, because an \<^verbatim>\<open>ASSERT\<close> fails, it panics, dereferences a null pointer, accesses an array outside of its bounds, traps,
  or runs a loop that does not end. A definition keeps the name and the order of the statements of the C function; loops are recursive
  functions, with
  \<^verbatim>\<open>partial_function\<close> where nothing bounds them, and then the properties stated of them include that they return. The scans of
  a directory are defined but no property is stated of them.
  Words are machine words, or numbers reduced modulo \<open>2 ^ 32\<close> or \<open>2 ^ 64\<close> where the code computes them and the reduction can matter.

  \<^bold>\<open>Lists\<close> (\<^verbatim>\<open>Kernel_List\<close>, \<^verbatim>\<open>Kernel_List_Sort\<close>, \<^verbatim>\<open>Kernel_List_Misc\<close>). The store gives every list element its two links, and the
  operations are the assignments of \<^verbatim>\<open>list.c\<close>. The relation \<^verbatim>\<open>is_list\<close> connects a store with a sequence; every operation
  returns, refines the operation on sequences and leaves other elements alone. The locale \<^verbatim>\<open>list_less\<close> states the contract of
  a comparison function; merge sort, ordered insertion, maximum, reversal and removal of duplicates are proved for
  every function that meets it. Inserting an element that is in a list into another one destroys the first.

  \<^bold>\<open>Bitmaps\<close> (\<^verbatim>\<open>Bitmap\<close>). Arrays of 32-bit elements as in \<^verbatim>\<open>bitmap.c\<close>; the locale \<^verbatim>\<open>bit_array\<close> is what an allocator relies on
  (finding and flipping a free group, clearing it again), and the code is an instance of it.

  \<^bold>\<open>Threads, scheduler and timer\<close> (\<^verbatim>\<open>Threads\<close>), \<^bold>\<open>synchronization\<close> (\<^verbatim>\<open>Synch\<close>). The state is the record \<^verbatim>\<open>kernel\<close>: thread structures,
  locks, semaphores, the lists of threads as sequences, and the global variables of \<^verbatim>\<open>thread.c\<close>, \<^verbatim>\<open>timer.c\<close> and \<^verbatim>\<open>interrupt.c\<close>. A
  function that blocks or enables interrupts in its middle is cut there.

  \<^bold>\<open>Interleaving\<close> (\<^verbatim>\<open>Kernel_Steps\<close>). The pieces are frames on the stacks of the threads. The relation \<^verbatim>\<open>step\<close> runs the next
  piece of the running thread, starts a kernel function for it, or takes a timer interrupt wherever interrupts are on;
  \<^verbatim>\<open>reachable\<close> is what can follow \<^verbatim>\<open>thread_init\<close>. \<^verbatim>\<open>Kernel_Inv\<close>, \<^verbatim>\<open>Synch_Inv\<close> and \<^verbatim>\<open>Lock_Inv\<close> show that each operation keeps the
  invariant of the kernel, \<^verbatim>\<open>Steps_Inv\<close> that each step does. From this \<^verbatim>\<open>Kernel_Props\<close> has mutual exclusion of locks and the
  order of priorities in every reachable configuration, and what donation, scheduling, the timer, the release of a lock
  and signalling do in a single call. \<^verbatim>\<open>Kernel_Faults\<close> has reachable configurations in which the code fails:
  a donation panics, a condition variable corrupts a list, a sleeper is forgotten, a priority falls below its base.

  Three limits of this part. The sequences cannot express a list whose links are destroyed, so a run ends where an
  element would be linked a second time. A thread exits only when it holds no lock. The list operations that \<^verbatim>\<open>cond_wait\<close>,
  \<^verbatim>\<open>cond_signal\<close> and \<^verbatim>\<open>cond_broadcast\<close> run with interrupts on are single steps. The theorems on reachable configurations are about
  the runs within these limits.

  \<^bold>\<open>Memory\<close> (\<^verbatim>\<open>Palloc\<close>, \<^verbatim>\<open>Malloc\<close>, \<^verbatim>\<open>Pagedir\<close>). The page allocator hands out only free pages, and freeing restores the pools. The block
  allocator is modelled with its arenas and descriptors; a request near \<open>2 ^ 32\<close> bytes wraps and gets too small a block. Page
  directories and tables are words in memory, and \<^verbatim>\<open>pagedir_set_page\<close> refines the update of a map from pages to frames; what
  is shown of an entry is its address and its presence.

  \<^bold>\<open>File system\<close> (\<^verbatim>\<open>Inode\<close>, \<^verbatim>\<open>Directory\<close>). A device is an array of sectors, without the driver behind \<^verbatim>\<open>block.c\<close>. Reading and
  writing an inode refine an array of bytes; the table of open inodes stays well-formed under all operations. The results
  of memory allocation are an input of the model. Directories and \<^verbatim>\<open>filesys.c\<close> are modelled on top.

  \<^bold>\<open>Library\<close> (\<^verbatim>\<open>Hash_Table\<close>, \<^verbatim>\<open>Arith64\<close>, \<^verbatim>\<open>Stdlib\<close>, \<^verbatim>\<open>Cstring\<close>). Hash tables refine finite maps, with resizing and iteration;
  division by shifting and estimating equals integer division; heap sort sorts, binary search finds; \<^verbatim>\<open>atoi\<close>, \<^verbatim>\<open>memmove\<close>,
  \<^verbatim>\<open>strlcpy\<close> and \<^verbatim>\<open>strtok_r\<close> have the effect they promise, except that \<^verbatim>\<open>memmove\<close> copying upwards returns the end of the block and
  the 64-bit remainders are truncated to 32 bits.

  \<^bold>\<open>Bounds.\<close> The one definition with fuel is the iteration over a hash table; one more than the number of elements is shown to be
  enough. Heap sort is proved for arrays of fewer than \<open>2 ^ 31\<close> elements, beyond which the index computation wraps. Signed
  division excludes \<open>- 2 ^ 63\<close> divided by 1 or \<open>- 1\<close>.

  \<^bold>\<open>Not modelled.\<close> Drivers and ports, interrupt controllers, boot code, the stack switch in assembly and the descriptor tables are
  hardware access. Processes, system calls and page faults depend on user memory and executables. Formatted output,
  console and debugging are output. The fair and multi-level feedback schedulers are not implemented in the code, which panics. The
  readers-writers lock is part of the transition system; no theorem is stated about it.
\<close>

end
